(* ===== verification/Prelude.thy ===== *)
theory Prelude
  imports Complex_Main "HOL-Library.Word" "HOL-Library.List_Lexorder" "HOL-Library.Char_ord"
    "HOL-Library.Multiset"
begin

text \<open>
  Shared vocabulary of the development: the collections of rewrite rules the component
  theories fill, Go maps as association lists, Go's \<^verbatim>\<open>sort.Slice\<close> and
  \<^verbatim>\<open>sort.Search\<close>, SQL updates of a table by primary key, and the list lemmas that
  several components need.
\<close>

named_theorems table_simps \<open>rewrite rules for the rows of a table after an update\<close>
named_theorems buf_simps \<open>rewrite rules for byte buffers written in place\<close>
named_theorems range_simps \<open>rewrite rules for ranges of sectors and bytes\<close>

section \<open>Strings and maps as Go has them\<close>

text \<open>
  A Go map is an association list with distinct keys; a missing key reads as the zero
  value of the element type (\<^verbatim>\<open>m[k]\<close>), and \<open>map_of\<close> is the two-value read
  (\<^verbatim>\<open>v, ok := m[k]\<close>).
\<close>

type_synonym ('k, 'v) gomap = "('k \<times> 'v) list"

definition go_get :: "'v \<Rightarrow> ('k, 'v) gomap \<Rightarrow> 'k \<Rightarrow> 'v" where
  "go_get zero m k = (case map_of m k of None \<Rightarrow> zero | Some v \<Rightarrow> v)"

text \<open>ASCII case folding, which is what \<^verbatim>\<open>strings.EqualFold\<close> does on ASCII strings.\<close>

definition fold_char :: "char \<Rightarrow> char" where
  "fold_char c = (if CHR ''A'' \<le> c \<and> c \<le> CHR ''Z'' then char_of (of_char c + (32::nat)) else c)"

definition EqualFold :: "string \<Rightarrow> string \<Rightarrow> bool" where
  "EqualFold s t \<longleftrightarrow> map fold_char s = map fold_char t"

text \<open>\<^verbatim>\<open>strings.CutPrefix\<close> and \<^verbatim>\<open>strings.HasPrefix\<close>.\<close>

fun CutPrefix :: "string \<Rightarrow> string \<Rightarrow> string option" where
  "CutPrefix s [] = Some s"
| "CutPrefix [] (p # ps) = None"
| "CutPrefix (c # s) (p # ps) = (if c = p then CutPrefix s ps else None)"

definition HasPrefix :: "string \<Rightarrow> string \<Rightarrow> bool" where
  "HasPrefix s p \<longleftrightarrow> CutPrefix s p \<noteq> None"

lemma CutPrefix_append [simp]: "CutPrefix (p @ s) p = Some s"
  by (induction p) auto

lemma CutPrefix_Some_iff: "CutPrefix s p = Some r \<longleftrightarrow> s = p @ r"
  by (induction s p rule: CutPrefix.induct) (auto split: if_splits)

section \<open>Sorting and searching\<close>

text \<open>
  \<^verbatim>\<open>sort.Slice(xs, less)\<close>. Go leaves the order of elements that are equal under
  \<open>lt\<close> open; the model keeps them in their original order. Wherever the code's comparison
  is total on the elements (all uses here but one, which is stated where it occurs) the sorted
  order is unique and the choice does not matter.
\<close>

fun insert_by :: "('a \<Rightarrow> 'a \<Rightarrow> bool) \<Rightarrow> 'a \<Rightarrow> 'a list \<Rightarrow> 'a list" where
  "insert_by lt x [] = [x]"
| "insert_by lt x (y # ys) = (if lt y x then y # insert_by lt x ys else x # y # ys)"

fun sort_slice :: "('a \<Rightarrow> 'a \<Rightarrow> bool) \<Rightarrow> 'a list \<Rightarrow> 'a list" where
  "sort_slice lt [] = []"
| "sort_slice lt (x # xs) = insert_by lt x (sort_slice lt xs)"

lemma mset_insert_by [simp]: "mset (insert_by lt x xs) = add_mset x (mset xs)"
  by (induction xs) auto

lemma mset_sort_slice [simp]: "mset (sort_slice lt xs) = mset xs"
  by (induction xs) auto

lemma set_sort_slice [simp]: "set (sort_slice lt xs) = set xs"
  by (metis mset_sort_slice set_mset_mset)

lemma set_insert_by [simp]: "set (insert_by lt x xs) = insert x (set xs)"
  by (metis mset_insert_by set_mset_add_mset_insert set_mset_mset)

lemma length_sort_slice [simp]: "length (sort_slice lt xs) = length xs"
  by (metis mset_sort_slice size_mset)

lemma distinct_sort_slice [simp]: "distinct (sort_slice lt xs) = distinct xs"
  by (metis mset_sort_slice mset_eq_imp_distinct_iff)

lemma sorted_insert_by:
  assumes tr: "\<And>a b c. lt a b \<Longrightarrow> lt b c \<Longrightarrow> lt a c"
    and as: "\<And>a b. lt a b \<Longrightarrow> \<not> lt b a"
    and nt: "\<And>a b c. \<not> lt b a \<Longrightarrow> \<not> lt c b \<Longrightarrow> \<not> lt c a"
    and srt: "sorted_wrt (\<lambda>a b. \<not> lt b a) xs"
  shows "sorted_wrt (\<lambda>a b. \<not> lt b a) (insert_by lt x xs)"
  using srt
proof (induction xs)
  case Nil
  then show ?case by simp
next
  case (Cons y ys)
  show ?case
  proof (cases "lt y x")
    case True
    then have "\<not> lt x y" by (rule as)
    with Cons True show ?thesis by simp
  next
    case False
    have "\<not> lt z x" if "z \<in> set ys" for z
      using Cons.prems that False nt [of y x z] by auto
    with Cons.prems False show ?thesis by auto
  qed
qed

lemma sorted_sort_slice:
  assumes "\<And>a b c. lt a b \<Longrightarrow> lt b c \<Longrightarrow> lt a c"
    and "\<And>a b. lt a b \<Longrightarrow> \<not> lt b a"
    and "\<And>a b c. \<not> lt b a \<Longrightarrow> \<not> lt c b \<Longrightarrow> \<not> lt c a"
  shows "sorted_wrt (\<lambda>a b. \<not> lt b a) (sort_slice lt xs)"
  by (induction xs) (simp_all add: sorted_insert_by [OF assms])

text \<open>Sorting by a key: the common instance, with the key's own linear order.\<close>

lemma sorted_sort_slice_key:
  fixes f :: "'a \<Rightarrow> 'b::linorder"
  shows "sorted (map f (sort_slice (\<lambda>a b. f a < f b) xs))"
proof -
  have "sorted_wrt (\<lambda>a b. \<not> f b < f a) (sort_slice (\<lambda>a b. f a < f b) xs)"
    by (rule sorted_sort_slice) auto
  then show ?thesis by (simp add: sorted_map not_less)
qed

text \<open>
  \<^verbatim>\<open>sort.Search(n, f)\<close>: the binary search itself, with its two cursors, and the
  property that makes it right: on a predicate that never goes back to false it returns the
  first index at which the predicate holds, or \<open>n\<close>.
\<close>

function sort_search :: "(nat \<Rightarrow> bool) \<Rightarrow> nat \<Rightarrow> nat \<Rightarrow> nat" where
  "sort_search f i j =
     (if i < j then
        (let h = (i + j) div 2 in if \<not> f h then sort_search f (h + 1) j else sort_search f i h)
      else i)"
  by pat_completeness auto
termination
  by (relation "measure (\<lambda>(f, i, j). j - i)") auto

declare sort_search.simps [simp del]

definition Search :: "nat \<Rightarrow> (nat \<Rightarrow> bool) \<Rightarrow> nat" where
  "Search n f = sort_search f 0 n"

lemma sort_search_spec:
  assumes "\<forall>a b. a \<le> b \<and> b < n \<and> f a \<longrightarrow> f b"
    and "i \<le> j \<and> j \<le> n \<and> (\<forall>k < i. \<not> f k) \<and> (\<forall>k. j \<le> k \<and> k < n \<longrightarrow> f k)"
  shows "sort_search f i j \<le> n \<and> (\<forall>k < sort_search f i j. \<not> f k)
    \<and> (\<forall>k. sort_search f i j \<le> k \<and> k < n \<longrightarrow> f k)"
  using assms
proof (induction f i j rule: sort_search.induct)
  case (1 f i j)
  let ?h = "(i + j) div 2"
  consider "\<not> i < j" | "i < j" "f ?h" | "i < j" "\<not> f ?h" by blast
  then show ?case
  proof cases
    case 1
    then have "sort_search f i j = i" by (simp add: sort_search.simps [of f i j])
    with "1.prems"(2) 1 show ?thesis by auto
  next
    case 2
    have eq: "sort_search f i j = sort_search f i ?h"
      using 2 by (simp add: sort_search.simps [of f i j] Let_def)
    have "i \<le> ?h \<and> ?h \<le> n \<and> (\<forall>k < i. \<not> f k) \<and> (\<forall>k. ?h \<le> k \<and> k < n \<longrightarrow> f k)"
    proof (intro conjI)
      show "\<forall>k. ?h \<le> k \<and> k < n \<longrightarrow> f k" using "1.prems"(1) 2(2) by blast
    qed (use 2(1) "1.prems"(2) in auto)
    with 2 "1.IH"(2) [OF 2(1) refl] "1.prems"(1) show ?thesis unfolding eq by blast
  next
    case 3
    have eq: "sort_search f i j = sort_search f (?h + 1) j"
      using 3 by (simp add: sort_search.simps [of f i j] Let_def)
    have "\<not> f k" if "k < ?h + 1" for k
    proof
      assume "f k"
      moreover have "k \<le> ?h" "?h < n" using that 3 "1.prems"(2) by auto
      ultimately show False using "1.prems"(1) 3(2) by blast
    qed
    moreover have "?h + 1 \<le> j" using 3 by auto
    ultimately have "?h + 1 \<le> j \<and> j \<le> n \<and> (\<forall>k < ?h + 1. \<not> f k) \<and> (\<forall>k. j \<le> k \<and> k < n \<longrightarrow> f k)"
      using "1.prems"(2) by blast
    with 3 "1.IH"(1) [OF 3(1) refl] "1.prems"(1) show ?thesis unfolding eq by blast
  qed
qed

lemma Search_spec:
  assumes "\<And>a b. a \<le> b \<Longrightarrow> b < n \<Longrightarrow> f a \<Longrightarrow> f b"
  shows "Search n f \<le> n" "\<And>k. k < Search n f \<Longrightarrow> \<not> f k"
    "\<And>k. Search n f \<le> k \<Longrightarrow> k < n \<Longrightarrow> f k"
proof -
  have m: "\<forall>a b. a \<le> b \<and> b < n \<and> f a \<longrightarrow> f b" using assms by blast
  have "0 \<le> n \<and> n \<le> n \<and> (\<forall>k < 0. \<not> f k) \<and> (\<forall>k. n \<le> k \<and> k < n \<longrightarrow> f k)" by auto
  note spec = sort_search_spec [OF m this, folded Search_def]
  show "Search n f \<le> n" "\<And>k. k < Search n f \<Longrightarrow> \<not> f k"
    "\<And>k. Search n f \<le> k \<Longrightarrow> k < n \<Longrightarrow> f k"
    using spec by blast+
qed

section \<open>Tables\<close>

text \<open>
  A table is the list of its rows. \<^verbatim>\<open>UPDATE t SET .. WHERE p\<close> rewrites the rows
  that satisfy \<open>p\<close> and reports how many there were; \<^verbatim>\<open>DELETE FROM t WHERE p\<close> drops
  them.
\<close>

definition update_where :: "('r \<Rightarrow> bool) \<Rightarrow> ('r \<Rightarrow> 'r) \<Rightarrow> 'r list \<Rightarrow> 'r list" where
  "update_where p f rows = map (\<lambda>r. if p r then f r else r) rows"

definition rows_affected :: "('r \<Rightarrow> bool) \<Rightarrow> 'r list \<Rightarrow> nat" where
  "rows_affected p rows = length (filter p rows)"

definition delete_where :: "('r \<Rightarrow> bool) \<Rightarrow> 'r list \<Rightarrow> 'r list" where
  "delete_where p rows = filter (\<lambda>r. \<not> p r) rows"

lemma rows_affected_0 [table_simps]: "rows_affected p rows = 0 \<longleftrightarrow> (\<forall>r \<in> set rows. \<not> p r)"
  by (simp add: rows_affected_def filter_empty_conv)

lemma set_update_where [table_simps]:
  "r \<in> set (update_where p f rows) \<longleftrightarrow> (\<exists>q \<in> set rows. r = (if p q then f q else q))"
  by (auto simp: update_where_def)

lemma set_delete_where [table_simps]:
  "r \<in> set (delete_where p rows) \<longleftrightarrow> r \<in> set rows \<and> \<not> p r"
  by (auto simp: delete_where_def)

lemma map_key_update_where [table_simps]:
  assumes "\<And>r. key (f r) = key r"
  shows "map key (update_where p f rows) = map key rows"
  using assms by (simp add: update_where_def)

lemma distinct_map_delete_where:
  "distinct (map key rows) \<Longrightarrow> distinct (map key (delete_where p rows))"
  by (simp add: delete_where_def distinct_map_filter)

lemma update_where_id: "(\<And>r. r \<in> set rows \<Longrightarrow> p r \<Longrightarrow> f r = r) \<Longrightarrow> update_where p f rows = rows"
  by (simp add: update_where_def map_idI)

text \<open>Summing a column over the rows that satisfy a condition.\<close>

definition column_sum :: "('r \<Rightarrow> 'a::comm_monoid_add) \<Rightarrow> ('r \<Rightarrow> bool) \<Rightarrow> 'r list \<Rightarrow> 'a" where
  "column_sum f p rows = sum_list (map f (filter p rows))"

lemma column_sum_Nil [simp]: "column_sum f p [] = 0"
  by (simp add: column_sum_def)

lemma column_sum_append [simp]: "column_sum f p (xs @ ys) = column_sum f p xs + column_sum f p ys"
  by (simp add: column_sum_def)

lemma column_sum_Cons [simp]:
  "column_sum f p (x # xs) = (if p x then f x else 0) + column_sum f p xs"
  by (simp add: column_sum_def)

lemma column_sum_nonneg:
  fixes f :: "'r \<Rightarrow> 'a::ordered_comm_monoid_add"
  shows "(\<And>r. r \<in> set rows \<Longrightarrow> 0 \<le> f r) \<Longrightarrow> 0 \<le> column_sum f p rows"
  unfolding column_sum_def by (intro sum_list_nonneg) auto

text \<open>Deleting the one row with a given key takes exactly its value out of the sum.\<close>

lemma column_sum_delete_key:
  fixes f :: "'r \<Rightarrow> 'a::ab_group_add"
  assumes "distinct (map key rows)" "r \<in> set rows"
  shows "column_sum f p (delete_where (\<lambda>q. key q = key r) rows)
    = column_sum f p rows - (if p r then f r else 0)"
  using assms
proof (induction rows)
  case Nil
  then show ?case by simp
next
  case (Cons x xs)
  show ?case
  proof (cases "x = r")
    case True
    with Cons.prems have "\<forall>q \<in> set xs. key q \<noteq> key r" by (auto simp: image_iff)
    then have "delete_where (\<lambda>q. key q = key r) xs = xs" by (simp add: delete_where_def)
    with True show ?thesis by (simp add: delete_where_def)
  next
    case False
    with Cons.prems have "key x \<noteq> key r" "r \<in> set xs" by (auto simp: image_iff)
    with Cons show ?thesis by (simp add: delete_where_def algebra_simps)
  qed
qed

lemma column_sum_ge_member:
  fixes f :: "'r \<Rightarrow> 'a::ordered_ab_group_add"
  assumes "\<And>q. q \<in> set rows \<Longrightarrow> 0 \<le> f q" "r \<in> set rows" "p r"
  shows "f r \<le> column_sum f p rows"
  using assms
proof (induction rows)
  case (Cons x xs)
  have "0 \<le> column_sum f p xs" "0 \<le> (if p x then f x else 0)"
    using Cons.prems by (auto intro: column_sum_nonneg)
  with Cons show ?case by (auto intro: add_increasing2 add_increasing)
qed simp

lemma find_append_skip: "(\<And>x. x \<in> set xs \<Longrightarrow> \<not> P x) \<Longrightarrow> find P (xs @ ys) = find P ys"
  by (induction xs) auto

lemma find_unique_key:
  assumes "distinct (map key rows)" "r \<in> set rows"
  shows "find (\<lambda>q. key q = key r) rows = Some r"
  using assms by (induction rows) (auto simp: image_iff)

end
