(* ===== verification/Placement.thy ===== *)
theory Placement
  imports Prelude "HOL-Library.AList"
begin

text \<open>
  The placement ledger of the control plane's store
  (\<^verbatim>\<open>src/internal/control/store/placement.go\<close>): the \<^verbatim>\<open>nodes\<close> and
  \<^verbatim>\<open>reservations\<close> tables, and every method that reads or writes them. A method
  that fails inside the database (the flag \<open>fault\<close>) is rolled back and changes
  nothing. CPU shares are the exact rationals the decimal values denote, memory, disk and
  GPU counts are integers, times are milliseconds.
\<close>

section \<open>Records\<close>

record CachedImage =
  SizeBytes :: int
  Digest :: string
  Warm :: bool

record NodeRecord =
  nr_ID :: string
  nr_Region :: string
  nr_Labels :: "(string, string) gomap"
  nr_Runtimes :: "string list"
  nr_CPUAllocatable :: rat
  nr_MemoryAllocateMiB :: int
  nr_DiskAllocateMiB :: int
  nr_GPUCount :: int
  nr_CPUCommitted :: rat
  nr_MemoryCommitMiB :: int
  nr_DiskCommitMiB :: int
  nr_GPUCommitted :: int
  nr_DiskUsedMiB :: int
  nr_CPUUsedPercent :: rat
  nr_MemUsedPercent :: rat
  nr_CreateInFlight :: int
  nr_MaxCreates :: int
  nr_CachedImages :: "(string, CachedImage) gomap"
  nr_NVMeCache :: bool
  nr_CPUVendor :: string
  nr_CPUFamily :: int
  nr_CPUTemplate :: string
  nr_State :: string
  nr_AdvertiseAddr :: string
  nr_LastHeartbeat :: int

text \<open>The resource claim a placement makes, and its row in the reservations table.\<close>

record Reservation =
  res_SandboxID :: string
  res_CPU :: rat
  res_MemoryMiB :: int
  res_DiskMiB :: int
  res_GPU :: int
  res_SpreadKey :: string

record reservation_row =
  row_sandbox_id :: string
  row_node_id :: string
  row_cpu :: rat
  row_mem_mib :: int
  row_disk_mib :: int
  row_gpu :: int
  row_spread_key :: string
  row_created_at :: int

text \<open>The database, with the two columns of the sandboxes table that placement joins on.\<close>

record db =
  db_nodes :: "NodeRecord list"
  db_reservations :: "reservation_row list"
  db_sandboxes :: "(string \<times> string) list"

datatype store_error =
    ErrDatabase
  | ErrCapacityChanged string

text \<open>Node liveness states and the states in which a sandbox will never run again.\<close>

definition NodeReady :: string where "NodeReady = ''READY''"
definition NodeSuspect :: string where "NodeSuspect = ''SUSPECT''"
definition NodeLost :: string where "NodeLost = ''LOST''"
definition NodeDraining :: string where "NodeDraining = ''DRAINING''"

lemmas node_states = NodeReady_def NodeSuspect_def NodeLost_def NodeDraining_def

definition AllSandboxStates :: "string list" where
  "AllSandboxStates =
     [''PENDING'', ''SCHEDULED'', ''PULLING'', ''STARTING'', ''RUNNING'', ''PAUSED'',
      ''SNAPSHOTTING'', ''RESTORING'', ''STOPPING'', ''STOPPED'', ''FAILED'', ''LOST'']"

definition IsTerminal :: "string \<Rightarrow> bool" where
  "IsTerminal s \<longleftrightarrow> s = ''STOPPED'' \<or> s = ''FAILED'' \<or> s = ''LOST''"

section \<open>Node registration\<close>

text \<open>
  \<^verbatim>\<open>UpsertNode\<close>: a first registration inserts a row whose commitment columns have
  their defaults; a later one overwrites everything the node reports and leaves the
  commitments alone.
\<close>

definition default_max_creates :: "NodeRecord \<Rightarrow> NodeRecord" where
  "default_max_creates n = (if nr_MaxCreates n \<le> 0 then n\<lparr>nr_MaxCreates := 16\<rparr> else n)"

definition fresh_node_row :: "NodeRecord \<Rightarrow> NodeRecord" where
  "fresh_node_row n = n\<lparr>nr_CPUCommitted := 0, nr_MemoryCommitMiB := 0, nr_DiskCommitMiB := 0,
     nr_GPUCommitted := 0, nr_DiskUsedMiB := 0, nr_CPUUsedPercent := 0, nr_MemUsedPercent := 0,
     nr_CreateInFlight := 0\<rparr>"

definition excluded_set :: "NodeRecord \<Rightarrow> NodeRecord \<Rightarrow> NodeRecord" where
  "excluded_set n old = old\<lparr>nr_Region := nr_Region n, nr_Labels := nr_Labels n,
     nr_Runtimes := nr_Runtimes n, nr_CPUAllocatable := nr_CPUAllocatable n,
     nr_MemoryAllocateMiB := nr_MemoryAllocateMiB n, nr_DiskAllocateMiB := nr_DiskAllocateMiB n,
     nr_GPUCount := nr_GPUCount n, nr_MaxCreates := nr_MaxCreates n,
     nr_CachedImages := nr_CachedImages n, nr_NVMeCache := nr_NVMeCache n,
     nr_State := nr_State n, nr_AdvertiseAddr := nr_AdvertiseAddr n,
     nr_LastHeartbeat := nr_LastHeartbeat n, nr_CPUVendor := nr_CPUVendor n,
     nr_CPUFamily := nr_CPUFamily n, nr_CPUTemplate := nr_CPUTemplate n\<rparr>"

definition Store_UpsertNode :: "bool \<Rightarrow> NodeRecord \<Rightarrow> db \<Rightarrow> (store_error + unit) \<times> db" where
  "Store_UpsertNode fault n d =
     (if fault then (Inl ErrDatabase, d)
      else let n' = default_max_creates n in
        if \<exists>o' \<in> set (db_nodes d). nr_ID o' = nr_ID n'
        then (Inr (), d\<lparr>db_nodes :=
                update_where (\<lambda>o'. nr_ID o' = nr_ID n') (excluded_set n') (db_nodes d)\<rparr>)
        else (Inr (), d\<lparr>db_nodes := db_nodes d @ [fresh_node_row n']\<rparr>))"

definition Store_LoadNodes :: "bool \<Rightarrow> db \<Rightarrow> store_error + NodeRecord list" where
  "Store_LoadNodes fault d =
     (if fault then Inl ErrDatabase
      else Inr (sort_slice (\<lambda>a b. nr_ID a < nr_ID b) (db_nodes d)))"

definition Store_GetNode :: "bool \<Rightarrow> string \<Rightarrow> db \<Rightarrow> store_error + NodeRecord option" where
  "Store_GetNode fault nid d =
     (if fault then Inl ErrDatabase else Inr (find (\<lambda>n. nr_ID n = nid) (db_nodes d)))"

section \<open>Reserve, release, settle\<close>

text \<open>The \<^verbatim>\<open>WHERE\<close> clause of the conditional update: ready, and room in all four resources.\<close>

definition node_fits :: "NodeRecord \<Rightarrow> Reservation \<Rightarrow> bool" where
  "node_fits n res \<longleftrightarrow> nr_State n = NodeReady
     \<and> nr_CPUCommitted n + res_CPU res \<le> nr_CPUAllocatable n
     \<and> nr_MemoryCommitMiB n + res_MemoryMiB res \<le> nr_MemoryAllocateMiB n
     \<and> nr_DiskCommitMiB n + res_DiskMiB res \<le> nr_DiskAllocateMiB n
     \<and> nr_GPUCommitted n + res_GPU res \<le> nr_GPUCount n"

definition commit_node :: "Reservation \<Rightarrow> NodeRecord \<Rightarrow> NodeRecord" where
  "commit_node res n = n\<lparr>nr_CPUCommitted := nr_CPUCommitted n + res_CPU res,
     nr_MemoryCommitMiB := nr_MemoryCommitMiB n + res_MemoryMiB res,
     nr_DiskCommitMiB := nr_DiskCommitMiB n + res_DiskMiB res,
     nr_GPUCommitted := nr_GPUCommitted n + res_GPU res,
     nr_CreateInFlight := nr_CreateInFlight n + 1\<rparr>"

definition reservation_row_of :: "string \<Rightarrow> Reservation \<Rightarrow> int \<Rightarrow> reservation_row" where
  "reservation_row_of nid res now =
     \<lparr>row_sandbox_id = res_SandboxID res, row_node_id = nid, row_cpu = res_CPU res,
      row_mem_mib = res_MemoryMiB res, row_disk_mib = res_DiskMiB res, row_gpu = res_GPU res,
      row_spread_key = res_SpreadKey res, row_created_at = now\<rparr>"

text \<open>\<^verbatim>\<open>INSERT .. ON CONFLICT(sandbox_id) DO NOTHING\<close>.\<close>

definition insert_reservation :: "reservation_row \<Rightarrow> reservation_row list \<Rightarrow> reservation_row list" where
  "insert_reservation r rows =
     (if \<exists>q \<in> set rows. row_sandbox_id q = row_sandbox_id r then rows else rows @ [r])"

definition Store_Reserve ::
  "bool \<Rightarrow> int \<Rightarrow> string \<Rightarrow> Reservation \<Rightarrow> db \<Rightarrow> (store_error + unit) \<times> db" where
  "Store_Reserve fault now nid res d =
     (if fault then (Inl ErrDatabase, d)
      else let hit = (\<lambda>n. nr_ID n = nid \<and> node_fits n res) in
        if rows_affected hit (db_nodes d) = 0 then (Inl (ErrCapacityChanged nid), d)
        else (Inr (), d\<lparr>db_nodes := update_where hit (commit_node res) (db_nodes d),
                db_reservations :=
                  insert_reservation (reservation_row_of nid res now) (db_reservations d)\<rparr>))"

text \<open>\<^verbatim>\<open>CASE WHEN c - ? < 0 THEN 0 ELSE c - ? END\<close>, per column.\<close>

definition clamp_sub :: "'a::linordered_idom \<Rightarrow> 'a \<Rightarrow> 'a" where
  "clamp_sub a b = (if a - b < 0 then 0 else a - b)"

definition release_node :: "reservation_row \<Rightarrow> NodeRecord \<Rightarrow> NodeRecord" where
  "release_node r n = n\<lparr>nr_CPUCommitted := clamp_sub (nr_CPUCommitted n) (row_cpu r),
     nr_MemoryCommitMiB := clamp_sub (nr_MemoryCommitMiB n) (row_mem_mib r),
     nr_DiskCommitMiB := clamp_sub (nr_DiskCommitMiB n) (row_disk_mib r),
     nr_GPUCommitted := clamp_sub (nr_GPUCommitted n) (row_gpu r)\<rparr>"

definition Store_Release :: "bool \<Rightarrow> string \<Rightarrow> db \<Rightarrow> (store_error + unit) \<times> db" where
  "Store_Release fault sid d =
     (if fault then (Inl ErrDatabase, d)
      else case find (\<lambda>r. row_sandbox_id r = sid) (db_reservations d) of
          None \<Rightarrow> (Inr (), d)
        | Some r \<Rightarrow> (Inr (), d\<lparr>db_nodes :=
              update_where (\<lambda>n. nr_ID n = row_node_id r) (release_node r) (db_nodes d),
              db_reservations := delete_where (\<lambda>q. row_sandbox_id q = sid) (db_reservations d)\<rparr>))"

definition Store_FinishCreate :: "bool \<Rightarrow> string \<Rightarrow> db \<Rightarrow> (store_error + unit) \<times> db" where
  "Store_FinishCreate fault nid d =
     (if fault then (Inl ErrDatabase, d)
      else (Inr (), d\<lparr>db_nodes := update_where (\<lambda>n. nr_ID n = nid \<and> nr_CreateInFlight n > 0)
              (\<lambda>n. n\<lparr>nr_CreateInFlight := nr_CreateInFlight n - 1\<rparr>) (db_nodes d)\<rparr>))"

section \<open>Queries and liveness\<close>

text \<open>\<^verbatim>\<open>SELECT node_id, COUNT(*) .. GROUP BY node_id\<close>.\<close>

definition Store_SpreadCounts :: "bool \<Rightarrow> string \<Rightarrow> db \<Rightarrow> store_error + (string, int) gomap" where
  "Store_SpreadCounts fault key d =
     (if key = '''' then Inr []
      else if fault then Inl ErrDatabase
      else let rows = filter (\<lambda>r. row_spread_key r = key) (db_reservations d) in
        Inr (map (\<lambda>nid. (nid, int (length (filter (\<lambda>r. row_node_id r = nid) rows))))
               (remdups (map row_node_id rows))))"

definition Store_SetNodeState :: "bool \<Rightarrow> string \<Rightarrow> string \<Rightarrow> db \<Rightarrow> (store_error + bool) \<times> db" where
  "Store_SetNodeState fault nid st d =
     (if fault then (Inl ErrDatabase, d)
      else let hit = (\<lambda>n. nr_ID n = nid \<and> nr_State n \<noteq> st) in
        (Inr (rows_affected hit (db_nodes d) > 0),
         d\<lparr>db_nodes := update_where hit (\<lambda>n. n\<lparr>nr_State := st\<rparr>) (db_nodes d)\<rparr>))"

definition Store_PutNodeImages ::
  "bool \<Rightarrow> string \<Rightarrow> (string, CachedImage) gomap \<Rightarrow> db \<Rightarrow> (store_error + unit) \<times> db" where
  "Store_PutNodeImages fault nid images d =
     (if fault then (Inl ErrDatabase, d)
      else (Inr (), d\<lparr>db_nodes := update_where (\<lambda>n. nr_ID n = nid)
              (\<lambda>n. n\<lparr>nr_CachedImages := images\<rparr>) (db_nodes d)\<rparr>))"

definition Store_RenewLease :: "bool \<Rightarrow> int \<Rightarrow> string \<Rightarrow> db \<Rightarrow> (store_error + unit) \<times> db" where
  "Store_RenewLease fault now nid d =
     (if fault then (Inl ErrDatabase, d)
      else (Inr (), d\<lparr>db_nodes := update_where (\<lambda>n. nr_ID n = nid)
              (\<lambda>n. n\<lparr>nr_LastHeartbeat := now,
                     nr_State := (if nr_State n \<in> {''SUSPECT'', ''LOST''} then ''READY''
                                  else nr_State n)\<rparr>) (db_nodes d)\<rparr>))"

definition Store_SetNodeUsage ::
  "bool \<Rightarrow> string \<Rightarrow> int \<Rightarrow> rat \<Rightarrow> rat \<Rightarrow> db \<Rightarrow> (store_error + unit) \<times> db" where
  "Store_SetNodeUsage fault nid diskUsedMiB cpuPct memPct d =
     (if fault then (Inl ErrDatabase, d)
      else (Inr (), d\<lparr>db_nodes := update_where (\<lambda>n. nr_ID n = nid)
              (\<lambda>n. n\<lparr>nr_DiskUsedMiB := diskUsedMiB, nr_CPUUsedPercent := cpuPct,
                     nr_MemUsedPercent := memPct\<rparr>) (db_nodes d)\<rparr>))"

definition Store_StaleNodes :: "bool \<Rightarrow> int \<Rightarrow> string list \<Rightarrow> db \<Rightarrow> store_error + NodeRecord list" where
  "Store_StaleNodes fault olderThan excludeStates d =
     (case Store_LoadNodes fault d of
        Inl e \<Rightarrow> Inl e
      | Inr nodes \<Rightarrow> Inr (filter (\<lambda>n. nr_State n \<notin> set excludeStates
                             \<and> nr_LastHeartbeat n < olderThan) nodes))"

text \<open>The left join of reservations with sandboxes, kept where no live sandbox matches.\<close>

definition Store_OrphanReservations :: "bool \<Rightarrow> db \<Rightarrow> store_error + string list" where
  "Store_OrphanReservations fault d =
     (if fault then Inl ErrDatabase
      else Inr (map row_sandbox_id
             (filter (\<lambda>r. case map_of (db_sandboxes d) (row_sandbox_id r) of
                            None \<Rightarrow> True | Some st \<Rightarrow> IsTerminal st) (db_reservations d))))"

text \<open>The sandboxes table as the API writes it (\<^verbatim>\<open>PutSandbox\<close>, \<^verbatim>\<open>DeleteSandbox\<close>).\<close>

definition Store_PutSandbox :: "bool \<Rightarrow> string \<Rightarrow> string \<Rightarrow> db \<Rightarrow> (store_error + unit) \<times> db" where
  "Store_PutSandbox fault sid st d =
     (if fault then (Inl ErrDatabase, d)
      else (Inr (), d\<lparr>db_sandboxes := AList.update sid st (db_sandboxes d)\<rparr>))"

definition Store_DeleteSandbox :: "bool \<Rightarrow> string \<Rightarrow> db \<Rightarrow> (store_error + unit) \<times> db" where
  "Store_DeleteSandbox fault sid d =
     (if fault then (Inl ErrDatabase, d)
      else (Inr (), d\<lparr>db_sandboxes := delete_where (\<lambda>r. fst r = sid) (db_sandboxes d)\<rparr>))"

section \<open>The ledger is exact\<close>

text \<open>
  What a node has promised is the sum of the reservations placed on it, column by column,
  and every reservation points at a registered node.
\<close>

definition node_balanced :: "reservation_row list \<Rightarrow> NodeRecord \<Rightarrow> bool" where
  "node_balanced rows n \<longleftrightarrow>
     nr_CPUCommitted n = column_sum row_cpu (\<lambda>r. row_node_id r = nr_ID n) rows
   \<and> nr_MemoryCommitMiB n = column_sum row_mem_mib (\<lambda>r. row_node_id r = nr_ID n) rows
   \<and> nr_DiskCommitMiB n = column_sum row_disk_mib (\<lambda>r. row_node_id r = nr_ID n) rows
   \<and> nr_GPUCommitted n = column_sum row_gpu (\<lambda>r. row_node_id r = nr_ID n) rows"

definition row_nonneg :: "reservation_row \<Rightarrow> bool" where
  "row_nonneg r \<longleftrightarrow> 0 \<le> row_cpu r \<and> 0 \<le> row_mem_mib r \<and> 0 \<le> row_disk_mib r \<and> 0 \<le> row_gpu r"

definition ledger_inv :: "db \<Rightarrow> bool" where
  "ledger_inv d \<longleftrightarrow> distinct (map nr_ID (db_nodes d))
   \<and> distinct (map row_sandbox_id (db_reservations d))
   \<and> (\<forall>r \<in> set (db_reservations d). row_nonneg r \<and> row_node_id r \<in> nr_ID ` set (db_nodes d))
   \<and> (\<forall>n \<in> set (db_nodes d). node_balanced (db_reservations d) n)"

text \<open>A claim with non-negative amounts for a sandbox that holds no reservation yet.\<close>

definition fresh_claim :: "Reservation \<Rightarrow> db \<Rightarrow> bool" where
  "fresh_claim res d \<longleftrightarrow> 0 \<le> res_CPU res \<and> 0 \<le> res_MemoryMiB res \<and> 0 \<le> res_DiskMiB res
     \<and> 0 \<le> res_GPU res \<and> res_SandboxID res \<notin> row_sandbox_id ` set (db_reservations d)"

text \<open>Updates that leave a row's identity and commitments alone keep it balanced.\<close>

definition keeps_commitment :: "(NodeRecord \<Rightarrow> NodeRecord) \<Rightarrow> bool" where
  "keeps_commitment f \<longleftrightarrow> (\<forall>n. nr_ID (f n) = nr_ID n \<and> nr_CPUCommitted (f n) = nr_CPUCommitted n
     \<and> nr_MemoryCommitMiB (f n) = nr_MemoryCommitMiB n
     \<and> nr_DiskCommitMiB (f n) = nr_DiskCommitMiB n \<and> nr_GPUCommitted (f n) = nr_GPUCommitted n)"

lemma ledger_inv_update:
  assumes "keeps_commitment f" "ledger_inv d"
  shows "ledger_inv (d\<lparr>db_nodes := update_where p f (db_nodes d)\<rparr>)"
proof -
  have ids: "map nr_ID (update_where p f (db_nodes d)) = map nr_ID (db_nodes d)"
    using assms(1) by (intro map_key_update_where) (simp add: keeps_commitment_def)
  then have "nr_ID ` set (update_where p f (db_nodes d)) = nr_ID ` set (db_nodes d)"
    by (metis list.set_map)
  with assms ids show ?thesis
    by (auto simp: ledger_inv_def set_update_where node_balanced_def keeps_commitment_def)
qed

lemma balanced_other_node:
  assumes "row_node_id r \<noteq> nr_ID n"
  shows "node_balanced (rows @ [r]) n = node_balanced rows n"
  using assms by (simp add: node_balanced_def)

lemma ledger_inv_Upsert:
  assumes inv: "ledger_inv d"
  shows "ledger_inv (snd (Store_UpsertNode fault n d))"
proof -
  let ?n = "default_max_creates n"
  have id: "nr_ID ?n = nr_ID n" by (simp add: default_max_creates_def)
  consider "fault" | "\<not> fault" "\<exists>o' \<in> set (db_nodes d). nr_ID o' = nr_ID n"
    | "\<not> fault" "nr_ID n \<notin> nr_ID ` set (db_nodes d)" by (metis imageE)
  then show ?thesis
  proof cases
    case 1
    with inv show ?thesis by (simp add: Store_UpsertNode_def)
  next
    case 2
    with inv id show ?thesis
      by (auto simp: Store_UpsertNode_def Let_def keeps_commitment_def excluded_set_def
          intro!: ledger_inv_update)
  next
    case 3
    then have no: "\<forall>r \<in> set (db_reservations d). row_node_id r \<noteq> nr_ID n"
      using inv unfolding ledger_inv_def by metis
    then have zero: "column_sum f (\<lambda>r. row_node_id r = nr_ID n) (db_reservations d) = 0"
      for f :: "reservation_row \<Rightarrow> 'a::comm_monoid_add"
      by (simp add: column_sum_def filter_False)
    have "node_balanced (db_reservations d) (fresh_node_row ?n)"
      by (simp add: node_balanced_def fresh_node_row_def id zero)
    moreover have "nr_ID (fresh_node_row ?n) = nr_ID n" by (simp add: fresh_node_row_def id)
    moreover have "\<not> (\<exists>o' \<in> set (db_nodes d). nr_ID o' = nr_ID n)" using 3 by (metis imageI)
    ultimately show ?thesis
      using inv 3 by (auto simp: Store_UpsertNode_def Let_def ledger_inv_def id)
  qed
qed

lemma ledger_inv_Reserve:
  assumes inv: "ledger_inv d" and fresh: "fresh_claim res d"
  shows "ledger_inv (snd (Store_Reserve fault now nid res d))"
proof (cases "fault \<or> rows_affected (\<lambda>n. nr_ID n = nid \<and> node_fits n res) (db_nodes d) = 0")
  case True
  with inv show ?thesis by (auto simp: Store_Reserve_def Let_def)
next
  case False
  let ?hit = "\<lambda>n. nr_ID n = nid \<and> node_fits n res"
  let ?row = "reservation_row_of nid res now"
  let ?nodes = "update_where ?hit (commit_node res) (db_nodes d)"
  from False obtain m where m: "m \<in> set (db_nodes d)" "nr_ID m = nid" "node_fits m res"
    by (auto simp: rows_affected_0)
  have rows: "insert_reservation ?row (db_reservations d) = db_reservations d @ [?row]"
    using fresh by (auto simp: insert_reservation_def fresh_claim_def reservation_row_of_def
        image_iff)
  have ids: "map nr_ID ?nodes = map nr_ID (db_nodes d)"
    by (rule map_key_update_where) (simp add: commit_node_def)
  then have idset: "nr_ID ` set ?nodes = nr_ID ` set (db_nodes d)" by (metis list.set_map)
  have only: "n = m" if "n \<in> set (db_nodes d)" "nr_ID n = nid" for n
    using that m inv by (auto simp: ledger_inv_def distinct_map dest: inj_onD)
  have "node_balanced (db_reservations d @ [?row]) n'" if n': "n' \<in> set ?nodes" for n'
  proof -
    from n' obtain n where n: "n \<in> set (db_nodes d)"
      "n' = (if ?hit n then commit_node res n else n)" by (auto simp: set_update_where)
    have bal: "node_balanced (db_reservations d) n" using n inv by (simp add: ledger_inv_def)
    show ?thesis
    proof (cases "nr_ID n = nid")
      case True
      with n m only have "n' = commit_node res n" by metis
      with bal True show ?thesis
        by (simp add: node_balanced_def commit_node_def reservation_row_of_def)
    next
      case False
      with n bal show ?thesis by (simp add: balanced_other_node reservation_row_of_def)
    qed
  qed
  moreover have "row_nonneg ?row" using fresh
    by (simp add: row_nonneg_def reservation_row_of_def fresh_claim_def)
  moreover have "row_node_id ?row \<in> nr_ID ` set (db_nodes d)"
    using m by (auto simp: reservation_row_of_def)
  moreover have "row_sandbox_id ?row \<notin> row_sandbox_id ` set (db_reservations d)"
    using fresh by (simp add: fresh_claim_def reservation_row_of_def)
  ultimately show ?thesis
    using inv False
    by (auto simp: Store_Reserve_def Let_def ledger_inv_def rows ids idset)
qed

lemma find_row:
  assumes "find (\<lambda>r. row_sandbox_id r = sid) rows = Some r"
  shows "r \<in> set rows" "row_sandbox_id r = sid"
  using assms by (auto simp: find_Some_iff)

text \<open>Under an exact ledger no clamp fires: a release subtracts exactly the row's amounts.\<close>

lemma clamp_sub_ge: "b \<le> a \<Longrightarrow> clamp_sub a b = a - b"
  by (simp add: clamp_sub_def)

lemma balanced_ge_row:
  assumes "ledger_inv d" "r \<in> set (db_reservations d)" "n \<in> set (db_nodes d)"
    "row_node_id r = nr_ID n"
  shows "row_cpu r \<le> nr_CPUCommitted n" "row_mem_mib r \<le> nr_MemoryCommitMiB n"
    "row_disk_mib r \<le> nr_DiskCommitMiB n" "row_gpu r \<le> nr_GPUCommitted n"
  using assms
  by (auto simp: ledger_inv_def node_balanced_def row_nonneg_def intro!: column_sum_ge_member)

lemma ledger_inv_Release:
  assumes inv: "ledger_inv d"
  shows "ledger_inv (snd (Store_Release fault sid d))"
proof (cases "fault \<or> find (\<lambda>r. row_sandbox_id r = sid) (db_reservations d) = None")
  case True
  with inv show ?thesis by (auto simp: Store_Release_def split: option.split)
next
  case False
  then obtain r where r: "find (\<lambda>r. row_sandbox_id r = sid) (db_reservations d) = Some r"
    and nf: "\<not> fault" by auto
  note rr = find_row [OF r]
  let ?rows = "delete_where (\<lambda>q. row_sandbox_id q = sid) (db_reservations d)"
  let ?nodes = "update_where (\<lambda>n. nr_ID n = row_node_id r) (release_node r) (db_nodes d)"
  have ids: "map nr_ID ?nodes = map nr_ID (db_nodes d)"
    by (rule map_key_update_where) (simp add: release_node_def)
  then have idset: "nr_ID ` set ?nodes = nr_ID ` set (db_nodes d)" by (metis list.set_map)
  have dist: "distinct (map row_sandbox_id (db_reservations d))"
    using inv by (simp add: ledger_inv_def)
  have sum: "column_sum f p ?rows = column_sum f p (db_reservations d) - (if p r then f r else 0)"
    for f :: "reservation_row \<Rightarrow> 'a::ab_group_add" and p
    using column_sum_delete_key [OF dist rr(1), of f p] rr(2) by simp
  have "node_balanced ?rows n'" if n': "n' \<in> set ?nodes" for n'
  proof -
    from n' obtain n where n: "n \<in> set (db_nodes d)"
      "n' = (if nr_ID n = row_node_id r then release_node r n else n)"
      by (auto simp: set_update_where)
    have bal: "node_balanced (db_reservations d) n" using n inv by (simp add: ledger_inv_def)
    show ?thesis
    proof (cases "row_node_id r = nr_ID n")
      case True
      note ge = balanced_ge_row [OF inv rr(1) n(1) True]
      from True n bal show ?thesis
        by (simp add: node_balanced_def release_node_def clamp_sub_ge [OF ge(1)]
            clamp_sub_ge [OF ge(2)] clamp_sub_ge [OF ge(3)] clamp_sub_ge [OF ge(4)] sum)
    next
      case False
      with n bal show ?thesis by (auto simp: node_balanced_def sum)
    qed
  qed
  then show ?thesis
    using inv nf r distinct_map_delete_where [OF dist]
    by (auto simp: Store_Release_def ledger_inv_def ids idset set_delete_where)
qed

lemma ledger_inv_sandboxes [simp]: "ledger_inv (d\<lparr>db_sandboxes := t\<rparr>) = ledger_inv d"
  by (simp add: ledger_inv_def)

text \<open>The remaining methods write neither an identity nor a commitment.\<close>

lemma ledger_inv_frame:
  assumes "ledger_inv d"
  shows "ledger_inv (snd (Store_FinishCreate fault nid d))"
    "ledger_inv (snd (Store_SetNodeState fault nid st d))"
    "ledger_inv (snd (Store_PutNodeImages fault nid images d))"
    "ledger_inv (snd (Store_RenewLease fault now nid d))"
    "ledger_inv (snd (Store_SetNodeUsage fault nid used cpuPct memPct d))"
    "ledger_inv (snd (Store_PutSandbox fault sid st d))"
    "ledger_inv (snd (Store_DeleteSandbox fault sid d))"
  using assms
  by (auto simp: Store_FinishCreate_def Store_SetNodeState_def Store_PutNodeImages_def
      Store_RenewLease_def Store_SetNodeUsage_def Store_PutSandbox_def Store_DeleteSandbox_def
      Let_def keeps_commitment_def intro!: ledger_inv_update)

lemmas ledger_inv_ops = ledger_inv_Upsert ledger_inv_Reserve ledger_inv_Release ledger_inv_frame

section \<open>Interleaved runs of the store's methods\<close>

text \<open>
  Every method is one statement or one transaction, so any number of gateway replicas acting
  on one database is a sequence of whole methods. A run is that sequence; \<open>ok\<close> says which
  operations a run may contain in which state.
\<close>

datatype db_op =
    Op_UpsertNode NodeRecord
  | Op_Reserve int string Reservation
  | Op_Release string
  | Op_FinishCreate string
  | Op_SetNodeState string string
  | Op_PutNodeImages string "(string, CachedImage) gomap"
  | Op_RenewLease int string
  | Op_SetNodeUsage string int rat rat
  | Op_PutSandbox string string
  | Op_DeleteSandbox string

fun run_op :: "bool \<Rightarrow> db_op \<Rightarrow> db \<Rightarrow> db" where
  "run_op fault (Op_UpsertNode n) d = snd (Store_UpsertNode fault n d)"
| "run_op fault (Op_Reserve now nid res) d = snd (Store_Reserve fault now nid res d)"
| "run_op fault (Op_Release sid) d = snd (Store_Release fault sid d)"
| "run_op fault (Op_FinishCreate nid) d = snd (Store_FinishCreate fault nid d)"
| "run_op fault (Op_SetNodeState nid st) d = snd (Store_SetNodeState fault nid st d)"
| "run_op fault (Op_PutNodeImages nid images) d = snd (Store_PutNodeImages fault nid images d)"
| "run_op fault (Op_RenewLease now nid) d = snd (Store_RenewLease fault now nid d)"
| "run_op fault (Op_SetNodeUsage nid used cpuPct memPct) d =
     snd (Store_SetNodeUsage fault nid used cpuPct memPct d)"
| "run_op fault (Op_PutSandbox sid st) d = snd (Store_PutSandbox fault sid st d)"
| "run_op fault (Op_DeleteSandbox sid) d = snd (Store_DeleteSandbox fault sid d)"

inductive db_run :: "(db_op \<Rightarrow> db \<Rightarrow> bool) \<Rightarrow> db \<Rightarrow> db_op list \<Rightarrow> db \<Rightarrow> bool" for ok where
  run_start: "db_run ok d [] d"
| run_step: "db_run ok d ops e \<Longrightarrow> ok op e \<Longrightarrow> db_run ok d (ops @ [op]) (run_op fault op e)"

text \<open>Sandbox ids are minted fresh for every create, so a claim is for a new sandbox.\<close>

fun claims_fresh :: "db_op \<Rightarrow> db \<Rightarrow> bool" where
  "claims_fresh (Op_Reserve now nid res) d = fresh_claim res d"
| "claims_fresh _ d = True"

text \<open>A registration that does not shrink a node below what it has already promised.\<close>

definition room_for :: "NodeRecord \<Rightarrow> NodeRecord \<Rightarrow> bool" where
  "room_for n old \<longleftrightarrow> nr_CPUCommitted old \<le> nr_CPUAllocatable n
     \<and> nr_MemoryCommitMiB old \<le> nr_MemoryAllocateMiB n
     \<and> nr_DiskCommitMiB old \<le> nr_DiskAllocateMiB n \<and> nr_GPUCommitted old \<le> nr_GPUCount n"

fun claims_fresh_no_shrink :: "db_op \<Rightarrow> db \<Rightarrow> bool" where
  "claims_fresh_no_shrink (Op_UpsertNode n) d =
     (room_for n (fresh_node_row n) \<and> (\<forall>old \<in> set (db_nodes d). nr_ID old = nr_ID n \<longrightarrow> room_for n old))"
| "claims_fresh_no_shrink op d = claims_fresh op d"

definition no_oversell :: "db \<Rightarrow> bool" where
  "no_oversell d \<longleftrightarrow> (\<forall>n \<in> set (db_nodes d). room_for n n)"

definition empty_db :: db where
  "empty_db = \<lparr>db_nodes = [], db_reservations = [], db_sandboxes = []\<rparr>"

lemma run_op_ledger_inv:
  assumes "ledger_inv d" "claims_fresh op d"
  shows "ledger_inv (run_op fault op d)"
  using assms by (cases op) (auto intro: ledger_inv_ops)

lemma db_run_ledger_inv:
  assumes "db_run claims_fresh d ops e" "ledger_inv d"
  shows "ledger_inv e"
  using assms by (induction rule: db_run.induct) (auto intro: run_op_ledger_inv)

lemma db_run_mono:
  assumes "db_run ok d ops e" "\<And>op e. ok op e \<Longrightarrow> ok' op e"
  shows "db_run ok' d ops e"
  using assms by (induction rule: db_run.induct) (auto intro: db_run.intros)

lemma no_shrink_imp_fresh: "claims_fresh_no_shrink op d \<Longrightarrow> claims_fresh op d"
  by (cases op) auto

lemma no_oversell_update:
  assumes "no_oversell d" "\<And>n. n \<in> set (db_nodes d) \<Longrightarrow> p n \<Longrightarrow> room_for (f n) (f n)"
  shows "no_oversell (d\<lparr>db_nodes := update_where p f (db_nodes d)\<rparr>)"
  using assms by (auto simp: no_oversell_def set_update_where)

lemma no_oversell_fields:
  "no_oversell (d\<lparr>db_reservations := rows\<rparr>) = no_oversell d"
  "no_oversell (d\<lparr>db_sandboxes := t\<rparr>) = no_oversell d"
  by (simp_all add: no_oversell_def)

lemma no_oversell_Reserve:
  assumes "no_oversell d"
  shows "no_oversell (snd (Store_Reserve fault now nid res d))"
proof -
  have "room_for (commit_node res n) (commit_node res n)" if "node_fits n res" for n
    using that by (simp add: room_for_def commit_node_def node_fits_def)
  then have "no_oversell (d\<lparr>db_nodes := update_where (\<lambda>n. nr_ID n = nid \<and> node_fits n res)
      (commit_node res) (db_nodes d)\<rparr>)"
    using assms by (intro no_oversell_update) auto
  with assms show ?thesis
    by (simp add: Store_Reserve_def Let_def no_oversell_def)
qed

lemma no_oversell_Release:
  assumes "no_oversell d" "ledger_inv d"
  shows "no_oversell (snd (Store_Release fault sid d))"
proof (cases "fault \<or> find (\<lambda>r. row_sandbox_id r = sid) (db_reservations d) = None")
  case True
  with assms show ?thesis by (auto simp: Store_Release_def split: option.split)
next
  case False
  then obtain r where r: "find (\<lambda>r. row_sandbox_id r = sid) (db_reservations d) = Some r"
    and nf: "\<not> fault" by auto
  have nn: "row_nonneg r" using find_row(1) [OF r] assms(2) by (simp add: ledger_inv_def)
  have "room_for (release_node r n) (release_node r n)"
    if n: "n \<in> set (db_nodes d)" "nr_ID n = row_node_id r" for n
  proof -
    have "room_for n n" using n assms(1) by (simp add: no_oversell_def)
    moreover note balanced_ge_row [OF assms(2) find_row(1) [OF r] n(1) n(2) [symmetric]]
    ultimately show ?thesis using nn
      by (simp add: room_for_def release_node_def clamp_sub_ge row_nonneg_def)
  qed
  with assms(1) nf r show ?thesis
    by (auto simp: Store_Release_def no_oversell_def set_update_where)
qed

lemma run_op_no_oversell:
  assumes "ledger_inv d" "no_oversell d" "claims_fresh_no_shrink op d"
  shows "no_oversell (run_op fault op d)"
proof (cases op)
  case (Op_UpsertNode n)
  with assms show ?thesis
    by (auto simp: Store_UpsertNode_def Let_def no_oversell_def set_update_where room_for_def
        excluded_set_def fresh_node_row_def default_max_creates_def)
next
  case (Op_Reserve now nid res)
  with assms show ?thesis by (simp add: no_oversell_Reserve)
next
  case (Op_Release sid)
  with assms show ?thesis by (simp add: no_oversell_Release)
qed (use assms in \<open>auto simp: Store_FinishCreate_def Store_SetNodeState_def
      Store_PutNodeImages_def Store_RenewLease_def Store_SetNodeUsage_def Store_PutSandbox_def
      Store_DeleteSandbox_def Let_def room_for_def no_oversell_fields no_oversell_def
      set_update_where split: if_splits\<close>)

section \<open>Properties\<close>

lemma ledger_inv_empty: "ledger_inv empty_db"
  by (simp add: ledger_inv_def empty_db_def)

text \<open>A registered node and a claim on it, for the concrete instances below.\<close>

definition example_node :: NodeRecord where
  "example_node = \<lparr>nr_ID = ''n1'', nr_Region = ''r'', nr_Labels = [], nr_Runtimes = [''fc''],
     nr_CPUAllocatable = 4, nr_MemoryAllocateMiB = 1024, nr_DiskAllocateMiB = 40960,
     nr_GPUCount = 0, nr_CPUCommitted = 0, nr_MemoryCommitMiB = 0, nr_DiskCommitMiB = 0,
     nr_GPUCommitted = 0, nr_DiskUsedMiB = 0, nr_CPUUsedPercent = 0, nr_MemUsedPercent = 0,
     nr_CreateInFlight = 0, nr_MaxCreates = 16, nr_CachedImages = [], nr_NVMeCache = False,
     nr_CPUVendor = [], nr_CPUFamily = 0, nr_CPUTemplate = [], nr_State = ''READY'',
     nr_AdvertiseAddr = [], nr_LastHeartbeat = 0\<rparr>"

definition example_claim :: Reservation where
  "example_claim = \<lparr>res_SandboxID = ''sbx1'', res_CPU = 1, res_MemoryMiB = 512,
     res_DiskMiB = 20480, res_GPU = 0, res_SpreadKey = []\<rparr>"

definition example_db :: db where
  "example_db = \<lparr>db_nodes = [example_node], db_reservations = [], db_sandboxes = []\<rparr>"

lemmas example_defs = example_node_def example_claim_def example_db_def

lemma example_run:
  "db_run claims_fresh_no_shrink empty_db [Op_UpsertNode example_node,
     Op_Reserve 0 ''n1'' example_claim]
     (run_op False (Op_Reserve 0 ''n1'' example_claim)
       (run_op False (Op_UpsertNode example_node) empty_db))"
proof -
  have "db_run claims_fresh_no_shrink empty_db ([] @ [Op_UpsertNode example_node])
      (run_op False (Op_UpsertNode example_node) empty_db)"
    by (rule run_step [OF run_start])
      (simp add: example_defs empty_db_def room_for_def fresh_node_row_def)
  then have "db_run claims_fresh_no_shrink empty_db
      (([] @ [Op_UpsertNode example_node]) @ [Op_Reserve 0 ''n1'' example_claim])
      (run_op False (Op_Reserve 0 ''n1'' example_claim)
        (run_op False (Op_UpsertNode example_node) empty_db))"
    by (rule run_step)
      (simp add: example_defs empty_db_def fresh_claim_def Store_UpsertNode_def Let_def)
  then show ?thesis by simp
qed

lemma example_reserve:
  "Store_Reserve False 0 ''n1'' example_claim example_db =
     (Inr (), \<lparr>db_nodes = [commit_node example_claim example_node],
        db_reservations = [reservation_row_of ''n1'' example_claim 0], db_sandboxes = []\<rparr>)"
  by (simp add: Store_Reserve_def Let_def example_defs rows_affected_def node_fits_def
      NodeReady_def update_where_def insert_reservation_def)

lemma example_db_inv: "ledger_inv example_db" "fresh_claim example_claim example_db"
  by (simp_all add: ledger_inv_def example_defs node_balanced_def fresh_claim_def)

lemma ledger_unique_node:
  assumes "ledger_inv d" "n \<in> set (db_nodes d)" "m \<in> set (db_nodes d)" "nr_ID n = nr_ID m"
  shows "n = m"
  using assms by (auto simp: ledger_inv_def distinct_map dest: inj_onD)

lemma ledger_committed_nonneg:
  assumes "ledger_inv d" "n \<in> set (db_nodes d)"
  shows "0 \<le> nr_CPUCommitted n" "0 \<le> nr_MemoryCommitMiB n" "0 \<le> nr_DiskCommitMiB n"
    "0 \<le> nr_GPUCommitted n"
  using assms
  by (auto simp: ledger_inv_def node_balanced_def row_nonneg_def intro!: column_sum_nonneg)

lemma Store_Reserve_ok:
  assumes "Store_Reserve fault now nid res d = (Inr (), e)"
  obtains m where "m \<in> set (db_nodes d)" "nr_ID m = nid" "node_fits m res"
    "e = d\<lparr>db_nodes := update_where (\<lambda>n. nr_ID n = nid \<and> node_fits n res) (commit_node res) (db_nodes d),
       db_reservations := insert_reservation (reservation_row_of nid res now) (db_reservations d)\<rparr>"
  using assms by (auto simp: Store_Reserve_def Let_def rows_affected_0 split: if_splits)





lemma release_commit:
  assumes "0 \<le> nr_CPUCommitted m" "0 \<le> nr_MemoryCommitMiB m" "0 \<le> nr_DiskCommitMiB m"
    "0 \<le> nr_GPUCommitted m"
  shows "release_node (reservation_row_of nid res now) (commit_node res m) =
     m\<lparr>nr_CreateInFlight := nr_CreateInFlight m + 1\<rparr>"
  using assms by (simp add: release_node_def commit_node_def reservation_row_of_def clamp_sub_def)



text \<open>What a second claim for a sandbox that already holds a reservation does to the ledger.\<close>

lemma Store_Release_found:
  assumes "find (\<lambda>r. row_sandbox_id r = sid) (db_reservations d) = Some r"
  shows "Store_Release False sid d = (Inr (), d\<lparr>db_nodes :=
      update_where (\<lambda>n. nr_ID n = row_node_id r) (release_node r) (db_nodes d),
      db_reservations := delete_where (\<lambda>q. row_sandbox_id q = sid) (db_reservations d)\<rparr>)"
  using assms by (simp add: Store_Release_def)

lemma member_update_where: "x \<in> set xs \<Longrightarrow> (if p x then f x else x) \<in> set (update_where p f xs)"
  by (auto simp: set_update_where)

text \<open>
  C36. Reserving twice for one sandbox leaks capacity for good. The reservations row is only
  inserted if none exists, but the node's commitment is raised either way, so after the sandbox
  is released some node still promises more than its reservations account for.
\<close>
theorem reserve_twice_leaks:
  assumes inv: "ledger_inv d"
    and held: "r \<in> set (db_reservations d)" "row_sandbox_id r = res_SandboxID res"
    and pos: "0 < res_CPU res"
    and again: "Store_Reserve False now nid res d = (Inr (), e)"
  shows "\<exists>n \<in> set (db_nodes (snd (Store_Release False (res_SandboxID res) e))).
    nr_CPUCommitted n = column_sum row_cpu (\<lambda>q. row_node_id q = nr_ID n)
       (db_reservations (snd (Store_Release False (res_SandboxID res) e))) + res_CPU res"
proof -
  let ?sid = "res_SandboxID res"
  let ?hit = "\<lambda>n. nr_ID n = nid \<and> node_fits n res"
  from again obtain m where m: "m \<in> set (db_nodes d)" "nr_ID m = nid" "node_fits m res"
    and e0: "e = d\<lparr>db_nodes := update_where ?hit (commit_node res) (db_nodes d),
        db_reservations := insert_reservation (reservation_row_of nid res now) (db_reservations d)\<rparr>"
    by (rule Store_Reserve_ok)
  have "insert_reservation (reservation_row_of nid res now) (db_reservations d) = db_reservations d"
    using held by (auto simp: insert_reservation_def reservation_row_of_def)
  then have e: "db_nodes e = update_where ?hit (commit_node res) (db_nodes d)"
    "db_reservations e = db_reservations d" by (simp_all add: e0)
  have dis: "distinct (map row_sandbox_id (db_reservations d))"
    and bal: "nr_CPUCommitted m = column_sum row_cpu (\<lambda>q. row_node_id q = nid) (db_reservations d)"
    and rnn: "\<forall>q \<in> set (db_reservations d). 0 \<le> row_cpu q"
    using inv m by (auto simp: ledger_inv_def node_balanced_def row_nonneg_def)
  have find: "find (\<lambda>q. row_sandbox_id q = ?sid) (db_reservations e) = Some r"
    using find_unique_key [OF dis held(1)] held(2) e by simp
  let ?g = "snd (Store_Release False ?sid e)"
  let ?n = "if nid = row_node_id r then release_node r (commit_node res m) else commit_node res m"
  have id: "nr_ID (commit_node res m) = nid" "nr_ID ?n = nid"
    using m(2) by (auto simp: commit_node_def release_node_def)
  have "commit_node res m \<in> set (db_nodes e)"
    using member_update_where [OF m(1), of ?hit "commit_node res"] m(2,3) e by simp
  from member_update_where [OF this, of "\<lambda>n. nr_ID n = row_node_id r" "release_node r"]
  have mem: "?n \<in> set (db_nodes ?g)"
    by (simp add: Store_Release_found [OF find] id)
  have del: "column_sum row_cpu (\<lambda>q. row_node_id q = nid) (db_reservations ?g) =
      column_sum row_cpu (\<lambda>q. row_node_id q = nid) (db_reservations d)
        - (if row_node_id r = nid then row_cpu r else 0)"
    using column_sum_delete_key [OF dis held(1), of row_cpu "\<lambda>q. row_node_id q = nid"] held(2) e
    by (simp add: Store_Release_found [OF find])
  have ge: "row_cpu r \<le> nr_CPUCommitted m" if "row_node_id r = nid"
    using column_sum_ge_member [of "db_reservations d" row_cpu r "\<lambda>q. row_node_id q = nid"]
      rnn held(1) that bal by simp
  have "nr_CPUCommitted ?n = nr_CPUCommitted m + res_CPU res
      - (if row_node_id r = nid then row_cpu r else 0)"
    using ge pos by (auto simp: release_node_def commit_node_def clamp_sub_def)
  with mem id del bal show ?thesis by (intro bexI [of _ ?n]) auto
qed

definition example_db2 :: db where
  "example_db2 = snd (Store_Reserve False 0 ''n1'' example_claim example_db)"

lemma example_db2:
  "ledger_inv example_db2"
  "Store_Reserve False 0 ''n1'' example_claim example_db2 =
     (Inr (), \<lparr>db_nodes = [commit_node example_claim (commit_node example_claim example_node)],
        db_reservations = [reservation_row_of ''n1'' example_claim 0], db_sandboxes = []\<rparr>)"
proof -
  show "ledger_inv example_db2"
    using ledger_inv_Reserve [OF example_db_inv, of False 0 "''n1''"] by (simp add: example_db2_def)
  show "Store_Reserve False 0 ''n1'' example_claim example_db2 =
     (Inr (), \<lparr>db_nodes = [commit_node example_claim (commit_node example_claim example_node)],
        db_reservations = [reservation_row_of ''n1'' example_claim 0], db_sandboxes = []\<rparr>)"
    unfolding example_db2_def example_reserve
    by (simp add: Store_Reserve_def Let_def rows_affected_def update_where_def node_fits_def
        insert_reservation_def commit_node_def reservation_row_of_def example_defs NodeReady_def)
qed

theorem reserve_twice_leaks_witness:
  "\<exists>n \<in> set (db_nodes (snd (Store_Release False ''sbx1''
      (snd (Store_Reserve False 0 ''n1'' example_claim example_db2))))).
    nr_CPUCommitted n = column_sum row_cpu (\<lambda>q. row_node_id q = nr_ID n)
       (db_reservations (snd (Store_Release False ''sbx1''
          (snd (Store_Reserve False 0 ''n1'' example_claim example_db2))))) + 1"
proof -
  have "reservation_row_of ''n1'' example_claim 0 \<in> set (db_reservations example_db2)"
    by (simp add: example_db2_def example_reserve)
  from reserve_twice_leaks [OF example_db2(1) this _ _ example_db2(2)]
  show ?thesis
    unfolding example_db2(2) by (simp add: reservation_row_of_def example_claim_def)
qed

end
