(* ===== verification/Scheduler.thy ===== *)
theory Scheduler
  imports Placement
begin

text \<open>
  The scheduler of the control plane (\<^verbatim>\<open>src/internal/control/scheduler\<close>): filtering and
  scoring of nodes, the optimistic reserve loop against the store, waiting for capacity, the
  liveness sweep and the reclaim of orphaned reservations. The scheduler only sees the store
  through the interface record \<open>store_iface\<close>, whose operations pass the state of the store
  explicitly. Errors are values that carry the arguments of the message the code formats.
  Scores are exact rationals.
\<close>

section \<open>The store the scheduler sees\<close>

record 's store_iface =
  if_Reserve :: "string \<Rightarrow> Reservation \<Rightarrow> 's \<Rightarrow> (store_error + unit) \<times> 's"
  if_Release :: "string \<Rightarrow> 's \<Rightarrow> (store_error + unit) \<times> 's"
  if_FinishCreate :: "string \<Rightarrow> 's \<Rightarrow> (store_error + unit) \<times> 's"
  if_OrphanReservations :: "'s \<Rightarrow> (store_error + string list) \<times> 's"
  if_SpreadCounts :: "string \<Rightarrow> 's \<Rightarrow> (store_error + (string, int) gomap) \<times> 's"
  if_GetNode :: "string \<Rightarrow> 's \<Rightarrow> (store_error + NodeRecord option) \<times> 's"
  if_LoadNodes :: "'s \<Rightarrow> (store_error + NodeRecord list) \<times> 's"
  if_SetNodeState :: "string \<Rightarrow> string \<Rightarrow> 's \<Rightarrow> (store_error + bool) \<times> 's"
  if_StaleNodes :: "int \<Rightarrow> string list \<Rightarrow> 's \<Rightarrow> (store_error + NodeRecord list) \<times> 's"

section \<open>CPU compatibility of snapshots\<close>

record CPUConstraint =
  Vendor :: string
  Family :: int
  Template :: string

datatype cpu_error =
    NoCPUVendor string
  | VendorMismatch string string
  | FamilyMismatch string int int

definition Constrained :: "CPUConstraint \<Rightarrow> bool" where
  "Constrained c \<longleftrightarrow> Vendor c \<noteq> ''''"

definition CheckCPU :: "CPUConstraint \<Rightarrow> string \<Rightarrow> int \<Rightarrow> cpu_error option" where
  "CheckCPU c nodeVendor nodeFamily =
     (if \<not> Constrained c then None
      else if nodeVendor = '''' then Some (NoCPUVendor (Vendor c))
      else if nodeVendor \<noteq> Vendor c then Some (VendorMismatch (Vendor c) nodeVendor)
      else if Family c \<noteq> 0 \<and> nodeFamily \<noteq> 0 \<and> Family c \<noteq> nodeFamily
      then Some (FamilyMismatch (Vendor c) (Family c) nodeFamily)
      else None)"

definition RequiresSameModel :: "CPUConstraint \<Rightarrow> bool" where
  "RequiresSameModel c \<longleftrightarrow> Constrained c \<and> Template c \<noteq> ''portable''"

section \<open>Requests and feasibility\<close>

record Request =
  rq_SandboxID :: string
  rq_Region :: string
  rq_Image :: string
  rq_CPU :: rat
  rq_MemoryMiB :: int
  rq_DiskMiB :: int
  rq_GPU :: int
  rq_Runtime :: string
  rq_NodeSelector :: "(string, string) gomap"
  rq_SpreadKey :: string
  rq_CPUConstraint :: CPUConstraint

record Weights =
  ImageAffinity :: rat
  WarmSnapshot :: rat
  CreatePressure :: rat
  Packing :: rat
  NVMeCache :: rat
  Spread :: rat
  Load :: rat

definition DefaultWeights :: Weights where
  "DefaultWeights = \<lparr>ImageAffinity = 10, WarmSnapshot = 15, CreatePressure = 12, Packing = 3,
     NVMeCache = 2, Spread = 4, Load = 6\<rparr>"

record Scheduler =
  weights :: Weights
  suspectAfter :: int
  lostAfter :: int
  maxAttempts :: nat

definition Scheduler_New :: "Weights \<Rightarrow> Scheduler" where
  "Scheduler_New w = \<lparr>weights = w, suspectAfter = 15000, lostAfter = 45000, maxAttempts = 5\<rparr>"

definition hasRuntime :: "string list \<Rightarrow> string \<Rightarrow> bool" where
  "hasRuntime have want \<longleftrightarrow> list_ex (\<lambda>r. EqualFold r want) have"

definition labelsMatch :: "(string, string) gomap \<Rightarrow> (string, string) gomap \<Rightarrow> bool" where
  "labelsMatch have want \<longleftrightarrow> list_all (\<lambda>(k, v). go_get '''' have k = v) want"

definition feasible :: "NodeRecord \<Rightarrow> Request \<Rightarrow> bool" where
  "feasible n req =
     (if nr_State n \<noteq> NodeReady \<or> nr_Region n \<noteq> rq_Region req then False
      else if rq_Runtime req \<noteq> '''' \<and> \<not> hasRuntime (nr_Runtimes n) (rq_Runtime req) then False
      else if \<not> labelsMatch (nr_Labels n) (rq_NodeSelector req) then False
      else if CheckCPU (rq_CPUConstraint req) (nr_CPUVendor n) (nr_CPUFamily n) \<noteq> None then False
      else nr_CPUCommitted n + rq_CPU req \<le> nr_CPUAllocatable n
         \<and> nr_MemoryCommitMiB n + rq_MemoryMiB req \<le> nr_MemoryAllocateMiB n
         \<and> nr_DiskCommitMiB n + rq_DiskMiB req \<le> nr_DiskAllocateMiB n
         \<and> nr_GPUCommitted n + rq_GPU req \<le> nr_GPUCount n)"

fun cpuRejection_loop :: "NodeRecord list \<Rightarrow> Request \<Rightarrow> Request \<Rightarrow> cpu_error option" where
  "cpuRejection_loop [] req probe = None"
| "cpuRejection_loop (n # nodes) req probe =
     (if \<not> feasible n probe then cpuRejection_loop nodes req probe
      else case CheckCPU (rq_CPUConstraint req) (nr_CPUVendor n) (nr_CPUFamily n) of
          Some e \<Rightarrow> Some e
        | None \<Rightarrow> cpuRejection_loop nodes req probe)"

definition cpuRejection :: "NodeRecord list \<Rightarrow> Request \<Rightarrow> cpu_error option" where
  "cpuRejection nodes req =
     (if \<not> Constrained (rq_CPUConstraint req) then None
      else cpuRejection_loop nodes req
        (req\<lparr>rq_CPUConstraint := \<lparr>Vendor = '''', Family = 0, Template = ''''\<rparr>\<rparr>))"

section \<open>Score and rank\<close>

text \<open>The terms of \<^verbatim>\<open>score\<close>, in the order the code accumulates them.\<close>

definition image_term :: "Weights \<Rightarrow> NodeRecord \<Rightarrow> Request \<Rightarrow> rat" where
  "image_term w n req =
     (case map_of (nr_CachedImages n) (rq_Image req) of
        Some img \<Rightarrow> if SizeBytes img > 0
                    then ImageAffinity w + (if Warm img then WarmSnapshot w else 0) else 0
      | None \<Rightarrow> 0)"

definition pressure_term :: "Weights \<Rightarrow> NodeRecord \<Rightarrow> rat" where
  "pressure_term w n =
     (if nr_MaxCreates n > 0 \<and> nr_CreateInFlight n > 0
      then let load = of_int (nr_CreateInFlight n) / of_int (nr_MaxCreates n);
               load = (if load > 1 then 1 else load)
           in CreatePressure w * load
      else 0)"

definition packing_term :: "Weights \<Rightarrow> NodeRecord \<Rightarrow> Request \<Rightarrow> rat" where
  "packing_term w n req =
     (let cpuFrac = (if nr_CPUAllocatable n > 0
                     then (nr_CPUCommitted n + rq_CPU req) / nr_CPUAllocatable n else 0);
          memFrac = (if nr_MemoryAllocateMiB n > 0
                     then of_int (nr_MemoryCommitMiB n + rq_MemoryMiB req)
                          / of_int (nr_MemoryAllocateMiB n) else 0)
      in Packing w * (cpuFrac + memFrac) / 2)"

definition load_term :: "Weights \<Rightarrow> NodeRecord \<Rightarrow> rat" where
  "load_term w n =
     (if nr_MemUsedPercent n > nr_CPUUsedPercent n then Load w * nr_MemUsedPercent n / 100
      else Load w * nr_CPUUsedPercent n / 100)"

definition nvme_term :: "Weights \<Rightarrow> NodeRecord \<Rightarrow> Request \<Rightarrow> rat" where
  "nvme_term w n req =
     (if nr_NVMeCache n \<and> map_of (nr_CachedImages n) (rq_Image req) = None then NVMeCache w else 0)"

definition spread_term :: "Weights \<Rightarrow> NodeRecord \<Rightarrow> (string, int) gomap \<Rightarrow> Request \<Rightarrow> rat" where
  "spread_term w n spread req =
     (if rq_SpreadKey req \<noteq> '''' \<and> go_get 0 spread (nr_ID n) > 0
      then Spread w * of_int (go_get 0 spread (nr_ID n)) else 0)"

definition score :: "Weights \<Rightarrow> NodeRecord \<Rightarrow> (string, int) gomap \<Rightarrow> Request \<Rightarrow> rat" where
  "score w n spread req =
     0 + image_term w n req - pressure_term w n + packing_term w n req - load_term w n
       + nvme_term w n req - spread_term w n spread req"

type_synonym candidate = "NodeRecord \<times> rat"

definition candidate_less :: "candidate \<Rightarrow> candidate \<Rightarrow> bool" where
  "candidate_less a b =
     (if snd a \<noteq> snd b then snd a > snd b else nr_ID (fst a) < nr_ID (fst b))"

definition rank :: "Weights \<Rightarrow> NodeRecord list \<Rightarrow> (string, int) gomap \<Rightarrow> Request \<Rightarrow> NodeRecord list" where
  "rank w nodes spread req =
     map fst (sort_slice candidate_less
       (map (\<lambda>n. (n, score w n spread req)) (filter (\<lambda>n. feasible n req) nodes)))"

section \<open>Why nothing fits\<close>

text \<open>Constraints are the strings of the code, because the report breaks ties by their text.\<close>

type_synonym constraint = string

definition constraintCPU :: constraint where "constraintCPU = ''cpu''"
definition constraintMemory :: constraint where "constraintMemory = ''memory''"
definition constraintDisk :: constraint where "constraintDisk = ''disk''"
definition constraintGPU :: constraint where "constraintGPU = ''gpu''"
definition constraintRuntime :: constraint where "constraintRuntime = ''runtime''"
definition constraintLabels :: constraint where "constraintLabels = ''nodeSelector''"
definition constraintNodeState :: constraint where "constraintNodeState = ''nodeState''"
definition constraintCPUCompat :: constraint where "constraintCPUCompat = ''cpuCompatibility''"

lemmas constraint_defs = constraintCPU_def constraintMemory_def constraintDisk_def
  constraintGPU_def constraintRuntime_def constraintLabels_def constraintNodeState_def
  constraintCPUCompat_def

definition blockers :: "NodeRecord \<Rightarrow> Request \<Rightarrow> constraint list" where
  "blockers n req =
     (if nr_State n \<noteq> NodeReady then [constraintNodeState] else [])
   @ (if rq_Runtime req \<noteq> '''' \<and> \<not> hasRuntime (nr_Runtimes n) (rq_Runtime req)
      then [constraintRuntime] else [])
   @ (if \<not> labelsMatch (nr_Labels n) (rq_NodeSelector req) then [constraintLabels] else [])
   @ (if CheckCPU (rq_CPUConstraint req) (nr_CPUVendor n) (nr_CPUFamily n) \<noteq> None
      then [constraintCPUCompat] else [])
   @ (if nr_CPUCommitted n + rq_CPU req > nr_CPUAllocatable n then [constraintCPU] else [])
   @ (if nr_MemoryCommitMiB n + rq_MemoryMiB req > nr_MemoryAllocateMiB n
      then [constraintMemory] else [])
   @ (if nr_DiskCommitMiB n + rq_DiskMiB req > nr_DiskAllocateMiB n then [constraintDisk] else [])
   @ (if nr_GPUCommitted n + rq_GPU req > nr_GPUCount n then [constraintGPU] else [])"

text \<open>Go's conversion of a float to an integer drops the fraction.\<close>

definition truncate_int :: "rat \<Rightarrow> int" where
  "truncate_int x = (if x \<ge> 0 then \<lfloor>x\<rfloor> else \<lceil>x\<rceil>)"

type_synonym tally = "(constraint, int) gomap \<times> (constraint, int) gomap \<times> int"

definition count_one :: "constraint \<Rightarrow> (constraint, int) gomap \<Rightarrow> (constraint, int) gomap" where
  "count_one r counts = AList.update r (go_get 0 counts r + 1) counts"

definition record_short :: "constraint \<Rightarrow> int \<Rightarrow> (constraint, int) gomap \<Rightarrow> (constraint, int) gomap" where
  "record_short r need short =
     (case map_of short r of
        None \<Rightarrow> AList.update r need short
      | Some have \<Rightarrow> if need < have then AList.update r need short else short)"

definition shortfall_of :: "NodeRecord \<Rightarrow> Request \<Rightarrow> constraint \<Rightarrow> int option" where
  "shortfall_of n req r =
     (if r = constraintCPU
      then Some (truncate_int (nr_CPUCommitted n + rq_CPU req - nr_CPUAllocatable n + 999 / 1000))
      else if r = constraintMemory
      then Some (nr_MemoryCommitMiB n + rq_MemoryMiB req - nr_MemoryAllocateMiB n)
      else if r = constraintDisk
      then Some (nr_DiskCommitMiB n + rq_DiskMiB req - nr_DiskAllocateMiB n)
      else None)"

definition record_reason ::
  "NodeRecord \<Rightarrow> Request \<Rightarrow> constraint \<Rightarrow> (constraint, int) gomap \<Rightarrow> (constraint, int) gomap" where
  "record_reason n req r short =
     (case shortfall_of n req r of None \<Rightarrow> short | Some need \<Rightarrow> record_short r need short)"

definition tally_node :: "Request \<Rightarrow> NodeRecord \<Rightarrow> tally \<Rightarrow> tally" where
  "tally_node req n t =
     (case t of (counts, short, candidates) \<Rightarrow>
        if nr_Region n \<noteq> rq_Region req then (counts, short, candidates)
        else let reasons = blockers n req in
          (fold count_one reasons counts, fold (record_reason n req) reasons short, candidates + 1))"

text \<open>A line of the report: constraint, nodes it blocked, how far short the closest node was.\<close>

type_synonym part = "constraint \<times> int \<times> int option"

datatype explanation =
    NoNodeInRegion string
  | BlockedBy int "part list"

definition ranked_less :: "constraint \<times> int \<Rightarrow> constraint \<times> int \<Rightarrow> bool" where
  "ranked_less a b = (if snd a \<noteq> snd b then snd a > snd b else fst a < fst b)"

definition part_of :: "(constraint, int) gomap \<Rightarrow> constraint \<times> int \<Rightarrow> part" where
  "part_of short r =
     (fst r, snd r,
      case map_of short (fst r) of
        None \<Rightarrow> None
      | Some s \<Rightarrow> if s > 0 \<and> fst r \<in> {constraintCPU, constraintMemory, constraintDisk}
                  then Some s else None)"

definition explainRejection :: "NodeRecord list \<Rightarrow> Request \<Rightarrow> explanation" where
  "explainRejection nodes req =
     (case fold (tally_node req) nodes ([], [], 0) of (counts, short, candidates) \<Rightarrow>
        if candidates = 0 then NoNodeInRegion (rq_Region req)
        else BlockedBy candidates (map (part_of short) (sort_slice ranked_less counts)))"

section \<open>Placing a request\<close>

datatype sched_error =
    RegionRequired
  | LoadNodesFailed store_error
  | SpreadCountsFailed store_error
  | ErrIncompatibleCPU string cpu_error
  | ErrNoCapacity Request explanation
  | ErrContended nat "store_error option"
  | ReserveFailed string store_error
  | ErrQueueTimeout int sched_error
  | ContextDone

text \<open>\<^verbatim>\<open>errors.Is(err, ErrNoCapacity)\<close>.\<close>

fun is_ErrNoCapacity :: "sched_error \<Rightarrow> bool" where
  "is_ErrNoCapacity (ErrNoCapacity req why) = True"
| "is_ErrNoCapacity (ErrContended n e) = True"
| "is_ErrNoCapacity _ = False"

definition reservation_of :: "Request \<Rightarrow> Reservation" where
  "reservation_of req = \<lparr>res_SandboxID = rq_SandboxID req, res_CPU = rq_CPU req,
     res_MemoryMiB = rq_MemoryMiB req, res_DiskMiB = rq_DiskMiB req, res_GPU = rq_GPU req,
     res_SpreadKey = rq_SpreadKey req\<rparr>"

text \<open>
  The inner loop over the ranked candidates: \<open>Inl r\<close> returns \<open>r\<close> from the whole call,
  \<open>Inr lastErr\<close> falls out of the loop with the last refusal.
\<close>

fun try_candidates ::
  "'s store_iface \<Rightarrow> Request \<Rightarrow> store_error option \<Rightarrow> NodeRecord list \<Rightarrow> 's
     \<Rightarrow> ((sched_error + string) + store_error option) \<times> 's" where
  "try_candidates st req lastErr [] s = (Inr lastErr, s)"
| "try_candidates st req lastErr (n # ranked) s =
     (case if_Reserve st (nr_ID n) (reservation_of req) s of
        (Inr u, s') \<Rightarrow> (Inl (Inr (nr_ID n)), s')
      | (Inl (ErrCapacityChanged x), s') \<Rightarrow>
          try_candidates st req (Some (ErrCapacityChanged x)) ranked s'
      | (Inl e, s') \<Rightarrow> (Inl (Inl (ReserveFailed (nr_ID n) e)), s'))"

text \<open>The attempts that are left, and the refusal of the attempt before.\<close>

fun attempts ::
  "Scheduler \<Rightarrow> 's store_iface \<Rightarrow> Request \<Rightarrow> nat \<Rightarrow> store_error option \<Rightarrow> 's \<Rightarrow> (sched_error + string) \<times> 's"
where
  "attempts sc st req 0 lastErr s = (Inl (ErrContended (maxAttempts sc) lastErr), s)"
| "attempts sc st req (Suc k) lastErr s =
     (case if_LoadNodes st s of
        (Inl e, s1) \<Rightarrow> (Inl (LoadNodesFailed e), s1)
      | (Inr nodes, s1) \<Rightarrow>
     (case if_SpreadCounts st (rq_SpreadKey req) s1 of
        (Inl e, s2) \<Rightarrow> (Inl (SpreadCountsFailed e), s2)
      | (Inr spread, s2) \<Rightarrow>
          let ranked = rank (weights sc) nodes spread req in
          if ranked = [] then
            (case cpuRejection nodes req of
               Some why \<Rightarrow> (Inl (ErrIncompatibleCPU (rq_SandboxID req) why), s2)
             | None \<Rightarrow> (Inl (ErrNoCapacity req (explainRejection nodes req)), s2))
          else case try_candidates st req lastErr ranked s2 of
               (Inl r, s3) \<Rightarrow> (r, s3)
             | (Inr lastErr', s3) \<Rightarrow> attempts sc st req k lastErr' s3))"

definition Schedule ::
  "Scheduler \<Rightarrow> 's store_iface \<Rightarrow> Request \<Rightarrow> 's \<Rightarrow> (sched_error + string) \<times> 's" where
  "Schedule sc st req s =
     (if rq_Region req = '''' then (Inl RegionRequired, s)
      else attempts sc st req (maxAttempts sc) None s)"

fun ScheduleBatch ::
  "Scheduler \<Rightarrow> 's store_iface \<Rightarrow> Request list \<Rightarrow> 's \<Rightarrow> (sched_error + string) list \<times> 's" where
  "ScheduleBatch sc st [] s = ([], s)"
| "ScheduleBatch sc st (r # reqs) s =
     (let (x, s1) = Schedule sc st r s; (xs, s2) = ScheduleBatch sc st reqs s1 in (x # xs, s2))"

definition Scheduler_Release :: "'s store_iface \<Rightarrow> string \<Rightarrow> 's \<Rightarrow> (store_error + unit) \<times> 's" where
  "Scheduler_Release st sid s = if_Release st sid s"

definition Scheduler_FinishCreate :: "'s store_iface \<Rightarrow> string \<Rightarrow> 's \<Rightarrow> (store_error + unit) \<times> 's" where
  "Scheduler_FinishCreate st nid s = if_FinishCreate st nid s"

definition Scheduler_Nodes :: "'s store_iface \<Rightarrow> 's \<Rightarrow> (store_error + NodeRecord list) \<times> 's" where
  "Scheduler_Nodes st s = if_LoadNodes st s"

section \<open>Waiting for capacity\<close>

definition worthWaiting :: "'s store_iface \<Rightarrow> Request \<Rightarrow> 's \<Rightarrow> bool \<times> 's" where
  "worthWaiting st req s =
     (case if_LoadNodes st s of
        (Inl e, s') \<Rightarrow> (False, s')
      | (Inr nodes, s') \<Rightarrow>
          (list_ex (\<lambda>n. nr_Region n = rq_Region req \<and> blockers n req = []) nodes, s'))"

text \<open>
  What the \<^verbatim>\<open>select\<close> of the waiting loop receives, round by round: the caller's context
  is done, or the ticker fires, in which case the round ends with the clock at the given time.
\<close>

datatype wait_event =
    CtxDone
  | Tick int

text \<open>\<open>None\<close>: the given events do not decide the call, it is still waiting.\<close>

fun wait_loop ::
  "Scheduler \<Rightarrow> 's store_iface \<Rightarrow> Request \<Rightarrow> int \<Rightarrow> int \<Rightarrow> wait_event list \<Rightarrow> 's
     \<Rightarrow> ((sched_error + string) \<times> 's) option" where
  "wait_loop sc st req timeout deadline [] s = None"
| "wait_loop sc st req timeout deadline (CtxDone # evs) s = Some (Inl ContextDone, s)"
| "wait_loop sc st req timeout deadline (Tick now # evs) s =
     (case Schedule sc st req s of
        (Inr node, s1) \<Rightarrow> Some (Inr node, s1)
      | (Inl e, s1) \<Rightarrow>
          if \<not> is_ErrNoCapacity e then Some (Inl e, s1)
          else case worthWaiting st req s1 of
              (False, s2) \<Rightarrow> Some (Inl e, s2)
            | (True, s2) \<Rightarrow>
                if \<not> now < deadline then Some (Inl (ErrQueueTimeout timeout e), s2)
                else wait_loop sc st req timeout deadline evs s2)"

text \<open>\<open>cancelled\<close> is \<^verbatim>\<open>ctx.Err() != nil\<close> on entry, \<open>start\<close> the clock when the wait begins.\<close>

definition ScheduleWait ::
  "Scheduler \<Rightarrow> 's store_iface \<Rightarrow> bool \<Rightarrow> Request \<Rightarrow> int \<Rightarrow> int \<Rightarrow> wait_event list \<Rightarrow> 's
     \<Rightarrow> ((sched_error + string) \<times> 's) option" where
  "ScheduleWait sc st cancelled req timeout start evs s =
     (if cancelled then Some (Inl ContextDone, s)
      else case Schedule sc st req s of
          (Inr node, s1) \<Rightarrow> Some (Inr node, s1)
        | (Inl e, s1) \<Rightarrow>
            if timeout \<le> 0 then Some (Inl e, s1)
            else if \<not> is_ErrNoCapacity e then Some (Inl e, s1)
            else case worthWaiting st req s1 of
                (False, s2) \<Rightarrow> Some (Inl e, s2)
              | (True, s2) \<Rightarrow> wait_loop sc st req timeout (start + timeout) evs s2)"

section \<open>Liveness, orphans, draining\<close>

text \<open>The loops that move stale nodes to \<^verbatim>\<open>LOST\<close> and to \<^verbatim>\<open>SUSPECT\<close>.\<close>

fun mark_lost :: "'s store_iface \<Rightarrow> NodeRecord list \<Rightarrow> string list \<Rightarrow> 's
     \<Rightarrow> (string list \<times> store_error option) \<times> 's" where
  "mark_lost st [] lost s = ((lost, None), s)"
| "mark_lost st (n # stale) lost s =
     (case if_SetNodeState st (nr_ID n) NodeLost s of
        (Inl e, s') \<Rightarrow> ((lost, Some e), s')
      | (Inr changed, s') \<Rightarrow> mark_lost st stale (if changed then lost @ [nr_ID n] else lost) s')"

fun mark_suspect :: "'s store_iface \<Rightarrow> NodeRecord list \<Rightarrow> 's \<Rightarrow> store_error option \<times> 's" where
  "mark_suspect st [] s = (None, s)"
| "mark_suspect st (n # doubtful) s =
     (case if_SetNodeState st (nr_ID n) NodeSuspect s of
        (Inl e, s') \<Rightarrow> (Some e, s')
      | (Inr changed, s') \<Rightarrow> mark_suspect st doubtful s')"

definition SweepLiveness ::
  "Scheduler \<Rightarrow> 's store_iface \<Rightarrow> int \<Rightarrow> 's \<Rightarrow> (string list \<times> store_error option) \<times> 's" where
  "SweepLiveness sc st now s =
     (case if_StaleNodes st (now - lostAfter sc) [NodeDraining, NodeLost] s of
        (Inl e, s1) \<Rightarrow> (([], Some e), s1)
      | (Inr stale, s1) \<Rightarrow>
     (case mark_lost st stale [] s1 of
        ((lost, Some e), s2) \<Rightarrow> ((lost, Some e), s2)
      | ((lost, None), s2) \<Rightarrow>
     (case if_StaleNodes st (now - suspectAfter sc) [NodeDraining, NodeLost, NodeSuspect] s2 of
        (Inl e, s3) \<Rightarrow> ((lost, Some e), s3)
      | (Inr doubtful, s3) \<Rightarrow>
     (case mark_suspect st doubtful s3 of
        (Some e, s4) \<Rightarrow> ((lost, Some e), s4)
      | (None, s4) \<Rightarrow> ((sort_slice (<) lost, None), s4)))))"

fun release_all :: "'s store_iface \<Rightarrow> string list \<Rightarrow> 's \<Rightarrow> (string \<times> store_error) option \<times> 's" where
  "release_all st [] s = (None, s)"
| "release_all st (sid # ids) s =
     (case if_Release st sid s of
        (Inl e, s') \<Rightarrow> (Some (sid, e), s')
      | (Inr u, s') \<Rightarrow> release_all st ids s')"

datatype reclaim_error =
    OrphansFailed store_error
  | ReleaseFailed string store_error

definition ReclaimOrphanReservations :: "'s store_iface \<Rightarrow> 's \<Rightarrow> (reclaim_error + nat) \<times> 's" where
  "ReclaimOrphanReservations st s =
     (case if_OrphanReservations st s of
        (Inl e, s1) \<Rightarrow> (Inl (OrphansFailed e), s1)
      | (Inr orphans, s1) \<Rightarrow>
          (case release_all st orphans s1 of
             (Some (sid, e), s2) \<Rightarrow> (Inl (ReleaseFailed sid e), s2)
           | (None, s2) \<Rightarrow> (Inr (length orphans), s2)))"

datatype drain_error =
    DrainStore store_error
  | UnknownNode string

definition Drain :: "'s store_iface \<Rightarrow> string \<Rightarrow> 's \<Rightarrow> drain_error option \<times> 's" where
  "Drain st nid s =
     (case if_GetNode st nid s of
        (Inl e, s1) \<Rightarrow> (Some (DrainStore e), s1)
      | (Inr None, s1) \<Rightarrow> (Some (UnknownNode nid), s1)
      | (Inr (Some n), s1) \<Rightarrow>
          (case if_SetNodeState st nid NodeDraining s1 of
             (Inl e, s2) \<Rightarrow> (Some (DrainStore e), s2)
           | (Inr changed, s2) \<Rightarrow> (None, s2)))"

definition Utilisation ::
  "'s store_iface \<Rightarrow> string \<Rightarrow> 's \<Rightarrow> (store_error + rat \<times> rat) \<times> 's" where
  "Utilisation st region s =
     (case if_LoadNodes st s of
        (Inl e, s1) \<Rightarrow> (Inl e, s1)
      | (Inr nodes, s1) \<Rightarrow>
          let counted = filter (\<lambda>n. \<not> (region \<noteq> '''' \<and> nr_Region n \<noteq> region)
                                  \<and> nr_State n = NodeReady) nodes;
              cpuAlloc = sum_list (map nr_CPUAllocatable counted);
              cpuUsed = sum_list (map nr_CPUCommitted counted);
              memAlloc = sum_list (map (\<lambda>n. of_int (nr_MemoryAllocateMiB n)) counted);
              memUsed = sum_list (map (\<lambda>n. of_int (nr_MemoryCommitMiB n)) counted)
          in (Inr (if cpuAlloc > 0 then cpuUsed / cpuAlloc else 0,
                   if memAlloc > 0 then memUsed / memAlloc else 0), s1))"

section \<open>Filter, rank and report agree\<close>

lemma feasible_fits:
  "feasible n req \<Longrightarrow> node_fits n (reservation_of req) \<and> nr_Region n = rq_Region req"
  by (simp add: feasible_def node_fits_def reservation_of_def split: if_splits)

lemma blockers_empty_iff:
  "nr_Region n = rq_Region req \<Longrightarrow> blockers n req = [] \<longleftrightarrow> feasible n req"
  by (auto simp: blockers_def feasible_def)

lemma set_rank [simp]: "set (rank w nodes spread req) = {n \<in> set nodes. feasible n req}"
  by (auto simp: rank_def image_image)

lemma rank_empty_iff: "rank w nodes spread req = [] \<longleftrightarrow> (\<forall>n \<in> set nodes. \<not> feasible n req)"
  by (metis (mono_tags, lifting) mem_Collect_eq set_empty set_rank empty_Collect_eq)

lemma candidate_sorted:
  "sorted_wrt (\<lambda>a b. \<not> candidate_less b a) (sort_slice candidate_less xs)"
  by (rule sorted_sort_slice) (auto simp: candidate_less_def split: if_splits)

text \<open>The head of the ranking has the best score, and the smallest id among equals.\<close>

lemma rank_head_best:
  assumes "rank w nodes spread req = n # rest" "m \<in> set nodes" "feasible m req"
  shows "score w m spread req < score w n spread req
    \<or> (score w m spread req = score w n spread req \<and> nr_ID n \<le> nr_ID m)"
proof -
  let ?cs = "map (\<lambda>n. (n, score w n spread req)) (filter (\<lambda>n. feasible n req) nodes)"
  let ?s = "sort_slice candidate_less ?cs"
  have pairs: "\<forall>c \<in> set ?s. snd c = score w (fst c) spread req" by auto
  from assms(1) obtain c cs where s: "?s = c # cs" "fst c = n"
    by (auto simp: rank_def)
  with pairs have c: "snd c = score w n spread req" by auto
  have "(m, score w m spread req) \<in> set ?s" using assms(2,3) by auto
  then consider "(m, score w m spread req) = c" | "(m, score w m spread req) \<in> set cs"
    unfolding s by auto
  then show ?thesis
  proof cases
    case 1
    with s c show ?thesis by auto
  next
    case 2
    have "\<not> candidate_less (m, score w m spread req) c"
      using candidate_sorted [of ?cs] 2 unfolding s by auto
    with s c show ?thesis by (auto simp: candidate_less_def split: if_splits)
  qed
qed

text \<open>
  The rejection for an incompatible CPU is only given when some node would fit apart from
  its CPU.
\<close>

lemma cpuRejection_loop_iff:
  "cpuRejection_loop nodes req probe \<noteq> None \<longleftrightarrow>
     (\<exists>n \<in> set nodes. feasible n probe
        \<and> CheckCPU (rq_CPUConstraint req) (nr_CPUVendor n) (nr_CPUFamily n) \<noteq> None)"
  by (induction nodes) (auto split: option.splits)

lemma cpuRejection_iff:
  "cpuRejection nodes req \<noteq> None \<longleftrightarrow>
     (\<exists>n \<in> set nodes. feasible n (req\<lparr>rq_CPUConstraint := \<lparr>Vendor = '''', Family = 0, Template = ''''\<rparr>\<rparr>)
        \<and> CheckCPU (rq_CPUConstraint req) (nr_CPUVendor n) (nr_CPUFamily n) \<noteq> None)"
proof (cases "Constrained (rq_CPUConstraint req)")
  case True
  then show ?thesis
    using cpuRejection_loop_iff [of nodes req] by (simp add: cpuRejection_def)
next
  case False
  then show ?thesis by (simp add: cpuRejection_def CheckCPU_def)
qed

text \<open>What the report counts.\<close>

definition blocked_nodes :: "NodeRecord list \<Rightarrow> Request \<Rightarrow> constraint \<Rightarrow> int" where
  "blocked_nodes nodes req c =
     int (length (filter (\<lambda>n. nr_Region n = rq_Region req \<and> c \<in> set (blockers n req)) nodes))"

lemma distinct_blockers: "distinct (blockers n req)"
  by (simp add: blockers_def constraint_defs)

lemma go_get_count_one: "go_get 0 (count_one r counts) c = go_get 0 counts c + (if c = r then 1 else 0)"
  by (simp add: count_one_def go_get_def update_conv')

lemma keys_count_one: "fst ` set (count_one r counts) = insert r (fst ` set counts)"
  by (simp add: count_one_def dom_update)

lemma distinct_count_one: "distinct (map fst counts) \<Longrightarrow> distinct (map fst (count_one r counts))"
  by (simp add: count_one_def distinct_update)

lemma fold_count_one:
  assumes "distinct rs" "distinct (map fst counts)"
  shows "go_get 0 (fold count_one rs counts) c = go_get 0 counts c + (if c \<in> set rs then 1 else 0)"
    "fst ` set (fold count_one rs counts) = set rs \<union> fst ` set counts"
    "distinct (map fst (fold count_one rs counts))"
  using assms
  by (induction rs arbitrary: counts) (auto simp: go_get_count_one keys_count_one distinct_count_one)

text \<open>The shortest shortfall among the nodes a constraint blocks.\<close>

definition shortfalls :: "NodeRecord list \<Rightarrow> Request \<Rightarrow> constraint \<Rightarrow> int set" where
  "shortfalls nodes req c =
     {s. \<exists>n \<in> set nodes. nr_Region n = rq_Region req \<and> c \<in> set (blockers n req)
           \<and> shortfall_of n req c = Some s}"

definition least_of :: "int option \<Rightarrow> int set \<Rightarrow> bool" where
  "least_of x S = (case x of None \<Rightarrow> S = {} | Some s \<Rightarrow> s \<in> S \<and> (\<forall>t \<in> S. s \<le> t))"

lemma map_of_record_reason:
  "map_of (record_reason n req r short) c =
     (if c \<noteq> r then map_of short c
      else case shortfall_of n req r of
          None \<Rightarrow> map_of short r
        | Some need \<Rightarrow> (case map_of short r of
              None \<Rightarrow> Some need
            | Some have \<Rightarrow> Some (if need < have then need else have)))"
  by (auto simp: record_reason_def record_short_def update_conv' split: option.splits)

lemma fold_record_reason:
  assumes "distinct rs"
  shows "map_of (fold (record_reason n req) rs short) c =
     (if c \<in> set rs then map_of (record_reason n req c short) c else map_of short c)"
  using assms
proof (induction rs arbitrary: short)
  case (Cons a rs)
  then show ?case
    by (cases "c = a") (auto simp: map_of_record_reason split: option.splits)
qed simp

lemma shortfalls_snoc:
  "shortfalls (nodes @ [n]) req c = shortfalls nodes req c \<union>
     (if nr_Region n = rq_Region req \<and> c \<in> set (blockers n req)
      then set_option (shortfall_of n req c) else {})"
  by (auto simp: shortfalls_def)

lemma least_of_step:
  assumes "least_of (map_of short c) S"
  shows "least_of (map_of (record_reason n req c short) c) (S \<union> set_option (shortfall_of n req c))"
  using assms
  by (auto simp: least_of_def map_of_record_reason split: option.splits)

lemma tally_spec:
  assumes "fold (tally_node req) nodes ([], [], 0) = (counts, short, candidates)"
  shows "distinct (map fst counts)
    \<and> (\<forall>c. go_get 0 counts c = blocked_nodes nodes req c)
    \<and> (\<forall>c. c \<in> fst ` set counts \<longleftrightarrow> blocked_nodes nodes req c > 0)
    \<and> (\<forall>c. least_of (map_of short c) (shortfalls nodes req c))
    \<and> candidates = int (length (filter (\<lambda>n. nr_Region n = rq_Region req) nodes))"
  using assms
proof (induction nodes arbitrary: counts short candidates rule: rev_induct)
  case Nil
  then show ?case by (auto simp: go_get_def blocked_nodes_def least_of_def shortfalls_def)
next
  case (snoc n nodes)
  obtain counts0 short0 cand0 where t: "fold (tally_node req) nodes ([], [], 0) = (counts0, short0, cand0)"
    by (cases "fold (tally_node req) nodes ([], [], 0)") auto
  note IH = snoc.IH [OF t]
  have step: "tally_node req n (counts0, short0, cand0) = (counts, short, candidates)"
    using snoc.prems t by simp
  show ?case
  proof (cases "nr_Region n = rq_Region req")
    case False
    with step have "counts = counts0" "short = short0" "candidates = cand0"
      by (auto simp: tally_node_def)
    with False IH show ?thesis
      by (simp add: blocked_nodes_def shortfalls_snoc)
  next
    case True
    let ?rs = "blockers n req"
    from step True have eq: "counts = fold count_one ?rs counts0"
      "short = fold (record_reason n req) ?rs short0" "candidates = cand0 + 1"
      by (auto simp: tally_node_def Let_def)
    have bn: "blocked_nodes (nodes @ [n]) req c = blocked_nodes nodes req c + (if c \<in> set ?rs then 1 else 0)"
      for c using True by (simp add: blocked_nodes_def)
    have pos: "blocked_nodes nodes req c \<ge> 0" for c by (simp add: blocked_nodes_def)
    note fc = fold_count_one [OF distinct_blockers [of n req], of counts0]
    have c1: "distinct (map fst counts)" using IH fc(3) eq by simp
    have c2: "\<forall>c. go_get 0 counts c = blocked_nodes (nodes @ [n]) req c"
      using IH fc(1) eq bn by simp
    have c3: "\<forall>c. c \<in> fst ` set counts \<longleftrightarrow> blocked_nodes (nodes @ [n]) req c > 0"
    proof
      fix c
      have "c \<in> fst ` set counts \<longleftrightarrow> c \<in> set ?rs \<or> blocked_nodes nodes req c > 0"
        using IH fc(2) eq by auto
      then show "c \<in> fst ` set counts \<longleftrightarrow> blocked_nodes (nodes @ [n]) req c > 0"
        using bn [of c] pos [of c] by auto
    qed
    have c4: "\<forall>c. least_of (map_of short c) (shortfalls (nodes @ [n]) req c)"
      using IH least_of_step True eq
      by (simp add: fold_record_reason [OF distinct_blockers] shortfalls_snoc)
    from c1 c2 c3 c4 IH True eq(3) show ?thesis by simp
  qed
qed

lemma ranked_sorted: "sorted_wrt (\<lambda>a b. \<not> ranked_less b a) (sort_slice ranked_less xs)"
  by (rule sorted_sort_slice) (auto simp: ranked_less_def split: if_splits)

lemma go_get_member:
  assumes "distinct (map fst m)" "(k, v) \<in> set m"
  shows "go_get zero m k = v"
  using assms by (simp add: go_get_def)

lemma part_exact:
  assumes t: "fold (tally_node req) nodes ([], [], 0) = (counts, short, cand)"
    and p: "(c, k) \<in> set counts"
  shows "fst (part_of short (c, k)) = c" "fst (snd (part_of short (c, k))) = blocked_nodes nodes req c"
    "snd (snd (part_of short (c, k))) = Some s \<Longrightarrow> least_of (Some s) (shortfalls nodes req c)"
proof -
  note spec = tally_spec [OF t]
  show "fst (part_of short (c, k)) = c" by (simp add: part_of_def)
  show "fst (snd (part_of short (c, k))) = blocked_nodes nodes req c"
    using spec go_get_member [of counts c k 0] p by (simp add: part_of_def)
  assume "snd (snd (part_of short (c, k))) = Some s"
  then have "map_of short c = Some s" by (auto simp: part_of_def split: option.splits if_splits)
  then show "least_of (Some s) (shortfalls nodes req c)" using spec by metis
qed

text \<open>
  C33. A capacity refusal names the true bottlenecks. If the report blames constraints, it lists
  exactly those that blocked at least one node of the region, each once, with the true number
  of nodes it blocked, most blocking first; and a shortfall it quotes is the smallest one over
  the nodes that constraint blocked.
\<close>
theorem explainRejection_exact:
  assumes "explainRejection nodes req = BlockedBy candidates parts"
  shows "candidates = int (length (filter (\<lambda>n. nr_Region n = rq_Region req) nodes))
    \<and> distinct (map fst parts)
    \<and> (\<forall>c. c \<in> fst ` set parts \<longleftrightarrow> blocked_nodes nodes req c > 0)
    \<and> (\<forall>p \<in> set parts. fst (snd p) = blocked_nodes nodes req (fst p)
         \<and> (\<forall>s. snd (snd p) = Some s \<longrightarrow> least_of (Some s) (shortfalls nodes req (fst p))))
    \<and> sorted_wrt (\<lambda>a b. fst (snd b) \<le> fst (snd a)) parts"
proof -
  obtain counts short cand where t: "fold (tally_node req) nodes ([], [], 0) = (counts, short, cand)"
    by (cases "fold (tally_node req) nodes ([], [], 0)") auto
  from assms t have cand: "candidates = cand"
    and parts: "parts = map (part_of short) (sort_slice ranked_less counts)"
    by (auto simp: explainRejection_def split: if_splits)
  note spec = tally_spec [OF t]
  have fst_part: "map fst parts = map fst (sort_slice ranked_less counts)"
    by (simp add: parts part_of_def)
  have "mset (map fst parts) = mset (map fst counts)" by (simp add: fst_part)
  then have "distinct (map fst parts)" using spec mset_eq_imp_distinct_iff by blast
  moreover have "fst ` set parts = fst ` set counts"
    using fst_part by (metis list.set_map set_sort_slice)
  moreover have "\<forall>p \<in> set parts. fst (snd p) = blocked_nodes nodes req (fst p)
      \<and> (\<forall>s. snd (snd p) = Some s \<longrightarrow> least_of (Some s) (shortfalls nodes req (fst p)))"
    using part_exact [OF t] by (auto simp: parts)
  moreover have "sorted_wrt (\<lambda>a b. snd b \<le> snd a) (sort_slice ranked_less counts)"
    using ranked_sorted
    by (rule sorted_wrt_mono_rel [rotated]) (auto simp: ranked_less_def split: if_splits)
  then have "sorted_wrt (\<lambda>a b. fst (snd b) \<le> fst (snd a)) parts"
    by (simp add: parts sorted_wrt_map part_of_def)
  ultimately show ?thesis using spec cand by simp
qed

definition example_request :: Request where
  "example_request = \<lparr>rq_SandboxID = ''sbx1'', rq_Region = ''r'', rq_Image = ''img'', rq_CPU = 1,
     rq_MemoryMiB = 512, rq_DiskMiB = 20480, rq_GPU = 0, rq_Runtime = [], rq_NodeSelector = [],
     rq_SpreadKey = [], rq_CPUConstraint = \<lparr>Vendor = [], Family = 0, Template = []\<rparr>\<rparr>"

lemma example_blockers:
  "blockers example_node (example_request\<lparr>rq_MemoryMiB := 2000\<rparr>) = [''memory'']"
  by (simp add: blockers_def example_node_def example_request_def NodeReady_def labelsMatch_def
      CheckCPU_def Constrained_def constraint_defs)

theorem explainRejection_exact_witness:
  "explainRejection [example_node] (example_request\<lparr>rq_MemoryMiB := 2000\<rparr>) =
     BlockedBy 1 [(''memory'', 1, Some 976)]
   \<and> blocked_nodes [example_node] (example_request\<lparr>rq_MemoryMiB := 2000\<rparr>) ''memory'' > 0"
proof -
  have e: "explainRejection [example_node] (example_request\<lparr>rq_MemoryMiB := 2000\<rparr>) =
      BlockedBy 1 [(''memory'', 1, Some 976)]"
    by (simp add: explainRejection_def tally_node_def Let_def example_blockers count_one_def
        record_reason_def record_short_def shortfall_of_def constraint_defs part_of_def go_get_def)
      (simp add: example_node_def example_request_def)
  have "''memory'' \<in> fst ` set [(''memory'', 1 :: int, Some (976 :: int))]" by simp
  with explainRejection_exact [OF e] e show ?thesis by blast
qed

end
