(* ===== verification/SchedulerStore.thy ===== *)
theory SchedulerStore
  imports Scheduler
begin

text \<open>
  The contract between the scheduler and the store, and the scheduler's guarantees. The
  contract is the locale \<open>placement_store\<close>; the store of \<open>Placement\<close>, shared with other
  gateway replicas that act between any two calls, is its instance.
\<close>

section \<open>What the scheduler relies on\<close>

text \<open>
  \<open>ok\<close> is the health of the ledger, \<open>unclaimed sid\<close> that the sandbox has no reservation and
  only this caller would make one, \<open>held nid res\<close> that the reservation is in force on the node.
\<close>

definition nonneg_claim :: "Reservation \<Rightarrow> bool" where
  "nonneg_claim res \<longleftrightarrow>
     0 \<le> res_CPU res \<and> 0 \<le> res_MemoryMiB res \<and> 0 \<le> res_DiskMiB res \<and> 0 \<le> res_GPU res"

locale placement_store =
  fixes st :: "'s store_iface"
    and ok :: "'s \<Rightarrow> bool"
    and unclaimed :: "string \<Rightarrow> 's \<Rightarrow> bool"
    and held :: "string \<Rightarrow> Reservation \<Rightarrow> 's \<Rightarrow> bool"
  assumes LoadNodes_keeps:
      "if_LoadNodes st s = (r, s') \<Longrightarrow> ok s \<Longrightarrow> unclaimed sid s \<Longrightarrow> ok s' \<and> unclaimed sid s'"
    and SpreadCounts_keeps:
      "if_SpreadCounts st key s = (q, s') \<Longrightarrow> ok s \<Longrightarrow> unclaimed sid s \<Longrightarrow> ok s' \<and> unclaimed sid s'"
    and Reserve_holds:
      "if_Reserve st nid res s = (Inr (), s') \<Longrightarrow> ok s \<Longrightarrow> unclaimed (res_SandboxID res) s
        \<Longrightarrow> nonneg_claim res \<Longrightarrow> ok s' \<and> held nid res s'"
    and Reserve_refused:
      "if_Reserve st nid res s = (Inl e, s') \<Longrightarrow> ok s \<Longrightarrow> unclaimed (res_SandboxID res) s
        \<Longrightarrow> nonneg_claim res \<Longrightarrow> ok s' \<and> unclaimed (res_SandboxID res) s'"
begin

text \<open>A settled call: a node and a reservation in force on it, or an error and no reservation.\<close>

definition settled :: "Request \<Rightarrow> (sched_error + string) \<times> 's \<Rightarrow> bool" where
  "settled req p \<longleftrightarrow> ok (snd p)
     \<and> (case fst p of
          Inr nid \<Rightarrow> held nid (reservation_of req) (snd p)
        | Inl e \<Rightarrow> unclaimed (rq_SandboxID req) (snd p))"

lemma settled_simps [simp]:
  "settled req (Inr nid, s) \<longleftrightarrow> ok s \<and> held nid (reservation_of req) s"
  "settled req (Inl e, s) \<longleftrightarrow> ok s \<and> unclaimed (rq_SandboxID req) s"
  by (simp_all add: settled_def)

lemma reservation_of_id [simp]: "res_SandboxID (reservation_of req) = rq_SandboxID req"
  by (simp add: reservation_of_def)

lemma try_candidates_settled:
  assumes "ok s" "unclaimed (rq_SandboxID req) s" "nonneg_claim (reservation_of req)"
    and "try_candidates st req lastErr ranked s = (x, s')"
  shows "case x of Inl r \<Rightarrow> settled req (r, s') | Inr e \<Rightarrow> ok s' \<and> unclaimed (rq_SandboxID req) s'"
  using assms
proof (induction ranked arbitrary: lastErr s)
  case Nil
  then show ?case by auto
next
  case (Cons n ranked)
  obtain q t where q: "if_Reserve st (nr_ID n) (reservation_of req) s = (q, t)" by (meson surj_pair)
  show ?case
  proof (cases q)
    case (Inr u)
    with q have r: "if_Reserve st (nr_ID n) (reservation_of req) s = (Inr (), t)" by simp
    have "ok t \<and> held (nr_ID n) (reservation_of req) t"
      using Reserve_holds [OF r] Cons.prems(1-3) by simp
    moreover have "(x, s') = (Inl (Inr (nr_ID n)), t)"
      unfolding Cons.prems(4) [symmetric] by (simp add: r)
    ultimately show ?thesis by simp
  next
    case (Inl e)
    with q have r: "if_Reserve st (nr_ID n) (reservation_of req) s = (Inl e, t)" by simp
    have keep: "ok t" "unclaimed (rq_SandboxID req) t"
      using Reserve_refused [OF r] Cons.prems(1-3) by simp_all
    show ?thesis
    proof (cases e)
      case ErrDatabase
      then have "(x, s') = (Inl (Inl (ReserveFailed (nr_ID n) e)), t)"
        unfolding Cons.prems(4) [symmetric] by (simp add: r)
      with keep show ?thesis by simp
    next
      case (ErrCapacityChanged y)
      with Inl q Cons.prems(4)
      have "try_candidates st req (Some (ErrCapacityChanged y)) ranked t = (x, s')" by simp
      then show ?thesis by (rule Cons.IH [OF keep Cons.prems(3)])
    qed
  qed
qed

lemma attempts_settled:
  assumes "ok s" "unclaimed (rq_SandboxID req) s" "nonneg_claim (reservation_of req)"
  shows "settled req (attempts sc st req k lastErr s)"
  using assms
proof (induction k arbitrary: lastErr s)
  case 0
  then show ?case by simp
next
  case (Suc k)
  obtain r1 s1 where l: "if_LoadNodes st s = (r1, s1)" by (meson surj_pair)
  obtain r2 s2 where c: "if_SpreadCounts st (rq_SpreadKey req) s1 = (r2, s2)" by (meson surj_pair)
  have k1: "ok s1 \<and> unclaimed (rq_SandboxID req) s1" using LoadNodes_keeps [OF l] Suc.prems by blast
  then have k2: "ok s2" "unclaimed (rq_SandboxID req) s2" using SpreadCounts_keeps [OF c] by blast+
  have "settled req (case try_candidates st req lastErr ranked s2 of
          (Inl r, s3) \<Rightarrow> (r, s3) | (Inr e, s3) \<Rightarrow> attempts sc st req k e s3)" for ranked
  proof -
    obtain x s3 where t: "try_candidates st req lastErr ranked s2 = (x, s3)" by (meson surj_pair)
    note settled = try_candidates_settled [OF k2(1) k2(2) Suc.prems(3) t]
    show ?thesis
    proof (cases x)
      case (Inl r)
      with settled t show ?thesis by simp
    next
      case (Inr e)
      with settled t Suc.IH [of s3 e] Suc.prems(3) show ?thesis by simp
    qed
  qed
  with k1 k2 show ?case
    by (cases r1; cases r2) (simp_all add: l c Let_def split: option.split)
qed

lemma Schedule_settled:
  assumes "ok s" "unclaimed (rq_SandboxID req) s" "nonneg_claim (reservation_of req)"
  shows "settled req (Schedule sc st req s)"
  using assms attempts_settled by (simp add: Schedule_def)

lemma worthWaiting_keeps:
  assumes "worthWaiting st req s = (b, s')" "ok s" "unclaimed sid s"
  shows "ok s' \<and> unclaimed sid s'"
proof -
  obtain r t where l: "if_LoadNodes st s = (r, t)" by (meson surj_pair)
  with assms(1) have "s' = t" by (cases r) (auto simp: worthWaiting_def)
  with LoadNodes_keeps [OF l] assms(2,3) show ?thesis by simp
qed

lemma wait_loop_settled:
  assumes "wait_loop sc st req timeout deadline evs s = Some p"
    and "ok s" "unclaimed (rq_SandboxID req) s" "nonneg_claim (reservation_of req)"
  shows "settled req p"
  using assms
proof (induction evs arbitrary: s)
  case Nil
  then show ?case by simp
next
  case (Cons ev evs)
  obtain r s1 where sch: "Schedule sc st req s = (r, s1)" by (meson surj_pair)
  have st1: "settled req (r, s1)" using Schedule_settled [OF Cons.prems(2-4)] sch by metis
  obtain b s2 where w: "worthWaiting st req s1 = (b, s2)" by (meson surj_pair)
  show ?case
  proof (cases ev)
    case CtxDone
    with Cons.prems have "p = (Inl ContextDone, s)" by simp
    with Cons.prems show ?thesis by simp
  next
    case (Tick now)
    show ?thesis
    proof (cases r)
      case (Inr node)
      with Tick sch Cons.prems have "p = (r, s1)" by auto
      with st1 show ?thesis by simp
    next
      case (Inl e)
      with st1 have k1: "ok s1" "unclaimed (rq_SandboxID req) s1" by auto
      from worthWaiting_keeps [OF w k1] have k2: "ok s2" "unclaimed (rq_SandboxID req) s2" by auto
      have "p = (Inl e, s1) \<or> p = (Inl e, s2) \<or> p = (Inl (ErrQueueTimeout timeout e), s2)
          \<or> wait_loop sc st req timeout deadline evs s2 = Some p"
        using Cons.prems(1) unfolding Tick by (cases b) (auto simp: sch w Inl split: if_splits)
      with k1 k2 show ?thesis using Cons.IH [OF _ k2 Cons.prems(4)] by (elim disjE) simp_all
    qed
  qed
qed

lemma ScheduleWait_settled:
  assumes "ScheduleWait sc st cancelled req timeout start evs s = Some p"
    and "ok s" "unclaimed (rq_SandboxID req) s" "nonneg_claim (reservation_of req)"
  shows "settled req p"
proof -
  obtain r s1 where sch: "Schedule sc st req s = (r, s1)" by (meson surj_pair)
  have st1: "settled req (r, s1)" using Schedule_settled [OF assms(2-4)] sch by metis
  obtain b s2 where w: "worthWaiting st req s1 = (b, s2)" by (meson surj_pair)
  show ?thesis
  proof (cases "cancelled \<or> (\<exists>node. r = Inr node)")
    case True
    then have "p = (Inl ContextDone, s) \<or> p = (r, s1)"
      using assms(1) by (auto simp: ScheduleWait_def sch split: if_splits)
    with st1 assms(2,3) show ?thesis by auto
  next
    case False
    then obtain e where e: "r = Inl e" by (cases r) auto
    with st1 have k1: "ok s1" "unclaimed (rq_SandboxID req) s1" by auto
    from worthWaiting_keeps [OF w k1] have k2: "ok s2" "unclaimed (rq_SandboxID req) s2" by auto
    have "p = (Inl e, s1) \<or> p = (Inl e, s2)
        \<or> wait_loop sc st req timeout (start + timeout) evs s2 = Some p"
      using assms(1) False by (cases b) (auto simp: ScheduleWait_def sch w e split: if_splits)
    with k1 k2 show ?thesis using wait_loop_settled [OF _ k2 assms(4)] by (elim disjE) simp_all
  qed
qed

lemma ScheduleBatch_length: "length (fst (ScheduleBatch sc st reqs s)) = length reqs"
proof (induction reqs arbitrary: s)
  case (Cons r reqs)
  show ?case using Cons.IH [of "snd (Schedule sc st r s)"] by (simp add: split_beta Let_def)
qed simp

end

section \<open>The shared database as a store\<close>

text \<open>
  The database as one replica sees it. Before each of this replica's calls the other replicas
  run the store methods \<open>wd_others\<close> lists for that moment, any of which may fail. They mint
  their own sandbox ids: a claim of theirs for an id that already has a reservation or that
  belongs to this replica (\<open>wd_own\<close>) never happens, nor a node that re-registers below its
  commitments. \<open>wd_fault\<close> says which of this replica's calls fail, \<open>wd_clock\<close> is its clock.
\<close>

record world =
  wd_db :: db
  wd_tick :: nat
  wd_others :: "nat \<Rightarrow> (bool \<times> db_op) list"
  wd_own :: "string list"
  wd_fault :: "nat \<Rightarrow> bool"
  wd_clock :: "nat \<Rightarrow> int"

fun claims_id :: "string list \<Rightarrow> db_op \<Rightarrow> bool" where
  "claims_id own (Op_Reserve now nid res) \<longleftrightarrow> res_SandboxID res \<in> set own"
| "claims_id own _ \<longleftrightarrow> False"

definition others_step :: "string list \<Rightarrow> bool \<times> db_op \<Rightarrow> db \<Rightarrow> db" where
  "others_step own x d =
     (if claims_fresh_no_shrink (snd x) d \<and> \<not> claims_id own (snd x) then run_op (fst x) (snd x) d
      else d)"

definition seen_db :: "world \<Rightarrow> db" where
  "seen_db w = fold (others_step (wd_own w)) (wd_others w (wd_tick w)) (wd_db w)"

definition store_call :: "(bool \<Rightarrow> int \<Rightarrow> db \<Rightarrow> 'a \<times> db) \<Rightarrow> world \<Rightarrow> 'a \<times> world" where
  "store_call op w =
     (let x = op (wd_fault w (wd_tick w)) (wd_clock w (wd_tick w)) (seen_db w)
      in (fst x, w\<lparr>wd_db := snd x, wd_tick := Suc (wd_tick w)\<rparr>))"

definition db_store :: "world store_iface" where
  "db_store = \<lparr>
     if_Reserve = (\<lambda>nid res. store_call (\<lambda>f now. Store_Reserve f now nid res)),
     if_Release = (\<lambda>sid. store_call (\<lambda>f now. Store_Release f sid)),
     if_FinishCreate = (\<lambda>nid. store_call (\<lambda>f now. Store_FinishCreate f nid)),
     if_OrphanReservations = store_call (\<lambda>f now d. (Store_OrphanReservations f d, d)),
     if_SpreadCounts = (\<lambda>key. store_call (\<lambda>f now d. (Store_SpreadCounts f key d, d))),
     if_GetNode = (\<lambda>nid. store_call (\<lambda>f now d. (Store_GetNode f nid d, d))),
     if_LoadNodes = store_call (\<lambda>f now d. (Store_LoadNodes f d, d)),
     if_SetNodeState = (\<lambda>nid state. store_call (\<lambda>f now. Store_SetNodeState f nid state)),
     if_StaleNodes = (\<lambda>t states. store_call (\<lambda>f now d. (Store_StaleNodes f t states d, d)))\<rparr>"

lemma store_call_simps:
  assumes "store_call op w = (r, w')"
  shows "wd_own w' = wd_own w" "wd_others w' = wd_others w" "wd_fault w' = wd_fault w"
    "wd_clock w' = wd_clock w"
    "op (wd_fault w (wd_tick w)) (wd_clock w (wd_tick w)) (seen_db w) = (r, wd_db w')"
  using assms by (auto simp: store_call_def Let_def)

definition healthy :: "db \<Rightarrow> bool" where
  "healthy d \<longleftrightarrow> ledger_inv d \<and> no_oversell d"

definition reserved_ids :: "db \<Rightarrow> string set" where
  "reserved_ids d = row_sandbox_id ` set (db_reservations d)"

lemma healthy_run_op:
  assumes "healthy d" "claims_fresh_no_shrink op d"
  shows "healthy (run_op f op d)"
  using assms by (auto simp: healthy_def intro: run_op_no_oversell run_op_ledger_inv no_shrink_imp_fresh)

lemma reserved_ids_run_op:
  "reserved_ids (run_op f op d) \<subseteq> reserved_ids d \<union>
     (case op of Op_Reserve now nid res \<Rightarrow> {res_SandboxID res} | _ \<Rightarrow> {})"
  by (cases op)
    (auto simp: reserved_ids_def Store_UpsertNode_def Store_Reserve_def Store_Release_def
      Store_FinishCreate_def Store_SetNodeState_def Store_PutNodeImages_def Store_RenewLease_def
      Store_SetNodeUsage_def Store_PutSandbox_def Store_DeleteSandbox_def Let_def
      insert_reservation_def reservation_row_of_def set_delete_where split: option.splits if_splits)

lemma healthy_others: "healthy d \<Longrightarrow> healthy (fold (others_step own) xs d)"
  by (induction xs arbitrary: d) (auto simp: others_step_def intro: healthy_run_op)

lemma reserved_others:
  assumes "sid \<in> set own" "sid \<notin> reserved_ids d"
  shows "sid \<notin> reserved_ids (fold (others_step own) xs d)"
  using assms(2)
proof (induction xs arbitrary: d)
  case (Cons x xs)
  have "sid \<notin> reserved_ids (others_step own x d)"
    using Cons.prems assms(1) reserved_ids_run_op [of "fst x" "snd x" d]
    by (cases "snd x") (auto simp: others_step_def)
  then show ?case using Cons.IH by simp
qed simp

text \<open>The reservation is in the table, on a node that is registered and ready.\<close>

definition db_holds :: "string \<Rightarrow> Reservation \<Rightarrow> db \<Rightarrow> bool" where
  "db_holds nid res d \<longleftrightarrow>
     (\<exists>r \<in> set (db_reservations d). \<exists>now. r = reservation_row_of nid res now)
   \<and> (\<exists>n \<in> set (db_nodes d). nr_ID n = nid \<and> nr_State n = NodeReady)"

lemma Store_Reserve_db_holds:
  assumes "Store_Reserve f now nid res d = (Inr u, e)" "res_SandboxID res \<notin> reserved_ids d"
  shows "db_holds nid res e"
proof -
  from assms(1) have "Store_Reserve f now nid res d = (Inr (), e)" by simp
  then obtain m where m: "m \<in> set (db_nodes d)" "nr_ID m = nid" "node_fits m res"
    and e: "e = d\<lparr>db_nodes := update_where (\<lambda>n. nr_ID n = nid \<and> node_fits n res) (commit_node res) (db_nodes d),
       db_reservations := insert_reservation (reservation_row_of nid res now) (db_reservations d)\<rparr>"
    by (rule Store_Reserve_ok)
  have "reservation_row_of nid res now \<in> set (db_reservations e)"
    using assms(2) by (force simp: e insert_reservation_def reserved_ids_def reservation_row_of_def)
  moreover have "commit_node res m \<in> set (db_nodes e)"
    using member_update_where [OF m(1), of "\<lambda>n. nr_ID n = nid \<and> node_fits n res" "commit_node res"] m
    by (simp add: e)
  moreover have "nr_ID (commit_node res m) = nid" "nr_State (commit_node res m) = NodeReady"
    using m by (simp_all add: commit_node_def node_fits_def)
  ultimately show ?thesis unfolding db_holds_def by blast
qed

definition world_ok :: "world \<Rightarrow> bool" where
  "world_ok w \<longleftrightarrow> healthy (wd_db w)"

definition world_unclaimed :: "string \<Rightarrow> world \<Rightarrow> bool" where
  "world_unclaimed sid w \<longleftrightarrow> sid \<in> set (wd_own w) \<and> sid \<notin> reserved_ids (wd_db w)"

definition world_held :: "string \<Rightarrow> Reservation \<Rightarrow> world \<Rightarrow> bool" where
  "world_held nid res w \<longleftrightarrow> db_holds nid res (wd_db w)"

lemma seen_db_ok:
  "world_ok w \<Longrightarrow> healthy (seen_db w)"
  "world_unclaimed sid w \<Longrightarrow> sid \<notin> reserved_ids (seen_db w)"
  by (auto simp: world_ok_def seen_db_def world_unclaimed_def healthy_others reserved_others)

lemma read_call_keeps:
  assumes "store_call (\<lambda>f now d. (g f d, d)) w = (r, w')" "world_ok w" "world_unclaimed sid w"
  shows "world_ok w' \<and> world_unclaimed sid w'"
proof -
  note c = store_call_simps [OF assms(1)]
  have "wd_db w' = seen_db w" using c(5) by simp
  with c(1) seen_db_ok assms(2,3) show ?thesis by (simp add: world_ok_def world_unclaimed_def)
qed

lemma fresh_claim_iff:
  "fresh_claim res d \<longleftrightarrow> nonneg_claim res \<and> res_SandboxID res \<notin> reserved_ids d"
  by (auto simp: fresh_claim_def nonneg_claim_def reserved_ids_def)

interpretation shared: placement_store db_store world_ok world_unclaimed world_held
proof
  fix s r s' sid
  assume "if_LoadNodes db_store s = (r, s')" "world_ok s" "world_unclaimed sid s"
  then show "world_ok s' \<and> world_unclaimed sid s'"
    by (intro read_call_keeps) (simp_all add: db_store_def)
next
  fix key s q s' sid
  assume "if_SpreadCounts db_store key s = (q, s')" "world_ok s" "world_unclaimed sid s"
  then show "world_ok s' \<and> world_unclaimed sid s'"
    by (intro read_call_keeps) (simp_all add: db_store_def)
next
  fix nid res s s'
  assume call: "if_Reserve db_store nid res s = (Inr (), s')"
    and w: "world_ok s" "world_unclaimed (res_SandboxID res) s" and nn: "nonneg_claim res"
  then have c: "store_call (\<lambda>f now. Store_Reserve f now nid res) s = (Inr (), s')"
    by (simp add: db_store_def)
  note r = store_call_simps(5) [OF c]
  have fresh: "fresh_claim res (seen_db s)" using seen_db_ok(2) [OF w(2)] nn by (simp add: fresh_claim_iff)
  then have "healthy (run_op (wd_fault s (wd_tick s)) (Op_Reserve (wd_clock s (wd_tick s)) nid res) (seen_db s))"
    by (intro healthy_run_op seen_db_ok(1) w(1)) simp
  then have "world_ok s'" by (simp add: r world_ok_def)
  moreover have "world_held nid res s'"
    using Store_Reserve_db_holds [OF r seen_db_ok(2) [OF w(2)]] by (simp add: world_held_def)
  ultimately show "world_ok s' \<and> world_held nid res s'" ..
next
  fix nid res s e s'
  assume call: "if_Reserve db_store nid res s = (Inl e, s')"
    and w: "world_ok s" "world_unclaimed (res_SandboxID res) s" and nn: "nonneg_claim res"
  then have c: "store_call (\<lambda>f now. Store_Reserve f now nid res) s = (Inl e, s')"
    by (simp add: db_store_def)
  have "wd_db s' = seen_db s"
    using store_call_simps(5) [OF c] by (auto simp: Store_Reserve_def Let_def split: if_splits)
  with store_call_simps(1) [OF c] seen_db_ok w
  show "world_ok s' \<and> world_unclaimed (res_SandboxID res) s'"
    by (simp add: world_ok_def world_unclaimed_def)
qed

section \<open>Properties\<close>

text \<open>A world with one node in which nothing else happens, for the concrete instances below.\<close>

definition quiet_world :: "db \<Rightarrow> world" where
  "quiet_world d = \<lparr>wd_db = d, wd_tick = 0, wd_others = (\<lambda>_. []), wd_own = [''sbx1''],
     wd_fault = (\<lambda>_. False), wd_clock = (\<lambda>_. 0)\<rparr>"

lemma example_world:
  "healthy (wd_db (quiet_world example_db))"
  "rq_SandboxID example_request \<in> set (wd_own (quiet_world example_db))"
  "rq_SandboxID example_request \<notin> reserved_ids (wd_db (quiet_world example_db))"
  "nonneg_claim (reservation_of example_request)"
  using example_db_inv(1)
  by (simp_all add: quiet_world_def healthy_def no_oversell_def room_for_def example_defs
      example_request_def reserved_ids_def nonneg_claim_def reservation_of_def)


text \<open>
  C25. The same for the waiting variant, for every sequence of ticks and cancellations: a call
  that has returned an error, by timeout, cancellation or refusal, leaves no reservation behind.
\<close>
theorem schedule_wait_all_or_nothing:
  assumes "healthy (wd_db w)" "rq_SandboxID req \<in> set (wd_own w)"
    "rq_SandboxID req \<notin> reserved_ids (wd_db w)" "nonneg_claim (reservation_of req)"
    and "ScheduleWait sc db_store cancelled req timeout start evs w = Some (r, w')"
  shows "healthy (wd_db w')
    \<and> (case r of Inr nid \<Rightarrow> db_holds nid (reservation_of req) (wd_db w')
        | Inl e \<Rightarrow> rq_SandboxID req \<notin> reserved_ids (wd_db w'))"
proof -
  have "shared.settled req (r, w')"
    using shared.ScheduleWait_settled [OF assms(5)] assms(1-4)
    by (simp add: world_ok_def world_unclaimed_def)
  then show ?thesis
    by (cases r) (simp_all add: world_ok_def world_held_def world_unclaimed_def)
qed

text \<open>Without other replicas and without failures the scheduler sees one database throughout.\<close>

definition undisturbed :: "world \<Rightarrow> bool" where
  "undisturbed w \<longleftrightarrow> (\<forall>k. wd_others w k = []) \<and> (\<forall>k. \<not> wd_fault w k)"

lemma undisturbed_call:
  assumes "undisturbed w"
  shows "store_call op w =
    (fst (op False (wd_clock w (wd_tick w)) (wd_db w)),
     w\<lparr>wd_db := snd (op False (wd_clock w (wd_tick w)) (wd_db w)), wd_tick := Suc (wd_tick w)\<rparr>)"
  using assms by (simp add: store_call_def undisturbed_def seen_db_def Let_def)

lemma undisturbed_read:
  assumes "undisturbed w"
  shows "store_call (\<lambda>f now d. (g f d, d)) w = (g False (wd_db w), w\<lparr>wd_tick := Suc (wd_tick w)\<rparr>)"
  using undisturbed_call [OF assms, of "\<lambda>f now d. (g f d, d)"] by (cases w) simp

lemma undisturbed_update [simp]:
  "undisturbed (w\<lparr>wd_db := d\<rparr>) = undisturbed w" "undisturbed (w\<lparr>wd_tick := k\<rparr>) = undisturbed w"
  by (simp_all add: undisturbed_def)

definition spread_of :: "string \<Rightarrow> db \<Rightarrow> (string, int) gomap" where
  "spread_of key d = (case Store_SpreadCounts False key d of Inr m \<Rightarrow> m | Inl e \<Rightarrow> [])"

lemma Store_SpreadCounts_spread_of: "Store_SpreadCounts False key d = Inr (spread_of key d)"
  by (simp add: spread_of_def Store_SpreadCounts_def Let_def)

lemma Store_Reserve_fits:
  assumes "n \<in> set (db_nodes d)" "node_fits n res"
  shows "fst (Store_Reserve False now (nr_ID n) res d) = Inr ()"
  using assms by (auto simp: Store_Reserve_def Let_def rows_affected_0)

lemma feasible_iff_probe:
  "feasible n req \<longleftrightarrow>
     feasible n (req\<lparr>rq_CPUConstraint := \<lparr>Vendor = '''', Family = 0, Template = ''''\<rparr>\<rparr>)
     \<and> CheckCPU (rq_CPUConstraint req) (nr_CPUVendor n) (nr_CPUFamily n) = None"
proof -
  have "CheckCPU \<lparr>Vendor = '''', Family = 0, Template = ''''\<rparr> v f = None" for v f
    by (simp add: CheckCPU_def Constrained_def)
  then show ?thesis by (auto simp: feasible_def)
qed

text \<open>One undisturbed attempt, in terms of the ranking of the stored nodes.\<close>

lemma undisturbed_attempt:
  assumes u: "undisturbed w"
  defines "nodes \<equiv> sort_slice (\<lambda>a b. nr_ID a < nr_ID b) (db_nodes (wd_db w))"
  shows "attempts sc db_store req (Suc k) e w =
    (case rank (weights sc) nodes (spread_of (rq_SpreadKey req) (wd_db w)) req of
       [] \<Rightarrow> (Inl (case cpuRejection nodes req of
                    Some why \<Rightarrow> ErrIncompatibleCPU (rq_SandboxID req) why
                  | None \<Rightarrow> ErrNoCapacity req (explainRejection nodes req)),
              w\<lparr>wd_tick := Suc (Suc (wd_tick w))\<rparr>)
     | n # rest \<Rightarrow> (Inr (nr_ID n),
         snd (if_Reserve db_store (nr_ID n) (reservation_of req) (w\<lparr>wd_tick := Suc (Suc (wd_tick w))\<rparr>))))"
proof -
  let ?w = "w\<lparr>wd_tick := Suc (Suc (wd_tick w))\<rparr>"
  let ?spread = "spread_of (rq_SpreadKey req) (wd_db w)"
  have l: "if_LoadNodes db_store w = (Inr nodes, w\<lparr>wd_tick := Suc (wd_tick w)\<rparr>)"
    using undisturbed_read [OF u, of Store_LoadNodes]
    by (simp add: db_store_def Store_LoadNodes_def nodes_def)
  have s: "if_SpreadCounts db_store (rq_SpreadKey req) (w\<lparr>wd_tick := Suc (wd_tick w)\<rparr>) = (Inr ?spread, ?w)"
    using undisturbed_read [of "w\<lparr>wd_tick := Suc (wd_tick w)\<rparr>" "\<lambda>f. Store_SpreadCounts f (rq_SpreadKey req)"] u
    by (simp add: db_store_def Store_SpreadCounts_spread_of)
  show ?thesis
  proof (cases "rank (weights sc) nodes ?spread req")
    case Nil
    then show ?thesis by (simp add: l s split: option.split)
  next
    case (Cons n rest)
    have "n \<in> set (rank (weights sc) nodes ?spread req)" by (simp add: Cons)
    then have n: "n \<in> set (db_nodes (wd_db w))" "node_fits n (reservation_of req)"
      using feasible_fits by (auto simp: nodes_def)
    have "fst (if_Reserve db_store (nr_ID n) (reservation_of req) ?w) = Inr ()"
      using Store_Reserve_fits [OF n] u
        undisturbed_call [of ?w "\<lambda>f now. Store_Reserve f now (nr_ID n) (reservation_of req)"]
      by (simp add: db_store_def)
    then obtain w' where "if_Reserve db_store (nr_ID n) (reservation_of req) ?w = (Inr (), w')"
      by (cases "if_Reserve db_store (nr_ID n) (reservation_of req) ?w") auto
    then show ?thesis by (simp add: l s Cons)
  qed
qed

text \<open>
  C13. On an undisturbed store \<^verbatim>\<open>Schedule\<close> places a request exactly when some node passes
  every hard constraint, and then on a node of the highest score, the smallest id among equals;
  otherwise it reports missing capacity, or an incompatible CPU if and only if some node would
  have fitted apart from its CPU, and leaves the database alone.
\<close>
theorem schedule_optimal:
  assumes "undisturbed w" "rq_Region req \<noteq> ''''" "0 < maxAttempts sc"
  shows "case Schedule sc db_store req w of
      (Inr nid, w') \<Rightarrow> \<exists>n \<in> set (db_nodes (wd_db w)). nr_ID n = nid \<and> feasible n req
        \<and> (\<forall>m \<in> set (db_nodes (wd_db w)). feasible m req \<longrightarrow>
              (let s = \<lambda>x. score (weights sc) x (spread_of (rq_SpreadKey req) (wd_db w)) req
               in s m < s n \<or> s m = s n \<and> nr_ID n \<le> nr_ID m))
    | (Inl e, w') \<Rightarrow> (\<forall>n \<in> set (db_nodes (wd_db w)). \<not> feasible n req) \<and> wd_db w' = wd_db w
        \<and> ((\<exists>why. e = ErrIncompatibleCPU (rq_SandboxID req) why) \<longleftrightarrow>
             (\<exists>n \<in> set (db_nodes (wd_db w)).
                feasible n (req\<lparr>rq_CPUConstraint := \<lparr>Vendor = '''', Family = 0, Template = ''''\<rparr>\<rparr>)))
        \<and> (is_ErrNoCapacity e \<or> (\<exists>why. e = ErrIncompatibleCPU (rq_SandboxID req) why))"
proof -
  from assms(3) obtain k where k: "maxAttempts sc = Suc k" by (cases "maxAttempts sc") auto
  let ?nodes = "sort_slice (\<lambda>a b. nr_ID a < nr_ID b) (db_nodes (wd_db w))"
  let ?spread = "spread_of (rq_SpreadKey req) (wd_db w)"
  let ?probe = "req\<lparr>rq_CPUConstraint := \<lparr>Vendor = '''', Family = 0, Template = ''''\<rparr>\<rparr>"
  have run: "Schedule sc db_store req w = attempts sc db_store req (Suc k) None w"
    using assms(2) by (simp add: Schedule_def k)
  show ?thesis
  proof (cases "rank (weights sc) ?nodes ?spread req")
    case Nil
    then have none: "\<forall>n \<in> set (db_nodes (wd_db w)). \<not> feasible n req"
      using rank_empty_iff [of "weights sc" ?nodes ?spread req] by simp
    have cpu: "cpuRejection ?nodes req \<noteq> None \<longleftrightarrow> (\<exists>n \<in> set (db_nodes (wd_db w)). feasible n ?probe)"
      unfolding cpuRejection_iff set_sort_slice using none feasible_iff_probe [of _ req] by blast
    show ?thesis
    proof (cases "cpuRejection ?nodes req")
      case None
      with cpu none show ?thesis
        unfolding run undisturbed_attempt [OF assms(1)] Nil by simp
    next
      case (Some why)
      with cpu none show ?thesis
        unfolding run undisturbed_attempt [OF assms(1)] Nil by simp
    qed
  next
    case (Cons n rest)
    have "n \<in> set (rank (weights sc) ?nodes ?spread req)" by (simp add: Cons)
    then have "n \<in> set (db_nodes (wd_db w))" "feasible n req" by auto
    moreover have "\<forall>m \<in> set (db_nodes (wd_db w)). feasible m req \<longrightarrow>
        score (weights sc) m ?spread req < score (weights sc) n ?spread req
        \<or> score (weights sc) m ?spread req = score (weights sc) n ?spread req \<and> nr_ID n \<le> nr_ID m"
      using rank_head_best [OF Cons] by simp
    ultimately show ?thesis
      unfolding run undisturbed_attempt [OF assms(1)] Cons Let_def
      by (simp only: list.case prod.case sum.case) blast
  qed
qed

section \<open>The liveness sweep\<close>

definition set_states :: "string \<Rightarrow> string list \<Rightarrow> NodeRecord list \<Rightarrow> NodeRecord list" where
  "set_states state ids nodes = map (\<lambda>n. if nr_ID n \<in> set ids then n\<lparr>nr_State := state\<rparr> else n) nodes"

lemma set_states_Nil [simp]: "set_states state [] nodes = nodes"
  by (simp add: set_states_def)

lemma set_states_Cons:
  "set_states state ids (set_states state [i] nodes) = set_states state (i # ids) nodes"
  by (simp add: set_states_def)

lemma SetNodeState_undisturbed:
  assumes "undisturbed w"
  shows "if_SetNodeState db_store nid state w =
    (Inr (\<exists>n \<in> set (db_nodes (wd_db w)). nr_ID n = nid \<and> nr_State n \<noteq> state),
     w\<lparr>wd_db := (wd_db w)\<lparr>db_nodes := set_states state [nid] (db_nodes (wd_db w))\<rparr>,
       wd_tick := Suc (wd_tick w)\<rparr>)"
proof -
  let ?hit = "\<lambda>n. nr_ID n = nid \<and> nr_State n \<noteq> state"
  have "update_where ?hit (\<lambda>n. n\<lparr>nr_State := state\<rparr>) ns = set_states state [nid] ns" for ns
    by (simp add: update_where_def set_states_def)
  moreover have "(0 < rows_affected ?hit ns) \<longleftrightarrow> (\<exists>n \<in> set ns. ?hit n)" for ns
    using rows_affected_0 [of ?hit ns] by auto
  ultimately show ?thesis
    using undisturbed_call [OF assms, of "\<lambda>f now. Store_SetNodeState f nid state"]
    by (simp add: db_store_def Store_SetNodeState_def Let_def)
qed

lemma mark_lost_undisturbed:
  assumes "undisturbed w" "distinct (map nr_ID ns)"
    and "\<forall>n \<in> set ns. \<exists>m \<in> set (db_nodes (wd_db w)). nr_ID m = nr_ID n \<and> nr_State m \<noteq> NodeLost"
  shows "\<exists>k. mark_lost db_store ns lost w = ((lost @ map nr_ID ns, None),
    w\<lparr>wd_db := (wd_db w)\<lparr>db_nodes := set_states NodeLost (map nr_ID ns) (db_nodes (wd_db w))\<rparr>,
      wd_tick := k\<rparr>)"
  using assms
proof (induction ns arbitrary: w lost)
  case Nil
  then show ?case by (intro exI [of _ "wd_tick w"]) simp
next
  case (Cons n ns)
  let ?w = "w\<lparr>wd_db := (wd_db w)\<lparr>db_nodes := set_states NodeLost [nr_ID n] (db_nodes (wd_db w))\<rparr>,
       wd_tick := Suc (wd_tick w)\<rparr>"
  have call: "if_SetNodeState db_store (nr_ID n) NodeLost w = (Inr True, ?w)"
    using SetNodeState_undisturbed [OF Cons.prems(1), of "nr_ID n" NodeLost] Cons.prems(3) by simp
  have "\<exists>m \<in> set (db_nodes (wd_db ?w)). nr_ID m = nr_ID q \<and> nr_State m \<noteq> NodeLost"
    if q: "q \<in> set ns" for q
  proof -
    obtain m where m: "m \<in> set (db_nodes (wd_db w))" "nr_ID m = nr_ID q" "nr_State m \<noteq> NodeLost"
      using Cons.prems(3) q by (meson list.set_intros(2))
    moreover have "nr_ID q \<noteq> nr_ID n" using Cons.prems(2) q by (auto simp: image_iff)
    ultimately show ?thesis by (force simp: set_states_def)
  qed
  then obtain k where "mark_lost db_store ns (lost @ [nr_ID n]) ?w =
      (((lost @ [nr_ID n]) @ map nr_ID ns, None),
        ?w\<lparr>wd_db := (wd_db ?w)\<lparr>db_nodes := set_states NodeLost (map nr_ID ns) (db_nodes (wd_db ?w))\<rparr>,
          wd_tick := k\<rparr>)"
    using Cons.IH [of ?w "lost @ [nr_ID n]"] Cons.prems(1,2) by auto
  then show ?case
    by (intro exI [of _ k]) (simp add: call set_states_Cons)
qed

lemma mark_suspect_undisturbed:
  assumes "undisturbed w"
  shows "\<exists>k. mark_suspect db_store ns w = (None,
    w\<lparr>wd_db := (wd_db w)\<lparr>db_nodes := set_states NodeSuspect (map nr_ID ns) (db_nodes (wd_db w))\<rparr>,
      wd_tick := k\<rparr>)"
  using assms
proof (induction ns arbitrary: w)
  case Nil
  then show ?case by (intro exI [of _ "wd_tick w"]) simp
next
  case (Cons n ns)
  let ?w = "w\<lparr>wd_db := (wd_db w)\<lparr>db_nodes := set_states NodeSuspect [nr_ID n] (db_nodes (wd_db w))\<rparr>,
       wd_tick := Suc (wd_tick w)\<rparr>"
  obtain k where "mark_suspect db_store ns ?w = (None,
      ?w\<lparr>wd_db := (wd_db ?w)\<lparr>db_nodes := set_states NodeSuspect (map nr_ID ns) (db_nodes (wd_db ?w))\<rparr>,
          wd_tick := k\<rparr>)"
    using Cons.IH [of ?w] Cons.prems by auto
  then show ?case
    by (intro exI [of _ k]) (simp add: SetNodeState_undisturbed [OF Cons.prems] set_states_Cons)
qed

text \<open>What a sweep at time \<open>now\<close> makes of one node.\<close>

definition swept :: "Scheduler \<Rightarrow> int \<Rightarrow> NodeRecord \<Rightarrow> NodeRecord" where
  "swept sc now n =
     (if nr_State n = NodeDraining \<or> nr_State n = NodeLost then n
      else if nr_LastHeartbeat n < now - lostAfter sc then n\<lparr>nr_State := NodeLost\<rparr>
      else if nr_LastHeartbeat n < now - suspectAfter sc then n\<lparr>nr_State := NodeSuspect\<rparr>
      else n)"

definition newly_lost :: "Scheduler \<Rightarrow> int \<Rightarrow> NodeRecord \<Rightarrow> bool" where
  "newly_lost sc now n \<longleftrightarrow> nr_State n \<noteq> NodeDraining \<and> nr_State n \<noteq> NodeLost
     \<and> nr_LastHeartbeat n < now - lostAfter sc"

lemma StaleNodes_undisturbed:
  assumes "undisturbed w"
  shows "if_StaleNodes db_store t states w =
    (Inr (filter (\<lambda>n. nr_State n \<notin> set states \<and> nr_LastHeartbeat n < t)
        (sort_slice (\<lambda>a b. nr_ID a < nr_ID b) (db_nodes (wd_db w)))), w\<lparr>wd_tick := Suc (wd_tick w)\<rparr>)"
  using undisturbed_read [OF assms, of "\<lambda>f. Store_StaleNodes f t states"]
  by (simp add: db_store_def Store_StaleNodes_def Store_LoadNodes_def)

lemma distinct_map_sort_slice [simp]: "distinct (map f (sort_slice lt xs)) = distinct (map f xs)"
  by (metis mset_map mset_sort_slice mset_eq_imp_distinct_iff)

lemma set_states_filter:
  assumes "distinct (map nr_ID nodes)" "set xs = set nodes"
  shows "set_states state (map nr_ID (filter p xs)) nodes =
    map (\<lambda>n. if p n then n\<lparr>nr_State := state\<rparr> else n) nodes"
proof -
  have "nr_ID n \<in> nr_ID ` {x \<in> set nodes. p x} \<longleftrightarrow> p n" if "n \<in> set nodes" for n
    using assms(1) that by (auto simp: distinct_map dest: inj_onD)
  then show ?thesis unfolding set_states_def by (intro map_cong refl) (auto simp: assms(2))
qed

text \<open>
  C24. An undisturbed liveness sweep moves every node whose heartbeat is older than the lost
  threshold to \<^verbatim>\<open>LOST\<close>, every other node older than the suspect threshold to
  \<^verbatim>\<open>SUSPECT\<close>, leaves draining and already lost nodes and all fresh ones alone, and
  reports exactly the nodes it newly lost, sorted and each once.
\<close>
theorem sweep_exact:
  assumes u: "undisturbed w" and dist: "distinct (map nr_ID (db_nodes (wd_db w)))"
  shows "\<exists>lost w'. SweepLiveness sc db_store now w = ((lost, None), w')
    \<and> wd_db w' = (wd_db w)\<lparr>db_nodes := map (swept sc now) (db_nodes (wd_db w))\<rparr>
    \<and> set lost = nr_ID ` {n \<in> set (db_nodes (wd_db w)). newly_lost sc now n}
    \<and> distinct lost \<and> sorted lost"
proof -
  let ?nodes = "db_nodes (wd_db w)"
  let ?by_id = "sort_slice (\<lambda>a b. nr_ID a < nr_ID b)"
  define stale where "stale = filter (newly_lost sc now) (?by_id ?nodes)"
  define nodes1 where "nodes1 = map (\<lambda>n. if newly_lost sc now n then n\<lparr>nr_State := NodeLost\<rparr> else n) ?nodes"
  let ?p = "\<lambda>n. nr_State n \<notin> {NodeDraining, NodeLost, NodeSuspect} \<and> nr_LastHeartbeat n < now - suspectAfter sc"
  define doubtful where "doubtful = filter ?p (?by_id nodes1)"
  let ?w1 = "w\<lparr>wd_tick := Suc (wd_tick w)\<rparr>"
  have "filter (\<lambda>n. nr_State n \<notin> set [NodeDraining, NodeLost] \<and> nr_LastHeartbeat n < now - lostAfter sc)
      (?by_id ?nodes) = stale"
    by (auto simp: stale_def newly_lost_def intro: filter_cong)
  then have call1: "if_StaleNodes db_store (now - lostAfter sc) [NodeDraining, NodeLost] w = (Inr stale, ?w1)"
    by (simp only: StaleNodes_undisturbed [OF u])
  have ds: "distinct (map nr_ID stale)"
    using dist by (simp add: stale_def distinct_map_filter)
  have nodes1: "set_states NodeLost (map nr_ID stale) ?nodes = nodes1"
    unfolding stale_def nodes1_def by (rule set_states_filter [OF dist]) simp
  have "\<forall>n \<in> set stale. \<exists>m \<in> set (db_nodes (wd_db ?w1)). nr_ID m = nr_ID n \<and> nr_State m \<noteq> NodeLost"
    by (auto simp: stale_def newly_lost_def)
  from mark_lost_undisturbed [OF _ ds this, of "[]"] u obtain k where
    call2: "mark_lost db_store stale [] ?w1 =
      ((map nr_ID stale, None), w\<lparr>wd_db := (wd_db w)\<lparr>db_nodes := nodes1\<rparr>, wd_tick := k\<rparr>)"
    by (auto simp: nodes1)
  let ?w2 = "w\<lparr>wd_db := (wd_db w)\<lparr>db_nodes := nodes1\<rparr>, wd_tick := k\<rparr>"
  have call3: "if_StaleNodes db_store (now - suspectAfter sc) [NodeDraining, NodeLost, NodeSuspect] ?w2 =
      (Inr doubtful, ?w2\<lparr>wd_tick := Suc k\<rparr>)"
    using StaleNodes_undisturbed [of ?w2] u by (simp add: doubtful_def)
  obtain k' where call4: "mark_suspect db_store doubtful (?w2\<lparr>wd_tick := Suc k\<rparr>) = (None,
      w\<lparr>wd_db := (wd_db w)\<lparr>db_nodes := set_states NodeSuspect (map nr_ID doubtful) nodes1\<rparr>, wd_tick := k'\<rparr>)"
    using mark_suspect_undisturbed [of "?w2\<lparr>wd_tick := Suc k\<rparr>" doubtful] u by auto
  have "map nr_ID nodes1 = map nr_ID ?nodes" by (simp add: nodes1_def)
  then have "set_states NodeSuspect (map nr_ID doubtful) nodes1 =
      map (\<lambda>n. if ?p n then n\<lparr>nr_State := NodeSuspect\<rparr> else n) nodes1"
    unfolding doubtful_def using dist by (intro set_states_filter) simp_all
  also have "\<dots> = map (swept sc now) ?nodes"
    by (auto simp: nodes1_def swept_def newly_lost_def node_states)
  finally have final: "set_states NodeSuspect (map nr_ID doubtful) nodes1 = map (swept sc now) ?nodes" .
  have "sorted (sort_slice (<) (map nr_ID stale))"
    using sorted_sort_slice_key [of "\<lambda>x. x" "map nr_ID stale"] by simp
  with ds show ?thesis
    unfolding SweepLiveness_def call1 prod.case sum.case call2 option.case call3 call4 final
    by (auto simp: stale_def)
qed

section \<open>Orphaned reservations\<close>

definition live_row :: "db \<Rightarrow> reservation_row \<Rightarrow> bool" where
  "live_row d r \<longleftrightarrow>
     (case map_of (db_sandboxes d) (row_sandbox_id r) of None \<Rightarrow> False | Some st \<Rightarrow> \<not> IsTerminal st)"

lemma Store_Release_effect:
  "fst (Store_Release False sid d) = Inr ()"
  "db_reservations (snd (Store_Release False sid d)) = filter (\<lambda>r. row_sandbox_id r \<noteq> sid) (db_reservations d)"
  "db_sandboxes (snd (Store_Release False sid d)) = db_sandboxes d"
  by (auto simp: Store_Release_def delete_where_def find_None_iff intro: filter_True [symmetric]
      split: option.split)

lemma release_all_undisturbed:
  assumes "undisturbed w" "ledger_inv (wd_db w)"
  shows "\<exists>w'. release_all db_store ids w = (None, w') \<and> ledger_inv (wd_db w')
    \<and> db_sandboxes (wd_db w') = db_sandboxes (wd_db w)
    \<and> db_reservations (wd_db w') = filter (\<lambda>r. row_sandbox_id r \<notin> set ids) (db_reservations (wd_db w))"
  using assms
proof (induction ids arbitrary: w)
  case Nil
  then show ?case by simp
next
  case (Cons sid ids)
  let ?d = "snd (Store_Release False sid (wd_db w))"
  let ?w = "w\<lparr>wd_db := ?d, wd_tick := Suc (wd_tick w)\<rparr>"
  have call: "if_Release db_store sid w = (Inr (), ?w)"
    using undisturbed_call [OF Cons.prems(1), of "\<lambda>f now. Store_Release f sid"] Store_Release_effect(1)
    by (simp add: db_store_def)
  have "ledger_inv ?d" using Cons.prems(2) by (rule ledger_inv_Release)
  with Cons.IH [of ?w] Cons.prems(1) obtain w' where "release_all db_store ids ?w = (None, w')"
    "ledger_inv (wd_db w')" "db_sandboxes (wd_db w') = db_sandboxes ?d"
    "db_reservations (wd_db w') = filter (\<lambda>r. row_sandbox_id r \<notin> set ids) (db_reservations ?d)"
    by auto
  then show ?case
    by (intro exI [of _ w']) (simp add: call Store_Release_effect conj_commute)
qed

lemma reclaim_orphans_effect:
  assumes "undisturbed w" "ledger_inv (wd_db w)"
  shows "\<exists>w'. ReclaimOrphanReservations db_store w =
      (Inr (length (filter (\<lambda>r. \<not> live_row (wd_db w) r) (db_reservations (wd_db w)))), w')
    \<and> db_reservations (wd_db w') = filter (live_row (wd_db w)) (db_reservations (wd_db w))
    \<and> ledger_inv (wd_db w')"
proof -
  let ?rows = "db_reservations (wd_db w)"
  let ?w = "w\<lparr>wd_tick := Suc (wd_tick w)\<rparr>"
  let ?ids = "map row_sandbox_id (filter (\<lambda>r. \<not> live_row (wd_db w) r) ?rows)"
  have "Store_OrphanReservations False (wd_db w) = Inr ?ids"
    by (auto simp: Store_OrphanReservations_def live_row_def intro!: arg_cong [where f = "map row_sandbox_id"]
        filter_cong split: option.split)
  then have call: "if_OrphanReservations db_store w = (Inr ?ids, ?w)"
    using undisturbed_read [OF assms(1), of Store_OrphanReservations] by (simp add: db_store_def)
  obtain w' where w': "release_all db_store ?ids ?w = (None, w')" "ledger_inv (wd_db w')"
    "db_reservations (wd_db w') = filter (\<lambda>r. row_sandbox_id r \<notin> set ?ids) ?rows"
    using release_all_undisturbed [of ?w ?ids] assms by auto
  have "row_sandbox_id r \<notin> set ?ids \<longleftrightarrow> live_row (wd_db w) r" if "r \<in> set ?rows" for r
    using that by (auto simp: live_row_def)
  then have "filter (\<lambda>r. row_sandbox_id r \<notin> set ?ids) ?rows = filter (live_row (wd_db w)) ?rows"
    by (rule filter_cong [OF refl])
  with w' call show ?thesis by (simp add: ReclaimOrphanReservations_def)
qed


lemma example_world_undisturbed: "undisturbed (quiet_world d)"
  by (simp add: undisturbed_def quiet_world_def)

text \<open>
  C35. A reclaim that runs between a successful reserve and the moment the sandbox row is written
  takes the reservation of the create in progress away, although that create goes on: the claim is
  gone from the table while its owner still believes it holds the node.
\<close>
theorem reclaim_takes_create_in_progress:
  assumes "ledger_inv d" "fresh_claim res d"
    and "Store_Reserve False now nid res d = (Inr (), wd_db w)"
    and "map_of (db_sandboxes d) (res_SandboxID res) = None" "undisturbed w"
  shows "res_SandboxID res \<in> reserved_ids (wd_db w)
    \<and> res_SandboxID res \<notin> reserved_ids (wd_db (snd (ReclaimOrphanReservations db_store w)))"
proof -
  have inv: "ledger_inv (wd_db w)" using ledger_inv_Reserve [OF assms(1,2), of False now nid] assms(3) by simp
  have "db_sandboxes (wd_db w) = db_sandboxes d"
    using assms(3) by (rule Store_Reserve_ok) simp
  with assms(4) have dead: "\<not> live_row (wd_db w) r" if "row_sandbox_id r = res_SandboxID res" for r
    using that by (simp add: live_row_def)
  obtain w' where "ReclaimOrphanReservations db_store w =
      (Inr (length (filter (\<lambda>r. \<not> live_row (wd_db w) r) (db_reservations (wd_db w)))), w')"
    "db_reservations (wd_db w') = filter (live_row (wd_db w)) (db_reservations (wd_db w))"
    using assms(5) inv by (metis reclaim_orphans_effect)
  with dead have "res_SandboxID res \<notin> reserved_ids (wd_db (snd (ReclaimOrphanReservations db_store w)))"
    by (auto simp: reserved_ids_def)
  moreover have "db_holds nid res (wd_db w)"
    using Store_Reserve_db_holds assms(2,3) by (simp add: fresh_claim_iff)
  then have "res_SandboxID res \<in> reserved_ids (wd_db w)"
    by (force simp: db_holds_def reserved_ids_def reservation_row_of_def)
  ultimately show ?thesis by blast
qed

section \<open>Waiting ends\<close>

definition decides :: "int \<Rightarrow> wait_event \<Rightarrow> bool" where
  "decides deadline ev = (case ev of CtxDone \<Rightarrow> True | Tick now \<Rightarrow> deadline \<le> now)"

lemma wait_loop_returns:
  "\<exists>ev \<in> set evs. decides deadline ev \<Longrightarrow> wait_loop sc st req timeout deadline evs s \<noteq> None"
proof (induction evs arbitrary: s)
  case (Cons ev evs)
  show ?case
  proof (cases ev)
    case (Tick now)
    show ?thesis
    proof (cases "decides deadline ev")
      case True
      then show ?thesis
        by (auto simp: Tick decides_def split: prod.split sum.split bool.split)
    next
      case False
      with Cons show ?thesis by (auto simp: Tick split: prod.split sum.split bool.split)
    qed
  qed simp
qed simp

lemma attempts_no_timeout:
  "fst (attempts sc st req k lastErr s) \<noteq> Inl (ErrQueueTimeout t e)"
proof (induction k arbitrary: lastErr s)
  case (Suc k)
  have "fst (try_candidates st req l ranked s) \<noteq> Inl (Inl (ErrQueueTimeout t e))" for l ranked s
  proof (induction ranked arbitrary: l s)
    case (Cons n ranked)
    then show ?case by (auto split: prod.split sum.split store_error.split)
  qed simp
  with Suc show ?case
    by (auto simp: Let_def split: prod.split sum.split option.split) (metis fst_conv)+
qed simp

lemma Schedule_no_timeout: "Schedule sc st req s \<noteq> (Inl (ErrQueueTimeout t e), s')"
  using attempts_no_timeout [of sc st req "maxAttempts sc" None s t e]
  by (auto simp: Schedule_def)

lemma wait_loop_timeout:
  assumes "wait_loop sc st req timeout deadline evs s = Some (Inl (ErrQueueTimeout t e), s')"
  shows "\<exists>now. Tick now \<in> set evs \<and> deadline \<le> now"
  using assms
proof (induction evs arbitrary: s)
  case (Cons ev evs)
  show ?case
  proof (cases ev)
    case CtxDone
    with Cons.prems show ?thesis by simp
  next
    case (Tick now)
    have "deadline \<le> now \<or> (\<exists>s2. wait_loop sc st req timeout deadline evs s2 =
        Some (Inl (ErrQueueTimeout t e), s'))"
      using Cons.prems Schedule_no_timeout [of sc st req s t e]
      by (auto simp: Tick split: prod.splits sum.splits if_splits bool.splits)
    then show ?thesis using Cons.IH unfolding Tick by auto
  qed
qed simp

text \<open>
  C31. A waiting placement always ends, on every store: as soon as the caller's context is done or a
  tick finds the clock at or past the deadline, the call has returned. It never reports a queue
  timeout before the clock reached the deadline.
\<close>
theorem schedule_wait_returns:
  assumes "\<exists>ev \<in> set evs. decides (start + timeout) ev"
  shows "\<exists>r s'. ScheduleWait sc st cancelled req timeout start evs s = Some (r, s')
    \<and> (\<forall>t e. r = Inl (ErrQueueTimeout t e) \<longrightarrow> (\<exists>now. Tick now \<in> set evs \<and> start + timeout \<le> now))"
proof -
  have "ScheduleWait sc st cancelled req timeout start evs s \<noteq> None"
    using wait_loop_returns [OF assms]
    by (auto simp: ScheduleWait_def split: prod.split sum.split bool.split)
  then obtain r s' where r: "ScheduleWait sc st cancelled req timeout start evs s = Some (r, s')" by auto
  moreover have "\<exists>now. Tick now \<in> set evs \<and> start + timeout \<le> now"
    if "r = Inl (ErrQueueTimeout t e)" for t e
    using r that wait_loop_timeout Schedule_no_timeout [of sc st req s t e]
    by (fastforce simp: ScheduleWait_def split: if_splits prod.splits sum.splits bool.splits)
  ultimately show ?thesis by blast
qed

section \<open>Utilisation\<close>

text \<open>
  C34. On a healthy ledger the utilisation reported for a region is a fraction between 0 and 1
  for CPU and for memory, whatever the other replicas do and whether or not the region has nodes.
\<close>
theorem utilisation_fraction:
  assumes "healthy (wd_db w)" "Utilisation db_store region w = (Inr (cpu, mem), w')"
  shows "0 \<le> cpu \<and> cpu \<le> 1 \<and> 0 \<le> mem \<and> mem \<le> 1"
proof -
  obtain r w1 where l: "if_LoadNodes db_store w = (r, w1)" by (meson surj_pair)
  with assms(2) obtain nodes where r: "r = Inr nodes" by (cases r) (auto simp: Utilisation_def)
  have "store_call (\<lambda>f now d. (Store_LoadNodes f d, d)) w = (r, w1)"
    using l by (simp add: db_store_def)
  from store_call_simps(5) [OF this] r
  have nodes: "set nodes = set (db_nodes (seen_db w))"
    by (auto simp: Store_LoadNodes_def split: if_splits)
  let ?c = "filter (\<lambda>n. \<not> (region \<noteq> '''' \<and> nr_Region n \<noteq> region) \<and> nr_State n = NodeReady) nodes"
  have h: "healthy (seen_db w)" using seen_db_ok(1) assms(1) by (simp add: world_ok_def)
  have b: "0 \<le> nr_CPUCommitted n \<and> nr_CPUCommitted n \<le> nr_CPUAllocatable n
      \<and> 0 \<le> nr_MemoryCommitMiB n \<and> nr_MemoryCommitMiB n \<le> nr_MemoryAllocateMiB n" if "n \<in> set ?c" for n
    using h that ledger_committed_nonneg [of "seen_db w" n]
    by (auto simp: healthy_def no_oversell_def room_for_def nodes)
  have "sum_list (map nr_CPUCommitted ?c) \<le> sum_list (map nr_CPUAllocatable ?c)"
    "0 \<le> sum_list (map nr_CPUCommitted ?c)"
    "sum_list (map (\<lambda>n. of_int (nr_MemoryCommitMiB n) :: rat) ?c)
       \<le> sum_list (map (\<lambda>n. of_int (nr_MemoryAllocateMiB n)) ?c)"
    "(0::rat) \<le> sum_list (map (\<lambda>n. of_int (nr_MemoryCommitMiB n)) ?c)"
    using b by (auto intro!: sum_list_mono sum_list_nonneg)
  with assms(2) l r show ?thesis by (auto simp: Utilisation_def Let_def divide_simps)
qed

section \<open>Concrete instances\<close>

lemma example_feasible: "feasible example_node example_request"
  by (simp add: feasible_def example_node_def example_request_def NodeReady_def labelsMatch_def
      CheckCPU_def Constrained_def)

abbreviation example_scheduler :: Scheduler where
  "example_scheduler \<equiv> Scheduler_New DefaultWeights"

lemma example_scheduler_attempts: "maxAttempts example_scheduler = Suc 4"
  by (simp add: Scheduler_New_def)

lemma example_schedule:
  "\<exists>w'. Schedule example_scheduler db_store example_request (quiet_world example_db) = (Inr ''n1'', w')"
proof -
  have rk: "rank w [example_node] s example_request = [example_node]" for w s
    by (simp add: rank_def example_feasible)
  have nodes: "db_nodes (wd_db (quiet_world example_db)) = [example_node]"
    by (simp add: quiet_world_def example_db_def)
  have "nr_ID example_node = ''n1''" "rq_Region example_request \<noteq> ''''"
    by (simp_all add: example_node_def example_request_def)
  then show ?thesis
    unfolding Schedule_def example_scheduler_attempts undisturbed_attempt [OF example_world_undisturbed]
      nodes by (simp add: rk)
qed


lemma example_schedule_wait:
  "\<exists>w'. ScheduleWait example_scheduler db_store False example_request 1000 0 [] (quiet_world example_db)
      = Some (Inr ''n1'', w')"
  using example_schedule by (auto simp: ScheduleWait_def)

theorem schedule_wait_all_or_nothing_witness:
  "\<exists>w'. ScheduleWait example_scheduler db_store False example_request 1000 0 [] (quiet_world example_db)
       = Some (Inr ''n1'', w')
     \<and> healthy (wd_db w') \<and> db_holds ''n1'' (reservation_of example_request) (wd_db w')"
proof -
  obtain w' where r: "ScheduleWait example_scheduler db_store False example_request 1000 0 []
      (quiet_world example_db) = Some (Inr ''n1'', w')"
    using example_schedule_wait by blast
  with schedule_wait_all_or_nothing [OF example_world r] show ?thesis by auto
qed

theorem schedule_optimal_witness:
  "\<exists>w'. Schedule example_scheduler db_store example_request (quiet_world example_db) = (Inr ''n1'', w')
     \<and> (\<exists>n \<in> set (db_nodes (wd_db (quiet_world example_db))). nr_ID n = ''n1'' \<and> feasible n example_request)"
proof -
  have c: "rq_Region example_request \<noteq> ''''" "0 < maxAttempts example_scheduler"
    by (simp_all add: example_request_def Scheduler_New_def)
  obtain w' where r: "Schedule example_scheduler db_store example_request (quiet_world example_db) = (Inr ''n1'', w')"
    using example_schedule by blast
  have "\<exists>n \<in> set (db_nodes (wd_db (quiet_world example_db))). nr_ID n = ''n1'' \<and> feasible n example_request"
    using schedule_optimal [OF example_world_undisturbed c, of example_db]
    unfolding r prod.case sum.case by blast
  with r show ?thesis by blast
qed

lemma example_distinct: "distinct (map nr_ID (db_nodes (wd_db (quiet_world example_db))))"
  by (simp add: quiet_world_def example_db_def)

theorem sweep_exact_witness:
  "\<exists>lost w'. SweepLiveness example_scheduler db_store 50000 (quiet_world example_db) = ((lost, None), w')
     \<and> set lost = {''n1''}"
proof -
  have "db_nodes (wd_db (quiet_world example_db)) = [example_node]"
    by (simp add: quiet_world_def example_db_def)
  moreover have "newly_lost example_scheduler 50000 example_node" "nr_ID example_node = ''n1''"
    by (simp_all add: example_node_def newly_lost_def node_states Scheduler_New_def)
  ultimately have "nr_ID ` {n \<in> set (db_nodes (wd_db (quiet_world example_db))).
      newly_lost example_scheduler 50000 n} = {''n1''}" by auto
  with sweep_exact [OF example_world_undisturbed example_distinct, of example_scheduler 50000]
  show ?thesis by metis
qed

lemma example_taken:
  "ledger_inv (wd_db (quiet_world example_db2))"
  "Store_Reserve False 0 ''n1'' example_claim example_db = (Inr (), wd_db (quiet_world example_db2))"
  "map_of (db_sandboxes example_db) (res_SandboxID example_claim) = None"
proof -
  have w: "wd_db (quiet_world d) = d" for d by (simp add: quiet_world_def)
  show "ledger_inv (wd_db (quiet_world example_db2))" using example_db2(1) by (simp add: w)
  show "Store_Reserve False 0 ''n1'' example_claim example_db = (Inr (), wd_db (quiet_world example_db2))"
    unfolding w example_db2_def example_reserve by simp
  show "map_of (db_sandboxes example_db) (res_SandboxID example_claim) = None"
    by (simp add: example_db_def)
qed


theorem reclaim_takes_create_in_progress_witness:
  "''sbx1'' \<in> reserved_ids (wd_db (quiet_world example_db2))
    \<and> ''sbx1'' \<notin> reserved_ids (wd_db (snd (ReclaimOrphanReservations db_store (quiet_world example_db2))))"
  using reclaim_takes_create_in_progress [OF example_db_inv example_taken(2,3) example_world_undisturbed]
  by (simp add: example_claim_def)

theorem schedule_wait_returns_witness:
  "\<exists>r w'. ScheduleWait example_scheduler db_store False example_request 1000 0 [Tick 250, Tick 1000]
     (quiet_world empty_db) = Some (r, w')"
proof -
  have "\<exists>ev \<in> set [Tick 250, Tick 1000]. decides (0 + 1000) ev" by (simp add: decides_def)
  from schedule_wait_returns [OF this, of example_scheduler db_store False example_request
      "quiet_world empty_db"]
  show ?thesis by blast
qed

theorem utilisation_fraction_witness:
  "\<exists>cpu mem w'. Utilisation db_store ''r'' (quiet_world example_db) = (Inr (cpu, mem), w')
     \<and> 0 \<le> cpu \<and> cpu \<le> 1 \<and> 0 \<le> mem \<and> mem \<le> 1"
proof -
  have "\<exists>cpu mem w'. Utilisation db_store ''r'' (quiet_world example_db) = (Inr (cpu, mem), w')"
    using undisturbed_read [OF example_world_undisturbed, of Store_LoadNodes]
    by (simp add: Utilisation_def db_store_def Store_LoadNodes_def Let_def)
  then obtain cpu mem w' where u: "Utilisation db_store ''r'' (quiet_world example_db) = (Inr (cpu, mem), w')"
    by blast
  from utilisation_fraction [OF example_world(1) u] u show ?thesis by blast
qed

end
