(* ===== verification/Bytes.thy ===== *)
theory Bytes
  imports Prelude
begin

text \<open>
  Bytes, byte buffers and readers. A slice that is written in place is a list of bytes that
  \<open>overwrite\<close> updates; \<^verbatim>\<open>binary.LittleEndian\<close> is \<open>le_nat\<close> and \<open>le_bytes\<close>.
  An \<^verbatim>\<open>io.ReaderAt\<close> is a function that maps the length of the caller's buffer and an
  offset to the bytes it puts at the front of the buffer and an error; \<^verbatim>\<open>os.File\<close> is the
  reader of a list of bytes. The locale \<open>content_reader\<close> is the contract every layer of the image
  stack relies on: reading is taking bytes out of a fixed content, and the only error is the end
  of it.
\<close>

type_synonym byte = "8 word"

section \<open>Errors\<close>

text \<open>
  Error values: \<^verbatim>\<open>io.EOF\<close>, an error made by \<^verbatim>\<open>fmt.Errorf\<close> from a message and its
  arguments, and one that wraps another (\<^verbatim>\<open>%w\<close>).
\<close>

datatype arg = AInt int | AStr string

datatype go_error =
    EOF
  | UnexpectedEOF
  | Errorf string "arg list"
  | Wrapf string "arg list" go_error

fun isEOF :: "go_error \<Rightarrow> bool" where
  "isEOF EOF = True"
| "isEOF UnexpectedEOF = True"
| "isEOF (Errorf msg args) = False"
| "isEOF (Wrapf msg args e) = isEOF e"

section \<open>Buffers\<close>

definition zeros :: "nat \<Rightarrow> byte list" where
  "zeros n = replicate n 0"

definition slice :: "'a list \<Rightarrow> nat \<Rightarrow> nat \<Rightarrow> 'a list" where
  "slice b i j = take (j - i) (drop i b)"

definition overwrite :: "'a list \<Rightarrow> nat \<Rightarrow> 'a list \<Rightarrow> 'a list" where
  "overwrite buf i data = take i buf @ data @ drop (i + length data) buf"

lemma length_zeros [simp]: "length (zeros n) = n"
  by (simp add: zeros_def)

lemma nth_zeros [simp]: "i < n \<Longrightarrow> zeros n ! i = 0"
  by (simp add: zeros_def)

lemma length_slice [simp]: "length (slice b i j) = min (j - i) (length b - i)"
  by (simp add: slice_def min.commute)

lemma nth_slice [buf_simps]: "k < j - i \<Longrightarrow> i + k < length b \<Longrightarrow> slice b i j ! k = b ! (i + k)"
  by (simp add: slice_def)

lemma length_overwrite [simp]:
  "i + length data \<le> length buf \<Longrightarrow> length (overwrite buf i data) = length buf"
  by (simp add: overwrite_def)

lemma nth_overwrite [buf_simps]:
  assumes "i + length data \<le> length buf" "k < length buf"
  shows "overwrite buf i data ! k =
    (if i \<le> k \<and> k < i + length data then data ! (k - i) else buf ! k)"
  using assms by (auto simp: overwrite_def nth_append)

lemma overwrite_0_full [simp]: "length data = length buf \<Longrightarrow> overwrite buf 0 data = data"
  by (simp add: overwrite_def)

lemma overwrite_0: "overwrite buf 0 data = data @ drop (length data) buf"
  by (simp add: overwrite_def)

lemma slice_append_left: "j \<le> length xs \<Longrightarrow> slice (xs @ ys) i j = slice xs i j"
  by (simp add: slice_def drop_append)

lemma slice_append_right:
  "length xs \<le> i \<Longrightarrow> slice (xs @ ys) i j = slice ys (i - length xs) (j - length xs)"
  by (simp add: slice_def drop_append)

section \<open>Little-endian integers\<close>

fun le_nat :: "byte list \<Rightarrow> nat" where
  "le_nat [] = 0"
| "le_nat (b # bs) = unat b + 256 * le_nat bs"

fun le_bytes :: "nat \<Rightarrow> nat \<Rightarrow> byte list" where
  "le_bytes 0 v = []"
| "le_bytes (Suc n) v = word_of_nat (v mod 256) # le_bytes n (v div 256)"

abbreviation Uint16 :: "byte list \<Rightarrow> 16 word" where "Uint16 bs \<equiv> word_of_nat (le_nat bs)"
abbreviation Uint32 :: "byte list \<Rightarrow> 32 word" where "Uint32 bs \<equiv> word_of_nat (le_nat bs)"
abbreviation Uint64 :: "byte list \<Rightarrow> 64 word" where "Uint64 bs \<equiv> word_of_nat (le_nat bs)"
abbreviation PutUint32 :: "32 word \<Rightarrow> byte list" where "PutUint32 w \<equiv> le_bytes 4 (unat w)"
abbreviation PutUint64 :: "64 word \<Rightarrow> byte list" where "PutUint64 w \<equiv> le_bytes 8 (unat w)"

lemma length_le_bytes [simp]: "length (le_bytes n v) = n"
  by (induction n arbitrary: v) auto

lemma unat_byte_of_nat: "unat (word_of_nat v :: byte) = v mod 256"
  by (simp add: unat_of_nat)

lemma le_nat_le_bytes: "le_nat (le_bytes n v) = v mod 256 ^ n"
proof (induction n arbitrary: v)
  case (Suc n)
  have "v mod (256 * 256 ^ n) = v mod 256 + 256 * (v div 256 mod 256 ^ n)"
    by (simp add: mod_mult2_eq)
  with Suc show ?case by (simp add: unat_byte_of_nat)
qed simp

lemma Uint32_PutUint32 [simp]: "Uint32 (PutUint32 w) = w"
proof -
  have "unat w < 256 ^ 4" using unsigned_less [of w, where ?'a = nat] by simp
  then show ?thesis by (simp add: le_nat_le_bytes)
qed

lemma Uint64_PutUint64 [simp]: "Uint64 (PutUint64 w) = w"
proof -
  have "unat w < 256 ^ 8" using unsigned_less [of w, where ?'a = nat] by simp
  then show ?thesis by (simp add: le_nat_le_bytes)
qed

section \<open>Readers\<close>

type_synonym reader = "nat \<Rightarrow> int \<Rightarrow> byte list \<times> go_error option"

definition file_ReadAt :: "byte list \<Rightarrow> reader" where
  "file_ReadAt f n off =
     (if off < 0 then ([], Some (Errorf ''negative offset'' []))
      else let bs = take n (drop (nat off) f)
           in (bs, if length bs < n then Some EOF else None))"

text \<open>\<^verbatim>\<open>if _, err := src.ReadAt(buf, off); err != nil && !isEOF(err)\<close>, the buffer after it.\<close>

definition read_full :: "reader \<Rightarrow> byte list \<Rightarrow> int \<Rightarrow> go_error + byte list" where
  "read_full rd buf off =
     (case rd (length buf) off of
        (bs, Some e) \<Rightarrow> if \<not> isEOF e then Inl e else Inr (overwrite buf 0 bs)
      | (bs, None) \<Rightarrow> Inr (overwrite buf 0 bs))"

locale content_reader =
  fixes rd :: reader and content :: "byte list"
  assumes read_content: "0 \<le> off \<Longrightarrow> fst (rd n off) = take n (drop (nat off) content)"
    and read_error: "0 \<le> off \<Longrightarrow> snd (rd n off) = Some e \<Longrightarrow> isEOF e"
begin

lemma read_full_content:
  assumes "0 \<le> off"
  shows "read_full rd buf off = Inr (overwrite buf 0 (take (length buf) (drop (nat off) content)))"
proof -
  obtain bs err where r: "rd (length buf) off = (bs, err)" by (meson surj_pair)
  with read_content [OF assms, of "length buf"] have "bs = take (length buf) (drop (nat off) content)" by simp
  with r read_error [OF assms, of "length buf"] show ?thesis
    by (cases err) (auto simp: read_full_def)
qed

lemma read_full_inside:
  assumes "0 \<le> off" "nat off + length buf \<le> length content"
  shows "read_full rd buf off = Inr (slice content (nat off) (nat off + length buf))"
proof -
  have "length (take (length buf) (drop (nat off) content)) = length buf" using assms by simp
  then show ?thesis using assms(1) by (simp add: read_full_content slice_def)
qed

end

interpretation os_file: content_reader "file_ReadAt f" f for f
  by unfold_locales (auto simp: file_ReadAt_def Let_def split: if_splits)

text \<open>Slices of a buffer that was written in place.\<close>

lemma slice_overwrite_same [buf_simps]:
  "i + length data \<le> length buf \<Longrightarrow> j = i + length data \<Longrightarrow> slice (overwrite buf i data) i j = data"
  by (simp add: slice_def overwrite_def)

lemma slice_overwrite_before [buf_simps]:
  "j \<le> i \<Longrightarrow> i + length data \<le> length buf \<Longrightarrow> slice (overwrite buf i data) k j = slice buf k j"
  by (rule nth_equalityI) (auto simp: nth_slice nth_overwrite)

lemma slice_overwrite_after [buf_simps]:
  "i + length data \<le> k \<Longrightarrow> i + length data \<le> length buf \<Longrightarrow> slice (overwrite buf i data) k j = slice buf k j"
  by (rule nth_equalityI) (auto simp: nth_slice nth_overwrite)

lemma slice_update_before [buf_simps]: "j \<le> i \<Longrightarrow> slice (b[i := x]) k j = slice b k j"
  by (rule nth_equalityI) (auto simp: nth_slice)

text \<open>Reading across a boundary of blocks of \<open>bs\<close> bytes: what one block contributes.\<close>

lemma block_piece:
  fixes pos bs :: nat and plain :: "byte list"
  shows "take k (drop (pos mod bs) (take bs (drop (pos div bs * bs) plain)))
    = take (min k (bs - pos mod bs)) (drop pos plain)"
proof -
  have "pos mod bs + pos div bs * bs = pos" by (simp add: mod_div_mult_eq)
  then show ?thesis by (simp add: drop_take min.commute)
qed

end
