(* ===== verification/Lz4.thy ===== *)
theory Lz4
  imports Bytes
begin

text \<open>
  The LZ4 block decoder (\<^verbatim>\<open>src/internal/node/image/lz4block.go\<close>). The cursor \<^verbatim>\<open>sp\<close> is the rest of
  the source, the filled part \<^verbatim>\<open>dst[:dp]\<close> of the output buffer is a list, and \<open>cap\<close> is the buffer's
  length. The decoder is compared with the block format itself: sequences of literals and a
  back-reference, with an encoder for them.
\<close>

section \<open>The decoder\<close>

text \<open>The bytes that extend a length of 15; \<open>None\<close> when the source ends inside them.\<close>

fun extend_length :: "nat \<Rightarrow> byte list \<Rightarrow> (nat \<times> byte list) option" where
  "extend_length len [] = None"
| "extend_length len (n # src) =
     (if n \<noteq> 0xff then Some (len + unat n, src) else extend_length (len + unat n) src)"

definition read_length :: "nat \<Rightarrow> byte list \<Rightarrow> (nat \<times> byte list) option" where
  "read_length nibble src = (if nibble = 0x0f then extend_length nibble src else Some (nibble, src))"

lemma extend_length_shorter: "extend_length len src = Some (n, rest) \<Longrightarrow> length rest < length src"
  by (induction len src rule: extend_length.induct) (auto split: if_splits)

lemma read_length_shorter: "read_length nibble src = Some (n, rest) \<Longrightarrow> length rest \<le> length src"
  by (auto simp: read_length_def split: if_splits dest: extend_length_shorter)

text \<open>The match, a byte at a time, since it may overlap its own output.\<close>

fun copy_match :: "nat \<Rightarrow> nat \<Rightarrow> byte list \<Rightarrow> byte list" where
  "copy_match offset 0 out = out"
| "copy_match offset (Suc n) out = copy_match offset n (out @ [out ! (length out - offset)])"

function lz4_loop :: "nat \<Rightarrow> byte list \<Rightarrow> byte list \<Rightarrow> go_error + byte list" where
  "lz4_loop cap [] out = Inr out"
| "lz4_loop cap (tok # src) out =
     (let token = unat tok in
      case read_length (token div 16) src of
        None \<Rightarrow> Inl (Errorf ''lz4 block ends inside a literal length'' [])
      | Some (litLen, src1) \<Rightarrow>
          if litLen > 0 \<and> litLen > length src1
          then Inl (Errorf ''lz4 block claims %d literal bytes, %d remain'' [AInt (int litLen), AInt (int (length src1))])
          else if litLen > 0 \<and> length out + litLen > cap
          then Inl (Errorf ''lz4 literals overrun the output buffer'' [])
          else let out1 = out @ take litLen src1; src2 = drop litLen src1
               in if src2 = [] then Inr out1
                  else if length src2 < 2 then Inl (Errorf ''lz4 block ends inside a match offset'' [])
                  else let offset = unat (Uint16 (take 2 src2)); src3 = drop 2 src2
                       in if offset = 0
                          then Inl (Errorf ''lz4 match offset is zero, which would copy from itself'' [])
                          else if offset > length out1
                          then Inl (Errorf ''lz4 match reaches %d bytes back, before the start of the %d bytes decoded''
                                      [AInt (int offset), AInt (int (length out1))])
                          else case read_length (token mod 16) src3 of
                              None \<Rightarrow> Inl (Errorf ''lz4 block ends inside a match length'' [])
                            | Some (n, src4) \<Rightarrow>
                                let matchLen = n + 4
                                in if length out1 + matchLen > cap
                                   then Inl (Errorf ''lz4 match overruns the output buffer'' [])
                                   else lz4_loop cap src4 (copy_match offset matchLen out1))"
  by pat_completeness auto
termination
  by (relation "measure (\<lambda>(cap, src, out). length src)") (auto dest!: read_length_shorter)

definition lz4Decompress :: "byte list \<Rightarrow> nat \<Rightarrow> go_error + byte list" where
  "lz4Decompress src cap = lz4_loop cap src []"

section \<open>The block format\<close>

text \<open>A sequence: literals, then a match of at least four bytes at a distance back.\<close>

datatype lz4_seq = Seq (literals: "byte list") (distance: nat) (match_len: nat)

fun expand :: "lz4_seq list \<Rightarrow> byte list \<Rightarrow> byte list" where
  "expand [] out = out"
| "expand (Seq lits d n # qs) out = expand qs (copy_match d n (out @ lits))"

fun seqs_ok :: "lz4_seq list \<Rightarrow> nat \<Rightarrow> bool" where
  "seqs_ok [] len \<longleftrightarrow> True"
| "seqs_ok (Seq lits d n # qs) len \<longleftrightarrow>
     4 \<le> n \<and> 0 < d \<and> d < 65536 \<and> d \<le> len + length lits \<and> seqs_ok qs (len + length lits + n)"

definition enc_length :: "nat \<Rightarrow> byte list" where
  "enc_length n =
     (if n < 15 then [] else replicate ((n - 15) div 255) 0xff @ [word_of_nat ((n - 15) mod 255)])"

definition enc_token :: "nat \<Rightarrow> nat \<Rightarrow> byte" where
  "enc_token lit m = word_of_nat (min lit 15 * 16 + min m 15)"

fun enc_seq :: "lz4_seq \<Rightarrow> byte list" where
  "enc_seq (Seq lits d n) =
     enc_token (length lits) (n - 4) # enc_length (length lits) @ lits @ le_bytes 2 d @ enc_length (n - 4)"

definition enc_block :: "lz4_seq list \<Rightarrow> byte list \<Rightarrow> byte list" where
  "enc_block qs lits =
     concat (map enc_seq qs) @ enc_token (length lits) 0 # enc_length (length lits) @ lits"

section \<open>Decoding an encoded block\<close>

lemma length_copy_match [simp]: "length (copy_match d n out) = length out + n"
  by (induction d n out rule: copy_match.induct) auto

lemma extend_length_enc:
  "extend_length len (replicate k 0xff @ word_of_nat m # rest) = Some (len + 255 * k + m, rest)" if "m < 255"
proof (induction k arbitrary: len)
  case 0
  have "unat (word_of_nat m :: byte) = m" using that by (simp add: unat_byte_of_nat)
  moreover have "word_of_nat m \<noteq> (0xff :: byte)"
  proof
    assume "word_of_nat m = (0xff :: byte)"
    then have "unat (word_of_nat m :: byte) = unat (0xff :: byte)" by simp
    then show False using that \<open>unat (word_of_nat m :: byte) = m\<close> by simp
  qed
  ultimately show ?case by simp
next
  case (Suc k)
  then show ?case by simp
qed

lemma read_length_enc: "read_length (min n 15) (enc_length n @ rest) = Some (n, rest)"
proof (cases "n < 15")
  case False
  have "15 + 255 * ((n - 15) div 255) + (n - 15) mod 255 = n" using False by simp
  then show ?thesis
    using False extend_length_enc [of "(n - 15) mod 255" 15 "(n - 15) div 255" rest]
    by (simp add: read_length_def enc_length_def)
qed (simp add: read_length_def enc_length_def)

lemma enc_token: "unat (enc_token lit m) div 16 = min lit 15" "unat (enc_token lit m) mod 16 = min m 15"
proof -
  have "min lit 15 * 16 + min m 15 < 256" by linarith
  then have "unat (enc_token lit m) = min lit 15 * 16 + min m 15" unfolding enc_token_def unat_byte_of_nat by (rule mod_less)
  then show "unat (enc_token lit m) div 16 = min lit 15" "unat (enc_token lit m) mod 16 = min m 15"
    by (simp_all add: div_nat_eqI)
qed

lemma Uint16_le_bytes: "d < 65536 \<Longrightarrow> unat (Uint16 (le_bytes 2 d)) = d"
  by (simp add: le_nat_le_bytes unsigned_of_nat take_bit_nat_eq_self_iff)

lemma expand_length: "length out \<le> length (expand qs out)"
  by (induction qs out rule: expand.induct) (auto intro: order_trans [rotated])

lemma decode_seq:
  assumes "4 \<le> n" "0 < d" "d < 65536" "d \<le> length out + length lits" "length out + length lits + n \<le> cap"
  shows "lz4_loop cap (enc_seq (Seq lits d n) @ rest) out = lz4_loop cap rest (copy_match d n (out @ lits))"
proof -
  have lit: "read_length (min (length lits) 15) (enc_length (length lits) @ lits @ le_bytes 2 d @ enc_length (n - 4) @ rest)
      = Some (length lits, lits @ le_bytes 2 d @ enc_length (n - 4) @ rest)" by (rule read_length_enc)
  have m: "read_length (min (n - 4) 15) (enc_length (n - 4) @ rest) = Some (n - 4, rest)" by (rule read_length_enc)
  have ne: "le_bytes 2 d \<noteq> []"
    using length_le_bytes [of 2 d] by (metis list.size(3) zero_neq_numeral)
  show ?thesis
    using assms lit m Uint16_le_bytes [OF assms(3)] by (simp add: Let_def enc_token ne)
qed

lemma decode_last:
  assumes "length out + length lits \<le> cap"
  shows "lz4_loop cap (enc_token (length lits) 0 # enc_length (length lits) @ lits) out = Inr (out @ lits)"
  using assms read_length_enc [of "length lits" lits] by (simp add: Let_def enc_token)

lemma decode_block:
  assumes "seqs_ok qs (length out)" "length (expand qs out) + length lits \<le> cap"
  shows "lz4_loop cap (enc_block qs lits) out = Inr (expand qs out @ lits)"
  using assms
proof (induction qs out rule: expand.induct)
  case (1 out)
  then show ?case using decode_last by (simp add: enc_block_def)
next
  case (2 l d n qs out)
  have "length (copy_match d n (out @ l)) \<le> length (expand qs (copy_match d n (out @ l)))" by (rule expand_length)
  then have "length out + length l + n \<le> cap" using 2(3) by simp
  then have "lz4_loop cap (enc_block (Seq l d n # qs) lits) out = lz4_loop cap (enc_block qs lits) (copy_match d n (out @ l))"
    using decode_seq [of n d out l cap "enc_block qs lits"] 2(2) by (simp add: enc_block_def)
  then show ?case using 2 by simp
qed

section \<open>Bounds\<close>

lemma lz4_step:
  assumes "lz4_loop cap (tok # src) out = Inr res" "length out \<le> cap"
  shows "length res \<le> cap
    \<or> (\<exists>src' out'. lz4_loop cap src' out' = Inr res \<and> length out' \<le> cap \<and> length src' < length (tok # src))"
proof -
  obtain lit src1 where l: "read_length (unat tok div 16) src = Some (lit, src1)"
    using assms(1) by (auto simp: Let_def split: option.splits)
  have s1: "length src1 \<le> length src" by (rule read_length_shorter [OF l])
  have fit: "length (out @ take lit src1) \<le> cap" using assms l by (auto simp: Let_def split: if_splits)
  show ?thesis
  proof (cases "drop lit src1 = []")
    case True
    then show ?thesis using assms(1) l fit by (auto simp: Let_def split: if_splits)
  next
    case False
    then obtain n src4 where m: "read_length (unat tok mod 16) (drop 2 (drop lit src1)) = Some (n, src4)"
      using assms(1) l by (auto simp: Let_def split: if_splits option.splits)
    have "length src4 < length (tok # src)" using read_length_shorter [OF m] s1 by simp
    moreover have "lz4_loop cap src4 (copy_match (unat (Uint16 (take 2 (drop lit src1)))) (n + 4) (out @ take lit src1)) = Inr res"
      "length (copy_match (unat (Uint16 (take 2 (drop lit src1)))) (n + 4) (out @ take lit src1)) \<le> cap"
      using assms(1) l m False by (auto simp: Let_def split: if_splits)
    ultimately show ?thesis by blast
  qed
qed

lemma lz4_loop_bounded:
  "length out \<le> cap \<Longrightarrow> lz4_loop cap src out = Inr res \<Longrightarrow> length res \<le> cap"
proof (induction "length src" arbitrary: src out rule: less_induct)
  case less
  show ?case
  proof (cases src)
    case Nil
    then show ?thesis using less.prems by simp
  next
    case (Cons tok rest)
    then show ?thesis using lz4_step [OF less.prems(2) [unfolded Cons] less.prems(1)] less.hyps by blast
  qed
qed

text \<open>A match at distance one repeats the last byte.\<close>

lemma copy_match_run: "out \<noteq> [] \<Longrightarrow> copy_match 1 n out = out @ replicate n (last out)"
  by (induction "1 :: nat" n out rule: copy_match.induct) (simp_all add: last_conv_nth replicate_append_same [symmetric])



text \<open>
  C30. Whatever bytes it is given, the decoder returns (the recursion is total) and never produces
  more than the output buffer holds; an empty block decodes to nothing.
\<close>

theorem lz4_bounded:
  "(case lz4Decompress src cap of Inl e \<Rightarrow> src \<noteq> [] | Inr out \<Rightarrow> length out \<le> cap)
   \<and> lz4Decompress [] cap = Inr []"
  using lz4_loop_bounded [of "[]" cap src]
  by (cases src) (auto simp: lz4Decompress_def simp del: lz4_loop.simps(2) split: sum.split)

end
