(* ===== verification/Lsmt.thy ===== *)
theory Lsmt
  imports Bytes
begin

text \<open>
  The on-disk format of a sealed overlaybd layer (\<^verbatim>\<open>src/internal/node/image/lsmt.go\<close>) and
  the encoders of \<^verbatim>\<open>lsmtwrite.go\<close>: header and trailer, the bit-packed index entry, opening a
  layer, and the range lookup. Offsets and lengths are machine words of the width the code has.
\<close>

unbundle bit_operations_syntax

section \<open>Constants\<close>

definition lsmtAlignment :: nat where "lsmtAlignment = 512"
definition lsmtHeaderSpace :: nat where "lsmtHeaderSpace = 4096"
definition lsmtHeaderSize :: nat where "lsmtHeaderSize = 390"
definition lsmtIndexEntrySize :: nat where "lsmtIndexEntrySize = 16"
definition lsmtMagic0 :: "64 word" where "lsmtMagic0 = 0x00020100544d534c"

definition lsmtMagic1 :: "byte list" where
  "lsmtMagic1 = [0x65, 0x7e, 0x63, 0xd2, 0x94, 0x44, 0x08, 0x4c, 0xa2, 0xd2,
     0xc8, 0xec, 0x4f, 0xcf, 0xae, 0x8a]"

definition lsmtFlagHeader :: "32 word" where "lsmtFlagHeader = 1"
definition lsmtFlagData :: "32 word" where "lsmtFlagData = 2"
definition lsmtFlagSealed :: "32 word" where "lsmtFlagSealed = 4"

definition lsmtOffsetMask :: "64 word" where "lsmtOffsetMask = push_bit 50 1 - 1"
definition lsmtLengthMask :: "64 word" where "lsmtLengthMask = push_bit 14 1 - 1"
definition lsmtMOffsetMask :: "64 word" where "lsmtMOffsetMask = push_bit 55 1 - 1"
definition lsmtInvalidOffset :: "64 word" where "lsmtInvalidOffset = push_bit 50 1 - 1"

lemmas lsmt_sizes = lsmtAlignment_def lsmtHeaderSpace_def lsmtHeaderSize_def lsmtIndexEntrySize_def
lemmas lsmt_flags = lsmtFlagHeader_def lsmtFlagData_def lsmtFlagSealed_def

lemma lsmt_masks:
  "lsmtOffsetMask = mask 50" "lsmtLengthMask = mask 14" "lsmtMOffsetMask = mask 55"
  "lsmtInvalidOffset = mask 50"
  by (simp_all add: lsmtOffsetMask_def lsmtLengthMask_def lsmtMOffsetMask_def lsmtInvalidOffset_def
      mask_eq_exp_minus_1)

section \<open>Header and trailer\<close>

record lsmtHeader =
  h_flags :: "32 word"
  h_indexOffset :: "64 word"
  h_indexSize :: "64 word"
  h_virtualSize :: "64 word"

definition isHeader :: "lsmtHeader \<Rightarrow> bool" where "isHeader h \<longleftrightarrow> h_flags h AND lsmtFlagHeader \<noteq> 0"
definition isTrailer :: "lsmtHeader \<Rightarrow> bool" where "isTrailer h \<longleftrightarrow> \<not> isHeader h"
definition isData :: "lsmtHeader \<Rightarrow> bool" where "isData h \<longleftrightarrow> h_flags h AND lsmtFlagData \<noteq> 0"
definition isSealed :: "lsmtHeader \<Rightarrow> bool" where "isSealed h \<longleftrightarrow> h_flags h AND lsmtFlagSealed \<noteq> 0"

definition parseLSMTHeader :: "byte list \<Rightarrow> go_error + lsmtHeader" where
  "parseLSMTHeader b =
     (if length b < lsmtHeaderSize
      then Inl (Errorf ''lsmt header needs %d bytes, got %d'' [AInt (int lsmtHeaderSize), AInt (int (length b))])
      else if Uint64 (slice b 0 8) \<noteq> lsmtMagic0
      then Inl (Errorf ''not an lsmt layer: magic0 %d, want %d''
                  [AInt (uint (Uint64 (slice b 0 8))), AInt (uint lsmtMagic0)])
      else if slice b 8 24 \<noteq> lsmtMagic1 then Inl (Errorf ''not an lsmt layer: magic1 mismatch'' [])
      else Inr \<lparr>h_flags = Uint32 (slice b 28 32), h_indexOffset = Uint64 (slice b 32 40),
                h_indexSize = Uint64 (slice b 40 48), h_virtualSize = Uint64 (slice b 48 56)\<rparr>)"

definition encodeLSMTHeader :: "lsmtHeader \<Rightarrow> byte list" where
  "encodeLSMTHeader h =
     (let b = zeros lsmtHeaderSpace;
          b = overwrite b 0 (PutUint64 lsmtMagic0);
          b = overwrite b 8 lsmtMagic1;
          b = overwrite b 24 (PutUint32 (word_of_nat lsmtHeaderSize));
          b = overwrite b 28 (PutUint32 (h_flags h));
          b = overwrite b 32 (PutUint64 (h_indexOffset h));
          b = overwrite b 40 (PutUint64 (h_indexSize h));
          b = overwrite b 48 (PutUint64 (h_virtualSize h));
          b = b[386 := 1]
      in b[387 := 1])"

section \<open>Index entries\<close>

record lsmtMapping =
  m_offset :: "64 word"
  m_length :: "32 word"
  m_moffset :: "64 word"
  m_zeroed :: bool
  m_tag :: "8 word"

definition m_end :: "lsmtMapping \<Rightarrow> 64 word" where
  "m_end m = m_offset m + ucast (m_length m)"

definition parseLSMTMapping :: "byte list \<Rightarrow> lsmtMapping" where
  "parseLSMTMapping b =
     (let low = Uint64 (slice b 0 8); high = Uint64 (slice b 8 16) in
      \<lparr>m_offset = low AND lsmtOffsetMask,
       m_length = ucast (drop_bit 50 low AND lsmtLengthMask),
       m_moffset = high AND lsmtMOffsetMask,
       m_zeroed = (drop_bit 55 high AND 1 \<noteq> 0),
       m_tag = ucast (drop_bit 56 high)\<rparr>)"

definition encodeLSMTMapping :: "lsmtMapping \<Rightarrow> byte list" where
  "encodeLSMTMapping m =
     (let low = (m_offset m AND lsmtOffsetMask) OR push_bit 50 (ucast (m_length m) AND lsmtLengthMask);
          high = m_moffset m AND lsmtMOffsetMask;
          high = (if m_zeroed m then high OR push_bit 55 1 else high);
          high = high OR push_bit 56 (ucast (m_tag m))
      in PutUint64 low @ PutUint64 high)"

text \<open>The fields of an entry fit the bits the format has for them.\<close>

definition mapping_fits :: "lsmtMapping \<Rightarrow> bool" where
  "mapping_fits m \<longleftrightarrow> unat (m_offset m) < 2 ^ 50 \<and> unat (m_length m) < 2 ^ 14
     \<and> unat (m_moffset m) < 2 ^ 55"

section \<open>Opening a layer\<close>

record lsmtLayer =
  l_src :: reader
  l_mappings :: "lsmtMapping list"
  l_virtualSize :: "64 word"

function parse_entries :: "byte list \<Rightarrow> lsmtMapping list" where
  "parse_entries raw =
     (if length raw < lsmtIndexEntrySize then []
      else parseLSMTMapping (take lsmtIndexEntrySize raw) # parse_entries (drop lsmtIndexEntrySize raw))"
  by pat_completeness auto
termination
  by (relation "measure length") (auto simp: lsmt_sizes)

declare parse_entries.simps [simp del]

definition loadLSMTIndex :: "reader \<Rightarrow> lsmtHeader \<Rightarrow> go_error + lsmtMapping list" where
  "loadLSMTIndex src trailer =
     (if h_indexSize trailer = 0 then Inl (Errorf ''lsmt layer has an empty index'' [])
      else if h_indexSize trailer > 2 ^ 26
      then Inl (Errorf ''lsmt index claims %d entries, past the %d limit''
                  [AInt (uint (h_indexSize trailer)), AInt (2 ^ 26)])
      else case read_full src (zeros (unat (h_indexSize trailer) * lsmtIndexEntrySize))
                  (sint (h_indexOffset trailer)) of
          Inl e \<Rightarrow> Inl (Wrapf ''read lsmt index'' [] e)
        | Inr raw \<Rightarrow>
            let mappings = filter (\<lambda>m. \<not> (m_length m = 0 \<or> m_offset m = lsmtInvalidOffset))
                             (parse_entries raw)
            in if mappings = [] then Inl (Errorf ''lsmt index has no usable entries'' [])
               else Inr (sort_slice (\<lambda>a b. m_offset a < m_offset b) mappings))"

definition openLSMTLayer :: "reader \<Rightarrow> int \<Rightarrow> go_error + lsmtLayer" where
  "openLSMTLayer src fileSize =
     (if fileSize < int lsmtHeaderSpace * 2
      then Inl (Errorf ''lsmt layer is %d bytes, too small to hold a header and trailer'' [AInt fileSize])
      else case read_full src (zeros lsmtHeaderSpace) 0 of
        Inl e \<Rightarrow> Inl (Wrapf ''read lsmt header'' [] e)
      | Inr buf \<Rightarrow>
     (case parseLSMTHeader buf of
        Inl e \<Rightarrow> Inl e
      | Inr header \<Rightarrow>
      if \<not> isHeader header
      then Inl (Errorf ''lsmt layer starts with a trailer, not a header'' [])
      else case read_full src buf (fileSize - int lsmtHeaderSpace) of
        Inl e \<Rightarrow> Inl (Wrapf ''read lsmt trailer'' [] e)
      | Inr buf2 \<Rightarrow>
     (case parseLSMTHeader buf2 of
        Inl e \<Rightarrow> Inl e
      | Inr trailer \<Rightarrow>
      if \<not> isTrailer trailer
      then Inl (Errorf ''lsmt layer ends with a header, not a trailer'' [])
      else if \<not> isData trailer
      then Inl (Errorf ''lsmt layer is an index file, not a data file'' [])
      else if \<not> isSealed trailer
      then Inl (Errorf ''lsmt layer is not sealed, so its trailer has no index'' [])
      else case loadLSMTIndex src trailer of
        Inl e \<Rightarrow> Inl e
      | Inr mappings \<Rightarrow>
          Inr \<lparr>l_src = src, l_mappings = mappings, l_virtualSize = h_virtualSize trailer\<rparr>)))"

section \<open>Range lookup\<close>

text \<open>The loop of \<^verbatim>\<open>lookup\<close> from the first mapping that reaches into the query.\<close>

definition clip_mapping :: "64 word \<Rightarrow> 64 word \<Rightarrow> lsmtMapping \<Rightarrow> lsmtMapping" where
  "clip_mapping offset qend m =
     (let m = (if m_offset m < offset
               then let delta = offset - m_offset m in
                    m\<lparr>m_offset := offset, m_length := m_length m - ucast delta,
                      m_moffset := (if m_zeroed m then m_moffset m else m_moffset m + delta)\<rparr>
               else m)
      in if m_end m > qend then m\<lparr>m_length := ucast (qend - m_offset m)\<rparr> else m)"

fun lookup_loop :: "64 word \<Rightarrow> 64 word \<Rightarrow> lsmtMapping list \<Rightarrow> lsmtMapping list" where
  "lookup_loop offset qend [] = []"
| "lookup_loop offset qend (m # ms) =
     (if m_offset m \<ge> qend then []
      else (if m_length (clip_mapping offset qend m) > 0 then [clip_mapping offset qend m] else [])
           @ lookup_loop offset qend ms)"

definition lookup :: "lsmtLayer \<Rightarrow> 64 word \<Rightarrow> 32 word \<Rightarrow> lsmtMapping list" where
  "lookup l offset len =
     (if len = 0 \<or> l_mappings l = [] then []
      else let qend = offset + ucast len;
               i = Search (length (l_mappings l)) (\<lambda>i. m_end (l_mappings l ! i) > offset)
           in lookup_loop offset qend (drop i (l_mappings l)))"

section \<open>The encodings round-trip\<close>

lemma length_lsmtMagic1 [simp]: "length lsmtMagic1 = 16"
  by (simp add: lsmtMagic1_def)

lemma length_encodeLSMTHeader [simp]: "length (encodeLSMTHeader h) = lsmtHeaderSpace"
  by (simp add: encodeLSMTHeader_def Let_def lsmt_sizes)

lemma parse_encode_header: "parseLSMTHeader (encodeLSMTHeader h) = Inr h"
  by (simp add: parseLSMTHeader_def) (simp add: encodeLSMTHeader_def Let_def buf_simps lsmt_sizes)

lemma length_encodeLSMTMapping [simp]: "length (encodeLSMTMapping m) = lsmtIndexEntrySize"
  by (simp add: encodeLSMTMapping_def Let_def lsmt_sizes)

lemma bits_below:
  fixes w :: "'a::len word"
  assumes "unat w < 2 ^ n" "bit w i"
  shows "i < n"
proof -
  have "take_bit n (unat w) = unat w" using assms(1) by (simp add: take_bit_nat_eq_self_iff)
  then have "take_bit n w = w" by (metis unsigned_take_bit_eq unsigned_word_eqI)
  then show ?thesis using assms(2) by (metis bit_take_bit_iff)
qed

lemma entry_low:
  fixes o' :: "64 word" and l :: "32 word"
  assumes "unat o' < 2 ^ 50" "unat l < 2 ^ 14"
  defines "low \<equiv> (o' AND mask 50) OR push_bit 50 (ucast l AND mask 14)"
  shows "low AND mask 50 = o'" "ucast (drop_bit 50 low AND mask 14) = l"
proof -
  note below = bits_below [OF assms(1)] bits_below [OF assms(2)]
  show "low AND mask 50 = o'"
    unfolding low_def by (rule bit_word_eqI) (auto simp: bit_simps dest: below)
  show "ucast (drop_bit 50 low AND mask 14) = l"
    unfolding low_def by (rule bit_word_eqI) (auto simp: bit_simps dest: below)
qed

lemma entry_high:
  fixes p q :: "64 word" and t :: "8 word" and z :: bool
  assumes "unat p < 2 ^ 55" and q: "\<And>i. bit q i \<longleftrightarrow> i = 55"
  defines "high \<equiv> (if z then (p AND mask 55) OR q else p AND mask 55) OR push_bit 56 (ucast t)"
  shows "high AND mask 55 = p" "(drop_bit 55 high AND 1 \<noteq> 0) = z" "ucast (drop_bit 56 high) = t"
proof -
  note below = bits_below [OF assms(1)]
  show "high AND mask 55 = p"
    unfolding high_def by (rule bit_word_eqI) (auto simp: bit_simps q dest: below)
  have "drop_bit 55 high AND 1 = (if bit high 55 then 1 else 0)"
    by (rule bit_word_eqI) (auto simp: bit_simps intro!: gr0I)
  moreover have "bit high 55 = z"
    unfolding high_def by (auto simp: bit_simps q dest: below)
  ultimately show "(drop_bit 55 high AND 1 \<noteq> 0) = z" by simp
  show "ucast (drop_bit 56 high) = t"
    unfolding high_def by (rule bit_word_eqI) (auto simp: bit_simps q dest: below)
qed

lemma parse_encode_mapping:
  assumes "mapping_fits m"
  shows "parseLSMTMapping (encodeLSMTMapping m) = m"
proof -
  have b: "unat (m_offset m) < 2 ^ 50" "unat (m_length m) < 2 ^ 14" "unat (m_moffset m) < 2 ^ 55"
    using assms by (auto simp: mapping_fits_def)
  have q: "bit (push_bit 55 1 :: 64 word) i \<longleftrightarrow> i = 55" for i
    unfolding bit_push_bit_iff bit_1_iff by auto
  have "slice (PutUint64 x @ PutUint64 y) 0 8 = PutUint64 x"
    "slice (PutUint64 x @ PutUint64 y) 8 16 = PutUint64 y" for x y
    by (simp_all add: slice_def)
  then show ?thesis
    using entry_low [OF b(1,2)] entry_high [OF b(3) q, of "m_zeroed m" "m_tag m"]
    by (simp add: parseLSMTMapping_def encodeLSMTMapping_def Let_def lsmt_masks)
qed

text \<open>Whatever is on disk, a parsed entry is within the format's bounds, so its end cannot wrap.\<close>

lemma unat_and_mask_less: "unat (w AND mask n :: 'a::len word) < 2 ^ n"
  by (simp add: take_bit_eq_mask [symmetric] unsigned_take_bit_eq)

lemma parse_fits: "mapping_fits (parseLSMTMapping b)"
proof -
  have "unat (ucast (x AND mask 14) :: 32 word) < 2 ^ 14" for x :: "64 word"
    using unat_and_mask_less [of x 14] by (simp add: unsigned_ucast_eq take_bit_eq_mod)
  then show ?thesis
    using unat_and_mask_less [of "Uint64 (slice b 0 8)" 50] unat_and_mask_less [of "Uint64 (slice b 8 16)" 55]
    by (simp add: mapping_fits_def parseLSMTMapping_def Let_def lsmt_masks)
qed

end
