(* ===== verification/LsmtStack.thy ===== *)
theory LsmtStack
  imports Lsmt
begin

text \<open>
  A chain of read-only layers as one virtual disk
  (\<^verbatim>\<open>src/internal/node/image/lsmtstack.go\<close>): the merge of the layers' indexes in which the
  newer layer wins, and reading through the merged index.
\<close>

section \<open>The merge, as the code does it\<close>

record stackMapping =
  s_offset :: "64 word"
  s_length :: "32 word"
  s_moffset :: "64 word"
  s_zeroed :: bool
  s_layer :: nat

definition s_end :: "stackMapping \<Rightarrow> 64 word" where
  "s_end m = s_offset m + ucast (s_length m)"

record interval =
  iv_start :: "64 word"
  iv_end :: "64 word"

definition sliceMapping :: "lsmtMapping \<Rightarrow> 64 word \<Rightarrow> 64 word \<Rightarrow> nat \<Rightarrow> stackMapping" where
  "sliceMapping m from to layer =
     \<lparr>s_offset = from, s_length = ucast (to - from),
      s_moffset = (if m_zeroed m then m_moffset m else m_moffset m + (from - m_offset m)),
      s_zeroed = m_zeroed m, s_layer = layer\<rparr>"

text \<open>The gaps of a mapping between the claimed ranges from the cursor \<open>j\<close> on.\<close>

fun emit_gaps :: "lsmtMapping \<Rightarrow> nat \<Rightarrow> 64 word \<Rightarrow> 64 word \<Rightarrow> interval list \<Rightarrow> stackMapping list" where
  "emit_gaps m layer pos mend [] = (if pos < mend then [sliceMapping m pos mend layer] else [])"
| "emit_gaps m layer pos mend (c # claimed) =
     (if \<not> pos < mend then []
      else if iv_start c \<ge> mend then [sliceMapping m pos mend layer]
      else (if iv_start c > pos then [sliceMapping m pos (iv_start c) layer] else [])
           @ emit_gaps m layer (if iv_end c > pos then iv_end c else pos) mend claimed)"

text \<open>One layer against the claimed set; \<open>claimed\<close> is the part from the cursor \<open>ci\<close> on.\<close>

fun merge_layer :: "nat \<Rightarrow> interval list \<Rightarrow> lsmtMapping list \<Rightarrow> stackMapping list" where
  "merge_layer layer claimed [] = []"
| "merge_layer layer claimed (m # ms) =
     (let claimed = dropWhile (\<lambda>c. iv_end c \<le> m_offset m) claimed
      in emit_gaps m layer (m_offset m) (m_end m) claimed @ merge_layer layer claimed ms)"

definition mappingIntervals :: "lsmtMapping list \<Rightarrow> interval list" where
  "mappingIntervals ms = map (\<lambda>m. \<lparr>iv_start = m_offset m, iv_end = m_end m\<rparr>) ms"

definition push_interval :: "interval list \<Rightarrow> interval \<Rightarrow> interval list" where
  "push_interval merged next =
     (if merged \<noteq> [] \<and> iv_start next \<le> iv_end (last merged)
      then (if iv_end next > iv_end (last merged)
            then butlast merged @ [(last merged)\<lparr>iv_end := iv_end next\<rparr>] else merged)
      else merged @ [next])"

fun union_loop :: "interval list \<Rightarrow> interval list \<Rightarrow> interval list \<Rightarrow> interval list" where
  "union_loop merged [] [] = merged"
| "union_loop merged (x # a) [] = union_loop (push_interval merged x) a []"
| "union_loop merged [] (y # b) = union_loop (push_interval merged y) [] b"
| "union_loop merged (x # a) (y # b) =
     (if iv_start x \<le> iv_start y then union_loop (push_interval merged x) a (y # b)
      else union_loop (push_interval merged y) (x # a) b)"

definition unionIntervals :: "interval list \<Rightarrow> interval list \<Rightarrow> interval list" where
  "unionIntervals a b = union_loop [] a b"

text \<open>The outer loop; the layers come newest first with their index in the chain.\<close>

fun merge_down :: "(nat \<times> lsmtMapping list) list \<Rightarrow> interval list \<Rightarrow> stackMapping list" where
  "merge_down [] claimed = []"
| "merge_down ((i, ms) # rest) claimed =
     merge_layer i claimed ms @ merge_down rest (unionIntervals claimed (mappingIntervals ms))"

definition mergeLSMTLayers :: "lsmtLayer list \<Rightarrow> stackMapping list" where
  "mergeLSMTLayers layers =
     sort_slice (\<lambda>a b. s_offset a < s_offset b)
       (merge_down (rev (enumerate 0 (map l_mappings layers))) [])"

section \<open>What the index means\<close>

text \<open>
  The backing of a sector in an index: nothing, a run that reads as zeros, or a sector of the
  layer's file.
\<close>

datatype backing = Zeroed | Stored "64 word"

definition m_covers :: "64 word \<Rightarrow> lsmtMapping \<Rightarrow> bool" where
  "m_covers x m \<longleftrightarrow> m_offset m \<le> x \<and> x < m_end m"

definition m_backing :: "64 word \<Rightarrow> lsmtMapping \<Rightarrow> backing" where
  "m_backing x m = (if m_zeroed m then Zeroed else Stored (m_moffset m + (x - m_offset m)))"

definition index_at :: "lsmtMapping list \<Rightarrow> 64 word \<Rightarrow> backing option" where
  "index_at ms x = map_option (m_backing x) (find (m_covers x) ms)"

text \<open>
  A well-formed index: entries within the format's bounds, in order, not overlapping, and stored
  at a file offset (in sectors) that fits a signed 64-bit byte offset.
\<close>

definition index_wf :: "lsmtMapping list \<Rightarrow> bool" where
  "index_wf ms \<longleftrightarrow>
     (\<forall>m \<in> set ms. mapping_fits m \<and> 0 < m_length m \<and> unat (m_moffset m) < 2 ^ 53)
     \<and> sorted_wrt (\<lambda>a b. m_end a \<le> m_offset b) ms"

definition s_covers :: "64 word \<Rightarrow> stackMapping \<Rightarrow> bool" where
  "s_covers x m \<longleftrightarrow> s_offset m \<le> x \<and> x < s_end m"

definition s_backing :: "64 word \<Rightarrow> stackMapping \<Rightarrow> nat \<times> backing" where
  "s_backing x m = (s_layer m, if s_zeroed m then Zeroed else Stored (s_moffset m + (x - s_offset m)))"

definition stack_at :: "stackMapping list \<Rightarrow> 64 word \<Rightarrow> (nat \<times> backing) option" where
  "stack_at ms x = map_option (s_backing x) (find (s_covers x) ms)"

text \<open>The specification of the merge: the newest layer that maps a sector decides.\<close>

fun newest_at :: "(nat \<times> lsmtMapping list) list \<Rightarrow> 64 word \<Rightarrow> (nat \<times> backing) option" where
  "newest_at [] x = None"
| "newest_at ((i, ms) # rest) x =
     (case index_at ms x of Some b \<Rightarrow> Some (i, b) | None \<Rightarrow> newest_at rest x)"

definition stack_wf :: "stackMapping list \<Rightarrow> bool" where
  "stack_wf ms \<longleftrightarrow> sorted_wrt (\<lambda>a b. s_end a \<le> s_offset b) ms
     \<and> (\<forall>m \<in> set ms. s_offset m < s_end m \<and> unat (s_end m) < 2 ^ 51
          \<and> unat (s_moffset m) + unat (s_length m) < 2 ^ 54)"

section \<open>Slices of a mapping\<close>

lemma unat_ucast_32_64 [simp]: "unat (ucast (l :: 32 word) :: 64 word) = unat l"
  using unsigned_less [of l, where ?'a = nat] by (simp add: unsigned_ucast_eq take_bit_nat_eq_self_iff)

lemma unat_m_end: "mapping_fits m \<Longrightarrow> unat (m_end m) = unat (m_offset m) + unat (m_length m)"
  by (simp add: m_end_def mapping_fits_def unat_word_ariths)

lemma ucast_64_32_64:
  fixes x :: "64 word"
  assumes "unat x < 2 ^ 32"
  shows "unat (ucast x :: 32 word) = unat x" "(ucast (ucast x :: 32 word) :: 64 word) = x"
proof -
  show 1: "unat (ucast x :: 32 word) = unat x"
    using assms by (simp add: unsigned_ucast_eq take_bit_nat_eq_self_iff)
  show "(ucast (ucast x :: 32 word) :: 64 word) = x"
    by (rule unsigned_word_eqI [where ?'a = nat]) (simp only: unat_ucast_32_64 1)
qed

lemma unat_minus: "(a :: 64 word) \<le> b \<Longrightarrow> unat (b - a) = unat b - unat a"
  by (simp add: unat_sub word_le_nat_alt)

text \<open>A slice between two points of a mapping ends where it should and keeps the backing.\<close>

lemma slice_mapping:
  assumes fits: "mapping_fits m" and r: "m_offset m \<le> from" "from \<le> to" "to \<le> m_end m"
  shows "s_end (sliceMapping m from to i) = to"
    and "unat (s_length (sliceMapping m from to i)) = unat to - unat from"
    and "s_covers x (sliceMapping m from to i) \<longleftrightarrow> from \<le> x \<and> x < to"
    and "s_backing x (sliceMapping m from to i) = (i, m_backing x m)"
proof -
  have "unat to \<le> unat (m_offset m) + unat (m_length m)"
    using r(3) unat_m_end [OF fits] by (simp add: word_le_nat_alt)
  then have "unat (to - from) < 2 ^ 32"
    using fits r by (auto simp: unat_minus mapping_fits_def word_le_nat_alt)
  note u = ucast_64_32_64 [OF this]
  show e: "s_end (sliceMapping m from to i) = to" by (simp add: s_end_def sliceMapping_def u)
  show "unat (s_length (sliceMapping m from to i)) = unat to - unat from"
    using u(1) r(2) by (simp add: sliceMapping_def unat_minus)
  show "s_covers x (sliceMapping m from to i) \<longleftrightarrow> from \<le> x \<and> x < to"
    unfolding s_covers_def e by (simp add: sliceMapping_def)
  show "s_backing x (sliceMapping m from to i) = (i, m_backing x m)"
    by (simp add: s_backing_def m_backing_def sliceMapping_def)
qed

section \<open>The merge is right\<close>

text \<open>Ranges of sectors, read as the sectors they cover.\<close>

definition iv_covers :: "64 word \<Rightarrow> interval \<Rightarrow> bool" where
  "iv_covers x c \<longleftrightarrow> iv_start c \<le> x \<and> x < iv_end c"

definition claimed_by :: "interval list \<Rightarrow> 64 word \<Rightarrow> bool" where
  "claimed_by cs x \<longleftrightarrow> (\<exists>c \<in> set cs. iv_covers x c)"

definition ivs_wf :: "interval list \<Rightarrow> bool" where
  "ivs_wf cs \<longleftrightarrow> sorted_wrt (\<lambda>a b. iv_end a \<le> iv_start b) cs \<and> (\<forall>c \<in> set cs. iv_start c < iv_end c)"

lemma claimed_by_simps [range_simps]:
  "claimed_by [] x \<longleftrightarrow> False"
  "claimed_by (c # cs) x \<longleftrightarrow> iv_covers x c \<or> claimed_by cs x"
  "claimed_by (cs @ ds) x \<longleftrightarrow> claimed_by cs x \<or> claimed_by ds x"
  by (auto simp: claimed_by_def)

lemma ivs_wf_Cons:
  "ivs_wf (c # cs) \<longleftrightarrow> iv_start c < iv_end c \<and> (\<forall>d \<in> set cs. iv_end c \<le> iv_start d) \<and> ivs_wf cs"
  by (auto simp: ivs_wf_def)

lemma claimed_by_ge:
  assumes "\<forall>d \<in> set cs. y \<le> iv_start d" "claimed_by cs x"
  shows "y \<le> x"
  using assms by (auto simp: claimed_by_def iv_covers_def)

text \<open>A piece of a mapping between two points at or after \<open>lo\<close>.\<close>

definition piece_of :: "lsmtMapping \<Rightarrow> nat \<Rightarrow> 64 word \<Rightarrow> 64 word \<Rightarrow> stackMapping \<Rightarrow> bool" where
  "piece_of m i lo hi s \<longleftrightarrow> (\<exists>from to. s = sliceMapping m from to i \<and> lo \<le> from \<and> from < to \<and> to \<le> hi)"

lemma piece_of_mono: "piece_of m i lo hi s \<Longrightarrow> lo' \<le> lo \<Longrightarrow> hi \<le> hi' \<Longrightarrow> piece_of m i lo' hi' s"
  by (auto simp: piece_of_def) (metis order_trans)

lemma piece_of_range:
  assumes "piece_of m i lo hi s" "mapping_fits m" "m_offset m \<le> lo" "hi \<le> m_end m"
  shows "lo \<le> s_offset s" "s_end s \<le> hi" "s_offset s < s_end s"
    and "s_covers x s \<longleftrightarrow> s_offset s \<le> x \<and> x < s_end s"
    and "s_backing x s = (i, m_backing x m)"
proof -
  obtain a b where s: "s = sliceMapping m a b i" "lo \<le> a" "a < b" "b \<le> hi"
    using assms(1) by (auto simp: piece_of_def)
  have r: "m_offset m \<le> a" "a \<le> b" "b \<le> m_end m" using s assms by order+
  have o: "s_offset s = a" by (simp add: s sliceMapping_def)
  note e = slice_mapping(1) [OF assms(2) r, where i = i, folded s(1)]
    slice_mapping(4) [OF assms(2) r, where i = i and x = x, folded s(1)]
  show "lo \<le> s_offset s" "s_end s \<le> hi" "s_offset s < s_end s" using s o e by simp_all
  show "s_covers x s \<longleftrightarrow> s_offset s \<le> x \<and> x < s_end s" by (simp add: s_covers_def)
  show "s_backing x s = (i, m_backing x m)" using e(2) by simp
qed

lemma emit_gaps_pieces:
  assumes "ivs_wf cs"
  shows "\<forall>s \<in> set (emit_gaps m i pos mend cs). piece_of m i pos mend s"
  using assms
proof (induction m i pos mend cs rule: emit_gaps.induct)
  case (1 m layer pos mend)
  then show ?case by (auto simp: piece_of_def)
next
  case (2 m layer pos mend c claimed)
  let ?pos' = "if iv_end c > pos then iv_end c else pos"
  show ?case
  proof (cases "pos < mend \<and> iv_start c < mend")
    case True
    have "\<forall>s \<in> set (emit_gaps m layer ?pos' mend claimed). piece_of m layer ?pos' mend s"
      using "2.prems" True by (intro "2.IH") (auto simp: ivs_wf_Cons)
    then have "\<forall>s \<in> set (emit_gaps m layer ?pos' mend claimed). piece_of m layer pos mend s"
      by (auto intro: piece_of_mono split: if_splits)
    moreover have "piece_of m layer pos mend (sliceMapping m pos (iv_start c) layer)" if "pos < iv_start c"
      using that True by (auto simp: piece_of_def intro: less_imp_le)
    ultimately show ?thesis using True by auto
  next
    case False
    then show ?thesis by (auto simp: piece_of_def)
  qed
qed

lemma emit_gaps_covers:
  assumes "ivs_wf cs" "mapping_fits m" "m_offset m \<le> pos" "mend \<le> m_end m"
  shows "(\<exists>s \<in> set (emit_gaps m i pos mend cs). s_covers x s) \<longleftrightarrow> pos \<le> x \<and> x < mend \<and> \<not> claimed_by cs x"
  using assms
proof (induction m i pos mend cs rule: emit_gaps.induct)
  case (1 m layer pos mend)
  then show ?case using slice_mapping(3) [of m pos mend] by (auto simp: range_simps)
next
  case (2 m layer pos mend c claimed)
  let ?pos' = "if iv_end c > pos then iv_end c else pos"
  have wf: "ivs_wf claimed" "iv_start c < iv_end c" "\<forall>d \<in> set claimed. iv_end c \<le> iv_start d"
    using "2.prems"(1) by (auto simp: ivs_wf_Cons)
  have later: "claimed_by claimed x \<Longrightarrow> iv_end c \<le> x" using claimed_by_ge [OF wf(3)] .
  consider "\<not> pos < mend" | "pos < mend" "mend \<le> iv_start c" | "pos < mend" "iv_start c < mend" by fastforce
  then show ?case
  proof cases
    case 1
    then show ?thesis by (auto simp: not_less)
  next
    case 2
    have "\<not> claimed_by (c # claimed) x" if "x < mend"
      using that 2 wf(2) later by (auto simp: range_simps iv_covers_def)
    moreover have "s_covers x (sliceMapping m pos mend layer) \<longleftrightarrow> pos \<le> x \<and> x < mend"
      using 2 "2.prems" by (intro slice_mapping) auto
    ultimately show ?thesis using 2 by auto
  next
    case 3
    have IH: "(\<exists>s \<in> set (emit_gaps m layer ?pos' mend claimed). s_covers x s) \<longleftrightarrow>
        ?pos' \<le> x \<and> x < mend \<and> \<not> claimed_by claimed x"
      using 3 wf(1) "2.prems"(2-4) by (intro "2.IH") auto
    have first: "(\<exists>s \<in> set (if iv_start c > pos then [sliceMapping m pos (iv_start c) layer] else []).
        s_covers x s) \<longleftrightarrow> pos \<le> x \<and> x < iv_start c"
      using slice_mapping(3) [of m pos "iv_start c" x layer] "2.prems" 3 by (auto dest: less_le_trans)
    have "(\<exists>s \<in> set (emit_gaps m layer pos mend (c # claimed)). s_covers x s) \<longleftrightarrow>
        (pos \<le> x \<and> x < iv_start c) \<or> (?pos' \<le> x \<and> x < mend \<and> \<not> claimed_by claimed x)"
      using 3 IH first by (auto simp: bex_Un not_le [symmetric])
    also have "\<dots> \<longleftrightarrow> pos \<le> x \<and> x < mend \<and> \<not> claimed_by (c # claimed) x"
      using later wf(2) 3 by (auto simp: range_simps iv_covers_def split: if_splits)
    finally show ?thesis .
  qed
qed

lemma emit_gaps_sorted:
  assumes "ivs_wf cs" "mapping_fits m" "m_offset m \<le> pos" "mend \<le> m_end m"
  shows "sorted_wrt (\<lambda>a b. s_end a \<le> s_offset b) (emit_gaps m i pos mend cs)"
  using assms
proof (induction m i pos mend cs rule: emit_gaps.induct)
  case (2 m layer pos mend c claimed)
  let ?pos' = "if iv_end c > pos then iv_end c else pos"
  have wf: "ivs_wf claimed" "iv_start c < iv_end c" using "2.prems"(1) by (auto simp: ivs_wf_Cons)
  show ?case
  proof (cases "pos < mend \<and> iv_start c < mend")
    case True
    have ge: "iv_start c \<le> s_offset s" if s: "s \<in> set (emit_gaps m layer ?pos' mend claimed)" for s
    proof -
      have "piece_of m layer ?pos' mend s" using emit_gaps_pieces [OF wf(1)] s by blast
      then have "?pos' \<le> s_offset s" using "2.prems" by (intro piece_of_range) auto
      with wf(2) show ?thesis by (auto split: if_splits)
    qed
    have e: "s_end (sliceMapping m pos (iv_start c) layer) = iv_start c" if "pos < iv_start c"
      using "2.prems" True that by (intro slice_mapping) auto
    have "sorted_wrt (\<lambda>a b. s_end a \<le> s_offset b) (emit_gaps m layer ?pos' mend claimed)"
      using True wf(1) "2.prems"(2-4) by (intro "2.IH") auto
    with True ge e show ?thesis by auto
  qed auto
qed auto

text \<open>One layer: its sectors minus the claimed ones, in order, each backed as in the layer.\<close>

lemma index_wf_Cons:
  "index_wf (m # ms) \<longleftrightarrow> mapping_fits m \<and> 0 < m_length m \<and> unat (m_moffset m) < 2 ^ 53
     \<and> (\<forall>m' \<in> set ms. m_end m \<le> m_offset m') \<and> index_wf ms"
  by (auto simp: index_wf_def)

lemma m_offset_less_end: "mapping_fits m \<Longrightarrow> 0 < m_length m \<Longrightarrow> m_offset m < m_end m"
  by (simp add: word_less_nat_alt unat_m_end unat_gt_0)

lemma ivs_wf_dropWhile: "ivs_wf cs \<Longrightarrow> ivs_wf (dropWhile p cs)"
  by (induction cs) (auto simp: ivs_wf_Cons)

lemma claimed_by_dropWhile:
  "y \<le> x \<Longrightarrow> claimed_by (dropWhile (\<lambda>c. iv_end c \<le> y) cs) x \<longleftrightarrow> claimed_by cs x"
  by (induction cs) (auto simp: range_simps iv_covers_def)

lemma merge_layer_pieces:
  assumes "ivs_wf cs" "index_wf ms" "s \<in> set (merge_layer i cs ms)"
  shows "\<exists>m \<in> set ms. piece_of m i (m_offset m) (m_end m) s"
  using assms
proof (induction ms arbitrary: cs)
  case (Cons m ms)
  let ?cs = "dropWhile (\<lambda>c. iv_end c \<le> m_offset m) cs"
  have wf: "ivs_wf ?cs" using Cons.prems(1) by (rule ivs_wf_dropWhile)
  from Cons.prems(3) consider "s \<in> set (emit_gaps m i (m_offset m) (m_end m) ?cs)"
    | "s \<in> set (merge_layer i ?cs ms)" by (auto simp: Let_def)
  then show ?case
  proof cases
    case 1
    then show ?thesis using emit_gaps_pieces [OF wf] by auto
  next
    case 2
    then show ?thesis using Cons.IH [OF wf] Cons.prems(2) by (auto simp: index_wf_Cons)
  qed
qed simp

lemma merge_layer_covers:
  assumes "ivs_wf cs" "index_wf ms"
  shows "(\<exists>s \<in> set (merge_layer i cs ms). s_covers x s) \<longleftrightarrow>
    (\<exists>m \<in> set ms. m_covers x m) \<and> \<not> claimed_by cs x"
  using assms
proof (induction ms arbitrary: cs)
  case (Cons m ms)
  let ?cs = "dropWhile (\<lambda>c. iv_end c \<le> m_offset m) cs"
  have wf: "ivs_wf ?cs" using Cons.prems(1) by (rule ivs_wf_dropWhile)
  have m: "mapping_fits m" "m_offset m < m_end m" "\<forall>m' \<in> set ms. m_end m \<le> m_offset m'" "index_wf ms"
    using Cons.prems(2) m_offset_less_end by (auto simp: index_wf_Cons)
  have gaps: "(\<exists>s \<in> set (emit_gaps m i (m_offset m) (m_end m) ?cs). s_covers x s) \<longleftrightarrow>
      m_covers x m \<and> \<not> claimed_by ?cs x"
    using emit_gaps_covers [OF wf m(1)] by (simp add: m_covers_def conj_assoc)
  have ge: "m_offset m \<le> x" if "m_covers x m \<or> (\<exists>m' \<in> set ms. m_covers x m')"
    using that m(2,3) by (auto simp: m_covers_def)
  show ?case
    using gaps Cons.IH [OF wf m(4)] ge claimed_by_dropWhile [of "m_offset m" x cs]
    by (auto simp: Let_def bex_Un)
qed simp

lemma merge_layer_sorted:
  assumes "ivs_wf cs" "index_wf ms"
  shows "sorted_wrt (\<lambda>a b. s_end a \<le> s_offset b) (merge_layer i cs ms)"
  using assms
proof (induction ms arbitrary: cs)
  case (Cons m ms)
  let ?cs = "dropWhile (\<lambda>c. iv_end c \<le> m_offset m) cs"
  have wf: "ivs_wf ?cs" using Cons.prems(1) by (rule ivs_wf_dropWhile)
  have m: "mapping_fits m" "\<forall>m' \<in> set ms. m_end m \<le> m_offset m'" "index_wf ms"
    using Cons.prems(2) by (auto simp: index_wf_Cons)
  have "s_end a \<le> s_offset b" if a: "a \<in> set (emit_gaps m i (m_offset m) (m_end m) ?cs)"
    and b: "b \<in> set (merge_layer i ?cs ms)" for a b
  proof -
    have "piece_of m i (m_offset m) (m_end m) a" using emit_gaps_pieces [OF wf] a by blast
    then have "s_end a \<le> m_end m" using m(1) by (intro piece_of_range) auto
    moreover obtain m' where m': "m' \<in> set ms" "piece_of m' i (m_offset m') (m_end m') b"
      using merge_layer_pieces [OF wf m(3) b] by blast
    then have "m_offset m' \<le> s_offset b"
      using m(3) by (intro piece_of_range) (auto simp: index_wf_def)
    ultimately show ?thesis using m(2) m'(1) by force
  qed
  then show ?case
    using emit_gaps_sorted [OF wf m(1)] Cons.IH [OF wf m(3)] by (simp add: Let_def sorted_wrt_append)
qed simp

text \<open>The union of two range lists.\<close>

lemma push_interval:
  assumes wf: "ivs_wf merged" and nx: "iv_start next < iv_end next"
    and after: "merged \<noteq> [] \<Longrightarrow> iv_start (last merged) \<le> iv_start next"
  shows "ivs_wf (push_interval merged next)"
    and "claimed_by (push_interval merged next) x \<longleftrightarrow> claimed_by merged x \<or> iv_covers x next"
    and "push_interval merged next \<noteq> [] \<and> iv_start (last (push_interval merged next)) \<le> iv_start next"
proof -
  have "ivs_wf (push_interval merged next)
    \<and> (claimed_by (push_interval merged next) x \<longleftrightarrow> claimed_by merged x \<or> iv_covers x next)
    \<and> push_interval merged next \<noteq> [] \<and> iv_start (last (push_interval merged next)) \<le> iv_start next"
  proof (cases merged rule: rev_cases)
    case Nil
    with nx show ?thesis by (simp add: push_interval_def ivs_wf_def range_simps)
  next
    case (snoc init l)
    have l: "iv_start l < iv_end l" "iv_start l \<le> iv_start next" "\<forall>c \<in> set init. iv_end c \<le> iv_start l"
      "sorted_wrt (\<lambda>a b. iv_end a \<le> iv_start b) init" "\<forall>c \<in> set init. iv_start c < iv_end c"
      using wf after by (auto simp: snoc ivs_wf_def sorted_wrt_append)
    consider "iv_start next \<le> iv_end l" "iv_end l < iv_end next"
      | "iv_start next \<le> iv_end l" "iv_end next \<le> iv_end l" | "iv_end l < iv_start next" by fastforce
    then show ?thesis
    proof cases
      case 1
      with l nx show ?thesis
        by (auto simp: push_interval_def snoc ivs_wf_def sorted_wrt_append range_simps iv_covers_def)
    next
      case 2
      with l nx show ?thesis
        by (auto simp: push_interval_def snoc ivs_wf_def sorted_wrt_append range_simps iv_covers_def)
    next
      case 3
      have "iv_end c \<le> iv_start next" if "c \<in> set init" for c using l(1,3) 3 that by force
      with 3 l nx show ?thesis
        by (auto simp: push_interval_def snoc ivs_wf_def sorted_wrt_append range_simps iv_covers_def)
    qed
  qed
  then show "ivs_wf (push_interval merged next)"
    "claimed_by (push_interval merged next) x \<longleftrightarrow> claimed_by merged x \<or> iv_covers x next"
    "push_interval merged next \<noteq> [] \<and> iv_start (last (push_interval merged next)) \<le> iv_start next"
    by blast+
qed

lemma union_loop:
  assumes "ivs_wf merged" "ivs_wf a" "ivs_wf b"
    and "merged \<noteq> [] \<Longrightarrow> \<forall>c \<in> set a \<union> set b. iv_start (last merged) \<le> iv_start c"
  shows "ivs_wf (union_loop merged a b)
    \<and> (claimed_by (union_loop merged a b) x \<longleftrightarrow> claimed_by merged x \<or> claimed_by a x \<or> claimed_by b x)"
  using assms
proof (induction merged a b rule: union_loop.induct)
  case (1 merged)
  then show ?case by (simp add: range_simps)
next
  case (2 merged y a)
  have y: "iv_start y < iv_end y" "\<forall>c \<in> set a. iv_start y \<le> iv_start c" "ivs_wf a"
    using "2.prems"(2) by (auto simp: ivs_wf_Cons)
  have push: "iv_start (last merged) \<le> iv_start y" if "merged \<noteq> []" using "2.prems"(4) that by simp
  note p = push_interval [OF "2.prems"(1) y(1) push]
  show ?case
    using "2.IH" [OF p(1) y(3) "2.prems"(3)] p y(2) by (auto simp: range_simps intro: order_trans)
next
  case (3 merged y b)
  have y: "iv_start y < iv_end y" "\<forall>c \<in> set b. iv_start y \<le> iv_start c" "ivs_wf b"
    using "3.prems"(3) by (auto simp: ivs_wf_Cons)
  have push: "iv_start (last merged) \<le> iv_start y" if "merged \<noteq> []" using "3.prems"(4) that by simp
  note p = push_interval [OF "3.prems"(1) y(1) push]
  show ?case
    using "3.IH" [OF p(1) "3.prems"(2) y(3)] p y(2) by (auto simp: range_simps intro: order_trans)
next
  case (4 merged v a y b)
  have v: "iv_start v < iv_end v" "\<forall>c \<in> set a. iv_start v \<le> iv_start c" "ivs_wf a"
    using "4.prems"(2) by (auto simp: ivs_wf_Cons)
  have y: "iv_start y < iv_end y" "\<forall>c \<in> set b. iv_start y \<le> iv_start c" "ivs_wf b"
    using "4.prems"(3) by (auto simp: ivs_wf_Cons)
  show ?case
  proof (cases "iv_start v \<le> iv_start y")
    case True
    have push: "iv_start (last merged) \<le> iv_start v" if "merged \<noteq> []" using "4.prems"(4) that by simp
    note p = push_interval [OF "4.prems"(1) v(1) push]
    have "\<forall>c \<in> set a \<union> set (y # b). iv_start (last (push_interval merged v)) \<le> iv_start c"
      using p(3) v(2) y(2) True by (auto intro: order_trans)
    with "4.IH"(1) [OF True p(1) v(3) "4.prems"(3)] p(2) True show ?thesis by (auto simp: range_simps)
  next
    case False
    have push: "iv_start (last merged) \<le> iv_start y" if "merged \<noteq> []" using "4.prems"(4) that by simp
    note p = push_interval [OF "4.prems"(1) y(1) push]
    have "\<forall>c \<in> set (v # a) \<union> set b. iv_start (last (push_interval merged y)) \<le> iv_start c"
      using p(3) v(2) y(2) False by (auto intro: order_trans)
    with "4.IH"(2) [OF False p(1) "4.prems"(2) y(3)] p(2) False show ?thesis by (auto simp: range_simps)
  qed
qed

lemma unionIntervals:
  assumes "ivs_wf a" "ivs_wf b"
  shows "ivs_wf (unionIntervals a b)"
    "claimed_by (unionIntervals a b) x \<longleftrightarrow> claimed_by a x \<or> claimed_by b x"
  using union_loop [of "[]" a b x] assms by (auto simp: unionIntervals_def range_simps ivs_wf_def)

lemma mappingIntervals:
  assumes "index_wf ms"
  shows "ivs_wf (mappingIntervals ms)"
    "claimed_by (mappingIntervals ms) x \<longleftrightarrow> (\<exists>m \<in> set ms. m_covers x m)"
  using assms m_offset_less_end
  by (auto simp: mappingIntervals_def ivs_wf_def index_wf_def sorted_wrt_map claimed_by_def iv_covers_def
      m_covers_def)

lemma sorted_wrt_pair:
  "sorted_wrt r xs \<Longrightarrow> a \<in> set xs \<Longrightarrow> b \<in> set xs \<Longrightarrow> a = b \<or> r a b \<or> r b a"
  by (induction xs) auto

text \<open>Looking a sector up in an index whose runs do not overlap.\<close>

lemma find_covering:
  assumes "\<And>a b. a \<in> set xs \<Longrightarrow> b \<in> set xs \<Longrightarrow> p a \<Longrightarrow> p b \<Longrightarrow> f a = f b"
  shows "map_option f (find p xs) = Some y \<longleftrightarrow> (\<exists>a \<in> set xs. p a \<and> f a = y)"
proof (cases "find p xs")
  case None
  then have "\<forall>x \<in> set xs. \<not> p x" by (auto simp: find_None_iff)
  with None show ?thesis by simp
next
  case (Some v)
  then have v: "v \<in> set xs" "p v" by (auto simp: find_Some_iff)
  have "f v = y \<longleftrightarrow> (\<exists>a \<in> set xs. p a \<and> f a = y)"
  proof
    assume "\<exists>a \<in> set xs. p a \<and> f a = y"
    then obtain a where a: "a \<in> set xs" "p a" "f a = y" by blast
    from assms [OF a(1) v(1) a(2) v(2)] a(3) show "f v = y" by simp
  next
    assume "f v = y"
    with v show "\<exists>a \<in> set xs. p a \<and> f a = y" by auto
  qed
  with Some show ?thesis by simp
qed

lemma index_unique:
  assumes "index_wf ms" "a \<in> set ms" "b \<in> set ms" "m_covers x a" "m_covers x b"
  shows "a = b"
proof -
  have "a = b \<or> m_end a \<le> m_offset b \<or> m_end b \<le> m_offset a"
    using assms(1-3) by (intro sorted_wrt_pair [where xs = ms]) (auto simp: index_wf_def)
  with assms(4,5) show ?thesis by (auto simp: m_covers_def)
qed

lemma index_at_Some:
  assumes "index_wf ms"
  shows "index_at ms x = Some b \<longleftrightarrow> (\<exists>m \<in> set ms. m_covers x m \<and> m_backing x m = b)"
  unfolding index_at_def
proof (rule find_covering)
  fix a c assume "a \<in> set ms" "c \<in> set ms" "m_covers x a" "m_covers x c"
  then have "a = c" by (rule index_unique [OF assms])
  then show "m_backing x a = m_backing x c" by simp
qed

lemma index_at_None: "index_at ms x = None \<longleftrightarrow> (\<forall>m \<in> set ms. \<not> m_covers x m)"
  by (auto simp: index_at_def find_None_iff)

text \<open>The whole merge, before the final sort: the newest unclaimed layer decides.\<close>

lemma merge_down_backing:
  assumes "ivs_wf cs" "\<forall>(i, ms) \<in> set ls. index_wf ms"
  shows "(\<exists>s \<in> set (merge_down ls cs). s_covers x s \<and> s_backing x s = b) \<longleftrightarrow>
    \<not> claimed_by cs x \<and> newest_at ls x = Some b"
  using assms
proof (induction ls cs rule: merge_down.induct)
  case (2 i ms rest cs)
  have wf: "index_wf ms" "\<forall>(i, ms) \<in> set rest. index_wf ms" using "2.prems"(2) by auto
  let ?cs = "unionIntervals cs (mappingIntervals ms)"
  note mi = mappingIntervals [OF wf(1)]
  note un = unionIntervals [OF "2.prems"(1) mi(1)]
  have here: "s_backing x s = (i, m_backing x m)" if s: "s \<in> set (merge_layer i cs ms)" "s_covers x s"
    and m: "m \<in> set ms" "m_covers x m" for s m
  proof -
    obtain m' where m': "m' \<in> set ms" "piece_of m' i (m_offset m') (m_end m') s"
      using merge_layer_pieces [OF "2.prems"(1) wf(1) s(1)] by blast
    have fits: "mapping_fits m'" using m'(1) wf(1) by (auto simp: index_wf_def)
    note r = piece_of_range [OF m'(2) fits order_refl order_refl]
    have "s_offset s \<le> x" "x < s_end s" using s(2) by (simp_all add: s_covers_def)
    with r(1,2) have "m_covers x m'" unfolding m_covers_def by (intro conjI; order)
    then have "m' = m" using index_unique [OF wf(1)] m m'(1) by blast
    with r(5) show ?thesis by simp
  qed
  have layer: "(\<exists>s \<in> set (merge_layer i cs ms). s_covers x s \<and> s_backing x s = b) \<longleftrightarrow>
      \<not> claimed_by cs x \<and> (\<exists>m \<in> set ms. m_covers x m \<and> (i, m_backing x m) = b)"
    (is "?L \<longleftrightarrow> ?R")
  proof
    assume ?L
    then obtain s where s: "s \<in> set (merge_layer i cs ms)" "s_covers x s" "s_backing x s = b" by blast
    then obtain m where "m \<in> set ms" "m_covers x m" "\<not> claimed_by cs x"
      using merge_layer_covers [OF "2.prems"(1) wf(1), of i x] by blast
    with here [OF s(1,2)] s(3) show ?R by auto
  next
    assume ?R
    then obtain m where m: "m \<in> set ms" "m_covers x m" "(i, m_backing x m) = b" "\<not> claimed_by cs x" by blast
    then obtain s where "s \<in> set (merge_layer i cs ms)" "s_covers x s"
      using merge_layer_covers [OF "2.prems"(1) wf(1), of i x] by blast
    with here [OF _ _ m(1,2)] m(3) show ?L by auto
  qed
  have rest: "(\<exists>s \<in> set (merge_down rest ?cs). s_covers x s \<and> s_backing x s = b) \<longleftrightarrow>
      \<not> claimed_by cs x \<and> (\<forall>m \<in> set ms. \<not> m_covers x m) \<and> newest_at rest x = Some b"
    using "2.IH" [OF un(1) wf(2)] un(2) mi(2) by auto
  show ?case
  proof (cases "index_at ms x")
    case None
    then have "\<forall>m \<in> set ms. \<not> m_covers x m" by (simp add: index_at_None)
    with layer rest None show ?thesis by (auto simp: bex_Un)
  next
    case (Some c)
    then obtain m where m: "m \<in> set ms" "m_covers x m" "m_backing x m = c"
      using index_at_Some [OF wf(1)] by blast
    then have "(\<exists>m \<in> set ms. m_covers x m \<and> (i, m_backing x m) = b) \<longleftrightarrow> b = (i, c)"
      using index_unique [OF wf(1)] by blast
    with layer rest m Some show ?thesis by (auto simp: bex_Un)
  qed
qed simp

text \<open>No two runs of the merge overlap, and all stay within the bounds of their layer's index.\<close>

definition s_overlap :: "stackMapping \<Rightarrow> stackMapping \<Rightarrow> bool" where
  "s_overlap a b \<longleftrightarrow> (\<exists>x. s_covers x a \<and> s_covers x b)"

lemma merge_down_pieces:
  assumes "ivs_wf cs" "\<forall>(i, ms) \<in> set ls. index_wf ms" "s \<in> set (merge_down ls cs)"
  shows "\<exists>i ms m. (i, ms) \<in> set ls \<and> m \<in> set ms \<and> piece_of m i (m_offset m) (m_end m) s"
  using assms
proof (induction ls cs rule: merge_down.induct)
  case (2 i ms rest cs)
  have wf: "index_wf ms" "\<forall>(i, ms) \<in> set rest. index_wf ms" using "2.prems"(2) by auto
  note un = unionIntervals(1) [OF "2.prems"(1) mappingIntervals(1) [OF wf(1)]]
  from "2.prems"(3) consider "s \<in> set (merge_layer i cs ms)"
    | "s \<in> set (merge_down rest (unionIntervals cs (mappingIntervals ms)))" by auto
  then show ?case
  proof cases
    case 1
    from merge_layer_pieces [OF "2.prems"(1) wf(1) 1] obtain m where
      "m \<in> set ms" "piece_of m i (m_offset m) (m_end m) s" by blast
    then show ?thesis by (intro exI [of _ i] exI [of _ ms] exI [of _ m]) simp
  next
    case 2
    from "2.IH" [OF un wf(2) 2] obtain j ns m where
      "(j, ns) \<in> set rest" "m \<in> set ns" "piece_of m j (m_offset m) (m_end m) s" by blast
    then show ?thesis by (intro exI [of _ j] exI [of _ ns] exI [of _ m]) simp
  qed
qed simp

lemma piece_bounds:
  assumes "piece_of m i (m_offset m) (m_end m) s" "mapping_fits m" "unat (m_moffset m) < 2 ^ 53"
  shows "s_offset s < s_end s \<and> unat (s_end s) < 2 ^ 51 \<and> unat (s_moffset s) + unat (s_length s) < 2 ^ 54"
proof -
  obtain a b where s: "s = sliceMapping m a b i" "m_offset m \<le> a" "a < b" "b \<le> m_end m"
    using assms(1) by (auto simp: piece_of_def)
  then have r: "m_offset m \<le> a" "a \<le> b" "b \<le> m_end m" by auto
  have me: "unat (m_end m) = unat (m_offset m) + unat (m_length m)" using assms(2) by (rule unat_m_end)
  have b: "unat a \<le> unat b" "unat b \<le> unat (m_end m)" "unat (m_offset m) \<le> unat a"
    using r by (simp_all add: word_le_nat_alt)
  have fits: "unat (m_offset m) < 2 ^ 50" "unat (m_length m) < 2 ^ 14"
    using assms(2) by (auto simp: mapping_fits_def)
  have e: "s_end s = b" "unat (s_length s) = unat b - unat a"
    using slice_mapping(1,2) [OF assms(2) r] s(1) by simp_all
  have "unat (a - m_offset m) < 2 ^ 14" using b me fits r(1) by (auto simp: unat_minus)
  then have "unat (m_moffset m + (a - m_offset m)) = unat (m_moffset m) + unat (a - m_offset m)"
    using assms(3) by (simp add: unat_word_ariths)
  then have "unat (s_moffset s) < 2 ^ 53 + 2 ^ 14"
    using assms(3) \<open>unat (a - m_offset m) < 2 ^ 14\<close> s(1) by (simp add: sliceMapping_def)
  moreover have "unat (s_length s) < 2 ^ 14" using e(2) b me fits by auto
  moreover have "unat (s_end s) < 2 ^ 51" using e(1) b me fits by auto
  moreover have "s_offset s < s_end s" using s e(1) by (simp add: sliceMapping_def)
  ultimately show ?thesis by auto
qed

lemma merge_down_disjoint:
  assumes "ivs_wf cs" "\<forall>(i, ms) \<in> set ls. index_wf ms"
  shows "sorted_wrt (\<lambda>a b. \<not> s_overlap a b) (merge_down ls cs)"
  using assms
proof (induction ls cs rule: merge_down.induct)
  case (2 i ms rest cs)
  have wf: "index_wf ms" "\<forall>(i, ms) \<in> set rest. index_wf ms" using "2.prems"(2) by auto
  let ?cs = "unionIntervals cs (mappingIntervals ms)"
  note mi = mappingIntervals [OF wf(1)]
  note un = unionIntervals [OF "2.prems"(1) mi(1)]
  have "sorted_wrt (\<lambda>a b. \<not> s_overlap a b) (merge_layer i cs ms)"
    using merge_layer_sorted [OF "2.prems"(1) wf(1)]
    by (rule sorted_wrt_mono_rel [rotated]) (auto simp: s_overlap_def s_covers_def)
  moreover have "\<not> s_overlap a b" if a: "a \<in> set (merge_layer i cs ms)" and b: "b \<in> set (merge_down rest ?cs)" for a b
  proof
    assume "s_overlap a b"
    then obtain x where x: "s_covers x a" "s_covers x b" by (auto simp: s_overlap_def)
    from x(1) a have "\<exists>m \<in> set ms. m_covers x m"
      using merge_layer_covers [OF "2.prems"(1) wf(1), of i x] by blast
    moreover from x(2) b have "\<not> claimed_by ?cs x"
      using merge_down_backing [OF un(1) wf(2), of x "s_backing x b"] by blast
    ultimately show False using un(2) mi(2) by blast
  qed
  ultimately show ?case using "2.IH" [OF un(1) wf(2)] by (simp add: sorted_wrt_append)
qed simp

lemma disjoint_distinct:
  assumes "sorted_wrt (\<lambda>a b. \<not> s_overlap a b) xs" "\<forall>s \<in> set xs. s_offset s < s_end s"
  shows "distinct xs" "a \<in> set xs \<Longrightarrow> b \<in> set xs \<Longrightarrow> a \<noteq> b \<Longrightarrow> \<not> s_overlap a b"
proof -
  have self: "s_overlap s s" if "s_offset s < s_end s" for s
    using that by (auto simp: s_overlap_def s_covers_def intro: exI [of _ "s_offset s"])
  show "distinct xs" using assms by (induction xs) (auto dest: self)
  show "\<not> s_overlap a b" if "a \<in> set xs" "b \<in> set xs" "a \<noteq> b"
  proof -
    have "s_overlap b a = s_overlap a b" by (auto simp: s_overlap_def)
    with sorted_wrt_pair [OF assms(1) that(1,2)] that(3) show ?thesis by blast
  qed
qed

lemma sorted_wrt_distinct: "sorted_wrt r xs \<Longrightarrow> distinct xs \<Longrightarrow> sorted_wrt (\<lambda>a b. r a b \<and> a \<noteq> b) xs"
  by (induction xs) auto

lemma sort_disjoint:
  assumes dis: "sorted_wrt (\<lambda>a b. \<not> s_overlap a b) xs" and pos: "\<forall>s \<in> set xs. s_offset s < s_end s"
  shows "sorted_wrt (\<lambda>a b. s_end a \<le> s_offset b) (sort_slice (\<lambda>a b. s_offset a < s_offset b) xs)"
proof -
  let ?ys = "sort_slice (\<lambda>a b. s_offset a < s_offset b) xs"
  have "sorted_wrt (\<lambda>a b. s_offset a \<le> s_offset b) ?ys"
    using sorted_sort_slice_key [of s_offset xs] by (simp add: sorted_map)
  moreover have "distinct ?ys" using disjoint_distinct(1) [OF dis pos] by simp
  ultimately have "sorted_wrt (\<lambda>a b. s_offset a \<le> s_offset b \<and> a \<noteq> b) ?ys"
    by (rule sorted_wrt_distinct)
  then show ?thesis
  proof (rule sorted_wrt_mono_rel [rotated])
    fix a b assume ab: "a \<in> set ?ys" "b \<in> set ?ys" "s_offset a \<le> s_offset b \<and> a \<noteq> b"
    then have "\<not> s_overlap a b" using disjoint_distinct(2) [OF dis pos, of a b] by simp
    then have "\<not> s_covers (s_offset b) a \<or> \<not> s_covers (s_offset b) b" by (auto simp: s_overlap_def)
    with ab pos show "s_end a \<le> s_offset b" by (auto simp: s_covers_def not_less)
  qed
qed

text \<open>The layers of a chain, newest first, with their position in the chain.\<close>

definition chain :: "lsmtLayer list \<Rightarrow> (nat \<times> lsmtMapping list) list" where
  "chain layers = rev (enumerate 0 (map l_mappings layers))"

lemma chain_wf: "\<forall>l \<in> set layers. index_wf (l_mappings l) \<Longrightarrow> \<forall>(i, ms) \<in> set (chain layers). index_wf ms"
  by (auto simp: chain_def in_set_enumerate_eq)

lemma chain_index: "(i, ms) \<in> set (chain layers) \<Longrightarrow> i < length layers"
  by (auto simp: chain_def in_set_enumerate_eq)

lemma stack_at_Some:
  assumes "stack_wf ms"
  shows "stack_at ms x = Some b \<longleftrightarrow> (\<exists>m \<in> set ms. s_covers x m \<and> s_backing x m = b)"
  unfolding stack_at_def
proof (rule find_covering)
  fix a c assume ac: "a \<in> set ms" "c \<in> set ms" "s_covers x a" "s_covers x c"
  have "a = c \<or> s_end a \<le> s_offset c \<or> s_end c \<le> s_offset a"
    using assms ac(1,2) by (intro sorted_wrt_pair [where xs = ms]) (auto simp: stack_wf_def)
  with ac(3,4) have "a = c" by (auto simp: s_covers_def)
  then show "s_backing x a = s_backing x c" by simp
qed

lemma merge_wf:
  assumes "\<forall>l \<in> set layers. index_wf (l_mappings l)"
  shows "stack_wf (mergeLSMTLayers layers)"
    and "\<forall>m \<in> set (mergeLSMTLayers layers). s_layer m < length layers"
proof -
  have wf: "\<forall>(i, ms) \<in> set (chain layers). index_wf ms" "ivs_wf []"
    using chain_wf [OF assms] by (auto simp: ivs_wf_def)
  let ?out = "merge_down (chain layers) []"
  have out: "mergeLSMTLayers layers = sort_slice (\<lambda>a b. s_offset a < s_offset b) ?out"
    by (simp add: mergeLSMTLayers_def chain_def)
  have b: "(s_offset s < s_end s \<and> unat (s_end s) < 2 ^ 51 \<and> unat (s_moffset s) + unat (s_length s) < 2 ^ 54)
      \<and> s_layer s < length layers" if s: "s \<in> set ?out" for s
  proof -
    obtain i ms m where m: "(i, ms) \<in> set (chain layers)" "m \<in> set ms"
      "piece_of m i (m_offset m) (m_end m) s"
      using merge_down_pieces [OF wf(2,1) s] by blast
    then have "mapping_fits m" "unat (m_moffset m) < 2 ^ 53" using wf(1) by (auto simp: index_wf_def)
    note pb = piece_bounds [OF m(3) this]
    have "s_layer s = i" using m(3) by (auto simp: piece_of_def sliceMapping_def)
    with pb chain_index [OF m(1)] show ?thesis by blast
  qed
  then have pos: "\<forall>s \<in> set ?out. s_offset s < s_end s" by blast
  have srt: "sorted_wrt (\<lambda>a b. s_end a \<le> s_offset b) (mergeLSMTLayers layers)"
    unfolding out by (rule sort_disjoint [OF merge_down_disjoint [OF wf(2,1)] pos])
  have set_out: "set (mergeLSMTLayers layers) = set ?out" by (simp add: out)
  show "stack_wf (mergeLSMTLayers layers)" unfolding stack_wf_def set_out using srt b by blast
  show "\<forall>m \<in> set (mergeLSMTLayers layers). s_layer m < length layers" unfolding set_out using b by blast
qed

lemma option_eqI: "(\<And>b. u = Some b \<longleftrightarrow> v = Some b) \<Longrightarrow> u = v"
  by (cases u; cases v) auto

lemma merge_newest:
  assumes "\<forall>l \<in> set layers. index_wf (l_mappings l)"
  shows "stack_at (mergeLSMTLayers layers) x = newest_at (chain layers) x"
proof -
  have wf: "\<forall>(i, ms) \<in> set (chain layers). index_wf ms" "ivs_wf []"
    using chain_wf [OF assms] by (auto simp: ivs_wf_def)
  have "stack_at (mergeLSMTLayers layers) x = Some b \<longleftrightarrow> newest_at (chain layers) x = Some b" for b
  proof -
    have "set (mergeLSMTLayers layers) = set (merge_down (chain layers) [])"
      by (simp add: mergeLSMTLayers_def chain_def)
    then show ?thesis
      using stack_at_Some [OF merge_wf(1) [OF assms], of x b] merge_down_backing [OF wf(2,1), of x b]
      by (simp add: range_simps)
  qed
  then show ?thesis by (rule option_eqI)
qed

end
