(* ===== verification/StackRead.thy ===== *)
theory StackRead
  imports LsmtStack
begin

text \<open>
  Reading a chain of layers as one disk (\<^verbatim>\<open>lsmtStack.ReadAt\<close> in
  \<^verbatim>\<open>src/internal/node/image/lsmtstack.go\<close>): the request is widened to sectors, the merged index
  is searched, and every run is read from its layer. Byte positions are signed 64-bit integers,
  with the wrap-around of the conversions from sectors written out.
\<close>

section \<open>The reader\<close>

record lsmtStack =
  st_mappings :: "stackMapping list"
  st_layers :: "reader list"
  st_virtualSize :: int
  st_remote :: bool

definition i64 :: "int \<Rightarrow> int" where
  "i64 x = signed_take_bit 63 x"

text \<open>
  The part of a run that a request of \<open>len\<close> bytes at \<open>off\<close> reads: where it lands in the caller's
  buffer, how long it is, and where it is in the layer; \<open>None\<close> if there is nothing to read.
\<close>

definition clip_run ::
  "64 word \<Rightarrow> 64 word \<Rightarrow> int \<Rightarrow> int \<Rightarrow> stackMapping \<Rightarrow> (int \<times> int \<times> int) option" where
  "clip_run startSector endSector off len m =
     (let from = s_offset m; to = s_end m; moff = s_moffset m;
          (from, moff) = (if from < startSector then (startSector, moff + (startSector - from))
                          else (from, moff));
          to = (if to > endSector then endSector else to)
      in if from \<ge> to then None
         else let virtByte = i64 (sint from * int lsmtAlignment);
                  physByte = i64 (sint moff * int lsmtAlignment);
                  n = i64 (sint (to - from) * int lsmtAlignment);
                  dstStart = i64 (virtByte - off);
                  (dstStart, physByte, n) =
                    (if dstStart < 0 then (0, i64 (physByte + - dstStart), i64 (n - - dstStart))
                     else (dstStart, physByte, n))
              in if dstStart \<ge> len \<or> n \<le> 0 then None
                 else Some (dstStart, if i64 (dstStart + n) > len then len - dstStart else n, physByte))"

text \<open>The loop over the merged index from the first run that reaches into the request.\<close>

fun read_runs ::
  "reader list \<Rightarrow> 64 word \<Rightarrow> 64 word \<Rightarrow> int \<Rightarrow> stackMapping list \<Rightarrow> byte list \<Rightarrow> go_error + byte list" where
  "read_runs layers startSector endSector off [] p = Inr p"
| "read_runs layers startSector endSector off (m # ms) p =
     (if s_offset m \<ge> endSector then Inr p
      else if s_zeroed m then read_runs layers startSector endSector off ms p
      else case clip_run startSector endSector off (int (length p)) m of
          None \<Rightarrow> read_runs layers startSector endSector off ms p
        | Some (dstStart, n, physByte) \<Rightarrow>
            if \<not> s_layer m < length layers then Inl (Errorf ''index out of range'' [])
            else case (layers ! s_layer m) (nat n) physByte of
                (bs, err) \<Rightarrow>
                  if (case err of None \<Rightarrow> False | Some e \<Rightarrow> \<not> isEOF e)
                  then Inl (Wrapf ''read layer %d at %d'' [AInt (int (s_layer m)), AInt physByte] (the err))
                  else read_runs layers startSector endSector off ms
                         (overwrite p (nat dstStart) (bs @ zeros (nat n - length bs))))"

definition lsmtStack_ReadAt :: "lsmtStack \<Rightarrow> reader" where
  "lsmtStack_ReadAt s len off =
     (if off < 0 then ([], Some (Errorf ''lsmt stack read at a negative offset'' []))
      else if off \<ge> st_virtualSize s then ([], Some EOF)
      else let len = (if int len > st_virtualSize s - off then nat (st_virtualSize s - off) else len);
               startSector = word_of_int off div word_of_nat lsmtAlignment;
               endSector = (word_of_int off + word_of_nat len + word_of_nat lsmtAlignment - 1)
                             div word_of_nat lsmtAlignment;
               ms = st_mappings s;
               i = Search (length ms) (\<lambda>i. s_end (ms ! i) > startSector)
           in case read_runs (st_layers s) startSector endSector off (drop i ms) (zeros len) of
                Inl e \<Rightarrow> ([], Some e)
              | Inr p \<Rightarrow> (p, None))"

section \<open>The disk a stack presents\<close>

text \<open>A byte of a layer's file, zero past its end.\<close>

definition file_byte :: "byte list \<Rightarrow> nat \<Rightarrow> byte" where
  "file_byte f k = (if k < length f then f ! k else 0)"

definition backing_byte :: "byte list list \<Rightarrow> (nat \<times> backing) option \<Rightarrow> nat \<Rightarrow> byte" where
  "backing_byte files b k =
     (case b of
        Some (i, Stored x) \<Rightarrow> file_byte (files ! i) (unat x * lsmtAlignment + k)
      | _ \<Rightarrow> 0)"

definition stack_byte :: "byte list list \<Rightarrow> stackMapping list \<Rightarrow> nat \<Rightarrow> byte" where
  "stack_byte files ms k =
     backing_byte files (stack_at ms (word_of_nat (k div lsmtAlignment))) (k mod lsmtAlignment)"

definition stack_content :: "byte list list \<Rightarrow> lsmtStack \<Rightarrow> byte list" where
  "stack_content files s = map (stack_byte files (st_mappings s)) [0..<nat (st_virtualSize s)]"

section \<open>Clipping a run\<close>

lemma i64_id: "- (2 ^ 63) \<le> x \<Longrightarrow> x < 2 ^ 63 \<Longrightarrow> i64 x = x"
  by (simp add: i64_def signed_take_bit_int_eq_self_iff)

lemma sint_small:
  assumes "unat (w :: 64 word) < 2 ^ 63"
  shows "sint w = int (unat w)"
proof -
  have u: "uint w = int (unat w)" by simp
  have "int (unat w) < 2 ^ 63"
    using assms by (simp only: of_nat_less_iff [symmetric, where ?'a = int] of_nat_power of_nat_numeral)
  then have "0 \<le> uint w" "uint w < 2 ^ 63" unfolding u by simp_all
  then have "signed_take_bit 63 (uint w) = uint w"
    by (subst signed_take_bit_int_eq_self_iff) linarith
  then show ?thesis unfolding u by (simp add: sint_uint)
qed

lemma mod_no_wrap: "(a + b) mod M = e \<Longrightarrow> a < e \<Longrightarrow> a < M \<Longrightarrow> b < M \<Longrightarrow> e = a + b" for a b :: nat
  by (cases "a + b < M") (auto simp: le_mod_geq)

lemma s_end_unat:
  assumes "s_offset m < s_end m"
  shows "unat (s_end m) = unat (s_offset m) + unat (s_length m)"
proof (rule mod_no_wrap)
  show "(unat (s_offset m) + unat (s_length m)) mod 2 ^ 64 = unat (s_end m)"
    by (simp add: s_end_def unat_word_ariths)
  show "unat (s_offset m) < unat (s_end m)" using assms by (simp add: word_less_nat_alt)
  show "unat (s_offset m) < 2 ^ 64" using unsigned_less [of "s_offset m", where ?'a = nat] by simp
  have "unat (s_length m) < 2 ^ 32" using unsigned_less [of "s_length m", where ?'a = nat] by simp
  then show "unat (s_length m) < 2 ^ 64" by simp
qed

text \<open>A run of at most \<open>2 ^ 51\<close> sectors never wraps: the clipped run over unbounded integers.\<close>

definition clip_int :: "int \<Rightarrow> int \<Rightarrow> int \<Rightarrow> int \<Rightarrow> int \<Rightarrow> int \<Rightarrow> int \<Rightarrow> (int \<times> int \<times> int) option" where
  "clip_int a e mo ss es off len =
     (let from = max a ss; to = min e es;
          d = from * 512 - off;
          d' = max 0 d;
          l = (to - from) * 512 + min 0 d
      in if from \<ge> to \<or> d' \<ge> len \<or> l \<le> 0 then None
         else Some (d', min l (len - d'), (mo + (from - a)) * 512 - min 0 d))"

lemma unat_diff_64: "(b :: 64 word) \<le> a \<Longrightarrow> unat (a - b) = unat a - unat b"
  by (simp add: unat_sub)

lemma clip_run_int:
  assumes run: "s_offset m < s_end m" "unat (s_end m) < 2 ^ 51" "unat (s_moffset m) + unat (s_length m) < 2 ^ 54"
    and req: "off < int (unat ss) * 512 + 512" "unat ss < 2 ^ 51" "unat es < 2 ^ 52" "0 \<le> off" "off < 2 ^ 60" "0 \<le> len" "len < 2 ^ 60"
  shows "clip_run ss es off len m =
           clip_int (int (unat (s_offset m))) (int (unat (s_end m))) (int (unat (s_moffset m)))
             (int (unat ss)) (int (unat es)) off len"
proof -
  define a where "a = unat (s_offset m)"
  define e where "e = unat (s_end m)"
  define S where "S = unat ss"
  define E where "E = unat es"
  note req = req [folded S_def E_def]
  define mo where "mo = unat (s_moffset m)"
  define fr where "fr = (if s_offset m < ss then ss else s_offset m)"
  define to' where "to' = (if s_end m > es then es else s_end m)"
  define moff where "moff = (if s_offset m < ss then s_moffset m + (ss - s_offset m) else s_moffset m)"
  have ae: "a < e" "e < 2 ^ 51" "mo + (e - a) < 2 ^ 54"
    using run s_end_unat [OF run(1)] by (simp_all add: a_def e_def mo_def word_less_nat_alt)
  have fr_nat: "unat fr = max a S"
    by (auto simp: fr_def a_def S_def word_less_nat_alt max_def)
  have to_nat: "unat to' = min e E"
    by (auto simp: to'_def e_def E_def word_less_nat_alt min_def)
  have clip: "clip_run ss es off len m =
     (if fr \<ge> to' then None
      else let n = i64 (sint (to' - fr) * 512); d = i64 (i64 (sint fr * 512) - off);
               ph = i64 (sint moff * 512)
           in if (if d < 0 then 0 else d) \<ge> len \<or> (if d < 0 then i64 (n - - d) else n) \<le> 0 then None
              else Some (if d < 0 then 0 else d,
                     if i64 ((if d < 0 then 0 else d) + (if d < 0 then i64 (n - - d) else n)) > len
                     then len - (if d < 0 then 0 else d) else (if d < 0 then i64 (n - - d) else n),
                     if d < 0 then i64 (ph + - d) else ph))"
    by (simp add: clip_run_def fr_def to'_def moff_def Let_def lsmtAlignment_def split: prod.splits)
  show ?thesis
  proof (cases "fr \<ge> to'")
    case True
    then have "max a S \<ge> min e E" using fr_nat to_nat by (simp add: word_le_nat_alt)
    then have "max (int a) (int S) \<ge> min (int e) (int E)" by linarith
    with True show ?thesis by (simp add: clip clip_int_def a_def e_def S_def E_def)
  next
    case False
    then have lt: "max a S < min e E" using fr_nat to_nat by (simp add: word_le_nat_alt not_le)
    have moff_nat: "unat moff = mo + (max a S - a)"
    proof (cases "s_offset m < ss")
      case True
      then have d: "unat (ss - s_offset m) = S - a" by (simp add: unat_diff_64 a_def S_def)
      have "mo + (S - a) \<le> mo + (e - a)" using lt by (intro add_left_mono diff_le_mono) simp
      then have "mo + (S - a) < 2 ^ 64" using ae(3) by simp
      then have "unat (s_moffset m) + unat (ss - s_offset m) < 2 ^ 64" by (simp add: d mo_def)
      then have "unat (s_moffset m + (ss - s_offset m)) = unat (s_moffset m) + unat (ss - s_offset m)"
        by (simp add: unat_word_ariths)
      then show ?thesis using True d by (simp add: moff_def mo_def a_def S_def word_less_nat_alt max_def)
    qed (simp add: moff_def mo_def a_def S_def word_less_nat_alt max_def)
    have "mo + (max a S - a) \<le> mo + (e - a)" using lt by (intro add_left_mono diff_le_mono) simp
    then have big: "mo + (max a S - a) < 2 ^ 54" using ae(3) by simp
    have signed: "sint fr = max (int a) (int S)"
      "sint (to' - fr) = min (int e) (int E) - max (int a) (int S)"
      "sint moff = int mo + (max (int a) (int S) - int a)"
    proof -
      have f: "sint fr = int (max a S)" using fr_nat lt ae by (subst sint_small) simp_all
      have t: "unat (to' - fr) = min e E - max a S"
        using False by (simp add: unat_diff_64 fr_nat to_nat)
      then have t': "sint (to' - fr) = int (min e E - max a S)" using lt ae by (subst sint_small) simp_all
      have m: "sint moff = int (mo + (max a S - a))"
        using big by (subst sint_small) (simp_all add: moff_nat)
      show "sint fr = max (int a) (int S)" unfolding f by (simp add: of_nat_max)
      show "sint (to' - fr) = min (int e) (int E) - max (int a) (int S)"
        unfolding t' using lt by (simp add: of_nat_diff of_nat_max of_nat_min)
      show "sint moff = int mo + (max (int a) (int S) - int a)"
        unfolding m by (simp add: of_nat_diff of_nat_max)
    qed
    define F where "F = max (int a) (int S)"
    define T where "T = min (int e) (int E)"
    define M where "M = int mo + (F - int a)"
    have b: "0 \<le> F" "F < T" "T < 2 ^ 51" "0 \<le> M" "M < 2 ^ 54" "off < F * 512 + 512"
    proof -
      have "M = int (mo + (max a S - a))" by (simp add: M_def F_def of_nat_diff of_nat_max)
      with big show "M < 2 ^ 54" by simp
    qed (use lt ae(1,2) req in \<open>simp_all add: F_def T_def M_def\<close>)
    have i: "i64 (F * 512) = F * 512" "i64 (M * 512) = M * 512" "i64 ((T - F) * 512) = (T - F) * 512"
      "i64 (F * 512 - off) = F * 512 - off" "i64 (M * 512 + - (F * 512 - off)) = M * 512 + - (F * 512 - off)"
      "i64 ((T - F) * 512 - - (F * 512 - off)) = (T - F) * 512 - - (F * 512 - off)"
      "i64 (F * 512 - off + (T - F) * 512) = F * 512 - off + (T - F) * 512"
      "i64 (0 + ((T - F) * 512 - - (F * 512 - off))) = 0 + ((T - F) * 512 - - (F * 512 - off))"
      by (rule i64_id; use b req in \<open>simp; fail | linarith\<close>)+
    show ?thesis
      unfolding clip signed clip_int_def Let_def a_def [symmetric] e_def [symmetric] mo_def [symmetric]
        S_def [symmetric] E_def [symmetric] F_def [symmetric] T_def [symmetric] M_def [symmetric] i
      using False b i by (auto simp: min_def max_def)
  qed
qed

lemma clip_int_None:
  assumes "clip_int a e mo ss es off len = None" "ss * 512 \<le> off" "off + len \<le> es * 512" "0 \<le> k" "k < len"
  shows "\<not> (a * 512 \<le> off + k \<and> off + k < e * 512)"
  using assms by (auto simp: clip_int_def Let_def min_def max_def split: if_splits)

lemma clip_int_Some:
  assumes "clip_int a e mo ss es off len = Some (d, l, ph)" "ss * 512 \<le> off" "off + len \<le> es * 512"
  shows "0 \<le> d" "0 < l" "d + l \<le> len" "ph = (mo - a) * 512 + off + d"
    "0 \<le> k \<Longrightarrow> k < len \<Longrightarrow> d \<le> k \<and> k < d + l \<longleftrightarrow> a * 512 \<le> off + k \<and> off + k < e * 512"
  using assms by (auto simp: clip_int_def Let_def min_def max_def split: if_splits)

text \<open>The sector a byte is in, and that a run covers it.\<close>

definition sector_of :: "nat \<Rightarrow> 64 word" where
  "sector_of k = word_of_nat (k div 512)"

lemma unat_sector_of: "k < 2 ^ 61 \<Longrightarrow> unat (sector_of k) = k div 512"
  by (simp add: sector_of_def unsigned_of_nat take_bit_nat_eq_self_iff div_less_iff_less_mult)

lemma s_covers_bytes:
  assumes "k < 2 ^ 61"
  shows "s_covers (sector_of k) m \<longleftrightarrow> unat (s_offset m) * 512 \<le> k \<and> k < unat (s_end m) * 512"
  unfolding s_covers_def word_le_nat_alt word_less_nat_alt unat_sector_of [OF assms]
  by (simp add: less_eq_div_iff_mult_less_eq div_less_iff_less_mult)

section \<open>Reading the runs\<close>

definition layers_present :: "reader list \<Rightarrow> byte list list \<Rightarrow> bool" where
  "layers_present layers files \<longleftrightarrow> list_all2 content_reader layers files"

lemma file_byte_read:
  assumes "i < n"
  shows "(take n (drop j f) @ zeros (n - length (take n (drop j f)))) ! i = file_byte f (j + i)"
  using assms by (auto simp: file_byte_def nth_append zeros_def)

text \<open>One run read into the buffer: the bytes it covers come from its layer's file.\<close>

definition run_byte :: "byte list list \<Rightarrow> stackMapping \<Rightarrow> nat \<Rightarrow> byte" where
  "run_byte files m k = backing_byte files (Some (s_backing (sector_of k) m)) (k mod 512)"

lemma sector_byte_position:
  fixes k :: nat
  assumes "a \<le> k div 512"
  shows "(m + (k div 512 - a)) * 512 + k mod 512 = m * 512 + (k - a * 512)"
proof -
  obtain q where q: "k div 512 = a + q" using assms le_Suc_ex by blast
  have "k = (a + q) * 512 + k mod 512" using div_mult_mod_eq [of k 512] by (simp add: q)
  then have "k - a * 512 = q * 512 + k mod 512" by simp
  then show ?thesis by (simp add: q algebra_simps)
qed

lemma run_byte_position:
  assumes "s_offset m < s_end m" "unat (s_moffset m) + unat (s_length m) < 2 ^ 54" "k < 2 ^ 61"
    and "s_covers (sector_of k) m" "\<not> s_zeroed m"
  shows "run_byte files m k
    = file_byte (files ! s_layer m) (unat (s_moffset m) * 512 + (k - unat (s_offset m) * 512))"
proof -
  let ?a = "unat (s_offset m)" and ?d = "sector_of k - s_offset m"
  have s: "?a \<le> k div 512" "k div 512 < ?a + unat (s_length m)"
    using assms(4) s_end_unat [OF assms(1)] unat_sector_of [OF assms(3)]
    by (simp_all add: s_covers_def word_le_nat_alt word_less_nat_alt)
  have d: "unat ?d = k div 512 - ?a"
    using assms(4) unat_sector_of [OF assms(3)] by (simp add: s_covers_def unat_diff_64)
  then have "unat (s_moffset m) + unat ?d < 2 ^ 64" using assms(2) s by simp
  then have "unat (s_moffset m + ?d) = unat (s_moffset m) + (k div 512 - ?a)"
    by (simp add: unat_word_ariths d)
  then have "unat (s_moffset m + ?d) * 512 + k mod 512 = unat (s_moffset m) * 512 + (k - ?a * 512)"
    by (simp only: sector_byte_position [OF s(1)])
  then show ?thesis
    using assms(5) by (simp add: run_byte_def backing_byte_def s_backing_def lsmtAlignment_def)
qed

lemma sector_bounds:
  "int (p0 div 512) * 512 \<le> int p0" "int p0 < int (p0 div 512) * 512 + 512"
  "int p0 + int n \<le> int ((p0 + n + 511) div 512) * 512"
proof -
  have m: "x div 512 * 512 + x mod 512 = x" "x mod 512 < 512" for x :: nat by simp_all
  show "int (p0 div 512) * 512 \<le> int p0" "int p0 < int (p0 div 512) * 512 + 512"
    using m [of p0] by linarith+
  show "int p0 + int n \<le> int ((p0 + n + 511) div 512) * 512"
    using m [of "p0 + n + 511"] by linarith
qed

text \<open>A run of the merged index against a request inside a disk of at most \<open>2 ^ 60\<close> bytes.\<close>

definition run_fits :: "stackMapping \<Rightarrow> bool" where
  "run_fits m \<longleftrightarrow> s_offset m < s_end m \<and> unat (s_end m) < 2 ^ 51
     \<and> unat (s_moffset m) + unat (s_length m) < 2 ^ 54"

definition request :: "64 word \<Rightarrow> 64 word \<Rightarrow> nat \<Rightarrow> nat \<Rightarrow> bool" where
  "request ss es p0 n \<longleftrightarrow> unat ss = p0 div 512 \<and> unat es = (p0 + n + 511) div 512 \<and> p0 + n < 2 ^ 60"

lemma clip_run_request:
  assumes "run_fits m" "request ss es p0 n"
  shows "clip_run ss es (int p0) (int n) m =
           clip_int (int (unat (s_offset m))) (int (unat (s_end m))) (int (unat (s_moffset m)))
             (int (p0 div 512)) (int ((p0 + n + 511) div 512)) (int p0) (int n)"
proof -
  have b: "p0 < 2 ^ 60" "n < 2 ^ 60" and u: "unat ss = p0 div 512" "unat es = (p0 + n + 511) div 512"
    using assms(2) by (simp_all add: request_def)
  have i: "int p0 < 2 ^ 60" "int n < 2 ^ 60" using b by simp_all
  have s: "unat ss < 2 ^ 51" "unat es < 2 ^ 52"
    using assms(2) by (simp_all add: request_def div_less_iff_less_mult)
  show ?thesis
    using assms(1) sector_bounds(2) [of p0] s i
    by (subst clip_run_int) (simp_all only: u run_fits_def of_nat_0_le_iff)
qed

lemma request_inside: "request ss es p0 n \<Longrightarrow> k < n \<Longrightarrow> p0 + k < 2 ^ 61"
  by (simp add: request_def)

lemma s_covers_bytes_int:
  assumes "request ss es p0 n" "k < n"
  shows "s_covers (sector_of (p0 + k)) m \<longleftrightarrow>
    int (unat (s_offset m)) * 512 \<le> int p0 + int k \<and> int p0 + int k < int (unat (s_end m)) * 512"
  unfolding s_covers_bytes [OF request_inside [OF assms]] by linarith

lemma clip_position: "a * 512 \<le> p0 + nat d \<Longrightarrow> 0 \<le> d \<Longrightarrow> 0 \<le> (int mo - int a) * 512 + int p0 + d" for a :: nat
proof -
  assume "a * 512 \<le> p0 + nat d" "0 \<le> d"
  then have "int (a * 512) \<le> int (p0 + nat d)" by (simp only: of_nat_le_iff)
  then have "int a * 512 \<le> int p0 + d" using \<open>0 \<le> d\<close> by simp
  then show ?thesis by (simp add: algebra_simps)
qed

lemma clip_run_None:
  assumes "run_fits m" "request ss es p0 n" "clip_run ss es (int p0) (int n) m = None" "k < n"
  shows "\<not> s_covers (sector_of (p0 + k)) m"
  using clip_int_None [OF assms(3) [unfolded clip_run_request [OF assms(1,2)]] sector_bounds(1,3), of "int k"] assms(4)
  by (simp only: s_covers_bytes_int [OF assms(2,4)]) simp

lemma clip_run_Some:
  assumes "run_fits m" "request ss es p0 n" "clip_run ss es (int p0) (int n) m = Some (d, l, ph)"
  shows "0 \<le> d" "0 < l" "d + l \<le> int n"
    "ph + int (unat (s_offset m)) * 512 = int (unat (s_moffset m)) * 512 + int p0 + d"
    "\<And>k. k < n \<Longrightarrow> d \<le> int k \<and> int k < d + l \<longleftrightarrow> s_covers (sector_of (p0 + k)) m"
    "unat (s_offset m) * 512 \<le> p0 + nat d" "0 \<le> ph"
proof -
  note c = clip_int_Some [OF assms(3) [unfolded clip_run_request [OF assms(1,2)]] sector_bounds(1,3)]
  show "0 \<le> d" "0 < l" "d + l \<le> int n" by (rule c)+
  show "ph + int (unat (s_offset m)) * 512 = int (unat (s_moffset m)) * 512 + int p0 + d"
    unfolding c(4) by (simp add: algebra_simps)
  show cover: "\<And>k. k < n \<Longrightarrow> d \<le> int k \<and> int k < d + l \<longleftrightarrow> s_covers (sector_of (p0 + k)) m"
    by (simp only: s_covers_bytes_int [OF assms(2)] c(5) of_nat_0_le_iff of_nat_less_iff)
  have d: "nat d < n" using c(1-3) by linarith
  moreover have "d \<le> int (nat d)" "int (nat d) < d + l" using c(1,2) by simp_all
  ultimately have "s_covers (sector_of (p0 + nat d)) m" using cover by blast
  then show start: "unat (s_offset m) * 512 \<le> p0 + nat d"
    by (simp add: s_covers_bytes [OF request_inside [OF assms(2) d]])
  show "0 \<le> ph" unfolding c(4) by (rule clip_position [OF start c(1)])
qed

lemma run_read:
  fixes files :: "byte list list"
  assumes fit: "run_fits m" and req: "request ss es p0 (length p)"
    and some: "clip_run ss es (int p0) (int (length p)) m = Some (d, l, ph)" and "\<not> s_zeroed m"
  defines "f \<equiv> files ! s_layer m"
  defines "data \<equiv> take (nat l) (drop (nat ph) f) @ zeros (nat l - length (take (nat l) (drop (nat ph) f)))"
  shows "length (overwrite p (nat d) data) = length p"
    "k < length p \<Longrightarrow> overwrite p (nat d) data ! k =
      (if s_covers (sector_of (p0 + k)) m then run_byte files m (p0 + k) else p ! k)"
proof -
  note c = clip_run_Some [OF fit req some]
  have len: "length data = nat l" by (simp add: data_def zeros_def)
  have fits: "nat d + nat l \<le> length p" using c(1-3) by linarith
  show "length (overwrite p (nat d) data) = length p" using fits len by simp
  assume k: "k < length p"
  show "overwrite p (nat d) data ! k =
      (if s_covers (sector_of (p0 + k)) m then run_byte files m (p0 + k) else p ! k)"
  proof (cases "s_covers (sector_of (p0 + k)) m")
    case True
    then have in_run: "d \<le> int k" "int k < d + l" using c(5) [OF k] by blast+
    then have nats: "nat d \<le> k" "k < nat d + nat l" using c(1,2) by linarith+

    have "overwrite p (nat d) data ! k = data ! (k - nat d)"
      using nats fits len k by (simp add: nth_overwrite)
    also have "\<dots> = file_byte f (nat ph + (k - nat d))"
      unfolding data_def using nats by (intro file_byte_read) linarith
    also have "nat ph + (k - nat d) = unat (s_moffset m) * 512 + (p0 + k - unat (s_offset m) * 512)"
      using c(1,4,6) nats by linarith
    also have "file_byte f \<dots> = run_byte files m (p0 + k)"
      using fit assms(4) True run_byte_position [OF _ _ request_inside [OF req k]]
      by (simp add: run_fits_def f_def)
    finally show ?thesis using True by simp
  next
    case False
    then have "\<not> (d \<le> int k \<and> int k < d + l)" using c(5) [OF k] by blast
    then have "\<not> (nat d \<le> k \<and> k < nat d + length data)" using len c(1,2) by linarith
    then show ?thesis using False fits len k by (auto simp: nth_overwrite)
  qed
qed


lemma stack_wf_Cons:
  "stack_wf (m # ms) \<longleftrightarrow> (\<forall>m' \<in> set ms. s_end m \<le> s_offset m') \<and> run_fits m \<and> stack_wf ms"
  by (auto simp: stack_wf_def run_fits_def)

lemma covered_once:
  assumes "stack_wf (m # ms)" "s_covers x m"
  shows "find (s_covers x) ms = None"
proof -
  have "\<not> s_covers x m'" if "m' \<in> set ms" for m'
  proof -
    have "s_end m \<le> s_offset m'" using assms(1) that by (simp add: stack_wf_Cons)
    then show ?thesis using assms(2) unfolding s_covers_def by (safe; order)
  qed
  then show ?thesis by (simp add: find_None_iff)
qed

lemma request_sector:
  assumes "request ss es p0 n" "k < n"
  shows "ss \<le> sector_of (p0 + k)" "sector_of (p0 + k) < es"
proof -
  have u: "unat (sector_of (p0 + k)) = (p0 + k) div 512" by (rule unat_sector_of [OF request_inside [OF assms]])
  show "ss \<le> sector_of (p0 + k)" using assms u by (simp add: request_def word_le_nat_alt div_le_mono)
  have "(p0 + k) div 512 < (p0 + n + 511) div 512"
    using sector_bounds(1) [of "p0 + k"] sector_bounds(3) [of p0 n] assms(2) by linarith
  then show "sector_of (p0 + k) < es" using assms u by (simp add: request_def word_less_nat_alt)
qed

lemma past_request:
  assumes "stack_wf (m # ms)" "request ss es p0 n" "k < n" "s_offset m \<ge> es"
  shows "find (s_covers (sector_of (p0 + k))) (m # ms) = None"
proof -
  have "\<not> s_covers (sector_of (p0 + k)) m'" if "m' \<in> set (m # ms)" for m'
  proof -
    have "s_offset m \<le> s_offset m'"
      using assms(1) that by (auto simp: stack_wf_Cons run_fits_def dest: order.strict_implies_order)
    then show ?thesis using assms(4) request_sector(2) [OF assms(2,3)] unfolding s_covers_def by (safe; order)
  qed
  then show ?thesis by (simp add: find_None_iff)
qed

definition runs_byte :: "byte list list \<Rightarrow> stackMapping list \<Rightarrow> byte \<Rightarrow> nat \<Rightarrow> byte" where
  "runs_byte files ms b k =
     (case find (s_covers (sector_of k)) ms of
        Some m \<Rightarrow> if s_zeroed m then b else run_byte files m k
      | None \<Rightarrow> b)"

lemma read_runs:
  assumes "stack_wf ms" "\<forall>m \<in> set ms. s_layer m < length layers" "layers_present layers files"
    and "request ss es p0 (length p)"
  shows "\<exists>p'. read_runs layers ss es (int p0) ms p = Inr p' \<and> length p' = length p
    \<and> (\<forall>k < length p. p' ! k = runs_byte files ms (p ! k) (p0 + k))"
  using assms
proof (induction ms arbitrary: p)
  case Nil
  then show ?case by (simp add: runs_byte_def)
next
  case (Cons m ms)
  note wf = Cons.prems(1) and req = Cons.prems(4)
  have ms: "stack_wf ms" "run_fits m" using wf by (simp_all add: stack_wf_Cons)
  have IH: "\<exists>p'. read_runs layers ss es (int p0) ms q = Inr p' \<and> length p' = length q
      \<and> (\<forall>k < length q. p' ! k = runs_byte files ms (q ! k) (p0 + k))" if "length q = length p" for q
    using Cons.IH [of q] ms(1) Cons.prems(2-4) that by simp
  have skip: "\<exists>p'. read_runs layers ss es (int p0) ms p = Inr p' \<and> length p' = length p
      \<and> (\<forall>k < length p. p' ! k = runs_byte files (m # ms) (p ! k) (p0 + k))"
    if "\<And>k. k < length p \<Longrightarrow> s_zeroed m \<or> \<not> s_covers (sector_of (p0 + k)) m"
    using IH [of p] covered_once [OF wf] that by (fastforce simp: runs_byte_def)
  show ?case
  proof (cases "s_offset m \<ge> es")
    case True
    then show ?thesis using past_request [OF wf req] by (simp add: runs_byte_def)
  next
    case False
    show ?thesis
    proof (cases "s_zeroed m")
      case True
      then show ?thesis using skip False by simp
    next
      case stored: False
      show ?thesis
      proof (cases "clip_run ss es (int p0) (int (length p)) m")
        case None
        then show ?thesis using skip clip_run_None [OF ms(2) req None] False stored by simp
      next
        case (Some r)
        obtain d l ph where r: "r = (d, l, ph)" by (cases r)
        note c = Some [unfolded r]
        let ?f = "files ! s_layer m"
        define q where "q = overwrite p (nat d) (take (nat l) (drop (nat ph) ?f)
          @ zeros (nat l - length (take (nat l) (drop (nat ph) ?f))))"
        note q = run_read [OF ms(2) req c stored, where files = files, folded q_def]
        have layer: "s_layer m < length layers" using Cons.prems(2) by simp
        have rd: "content_reader (layers ! s_layer m) ?f"
          using Cons.prems(3) layer unfolding layers_present_def by (rule list_all2_nthD)
        obtain bs err where out: "(layers ! s_layer m) (nat l) ph = (bs, err)" by (meson surj_pair)
        have ph: "0 \<le> ph" by (rule clip_run_Some(7) [OF ms(2) req c])
        have bs: "bs = take (nat l) (drop (nat ph) ?f)"
          using content_reader.read_content [OF rd ph, of "nat l"] out by simp
        have "\<not> (case err of None \<Rightarrow> False | Some e \<Rightarrow> \<not> isEOF e)"
          using content_reader.read_error [OF rd ph, of "nat l"] out by (simp split: option.split)
        then have step: "read_runs layers ss es (int p0) (m # ms) p = read_runs layers ss es (int p0) ms q"
          using False stored c layer out by (simp add: bs q_def)
        obtain p' where p': "read_runs layers ss es (int p0) ms q = Inr p'" "length p' = length q"
          "\<forall>k < length q. p' ! k = runs_byte files ms (q ! k) (p0 + k)"
          using IH [OF q(1)] by blast
        have "p' ! k = runs_byte files (m # ms) (p ! k) (p0 + k)" if "k < length p" for k
          using p'(3) q(1) q(2) [OF that] that covered_once [OF wf, of "sector_of (p0 + k)"] stored
          by (cases "s_covers (sector_of (p0 + k)) m") (simp_all add: runs_byte_def split: option.split)
        then show ?thesis using step p'(1,2) q(1) by simp
      qed
    qed
  qed
qed


lemma runs_byte_stack: "runs_byte files ms 0 k = stack_byte files ms k"
  by (auto simp: runs_byte_def stack_byte_def stack_at_def sector_of_def run_byte_def s_backing_def
      backing_byte_def lsmtAlignment_def split: option.split)

lemma search_runs:
  assumes "stack_wf ms" "x \<ge> ss"
  shows "find (s_covers x) (drop (Search (length ms) (\<lambda>i. s_end (ms ! i) > ss)) ms) = find (s_covers x) ms"
    (is "find _ (drop ?i ms) = _")
proof -
  have mono: "s_end (ms ! i) > ss \<Longrightarrow> s_end (ms ! j) > ss" if "i \<le> j" "j < length ms" for i j
  proof (cases "i = j")
    case False
    then have "s_end (ms ! i) \<le> s_offset (ms ! j)" "s_offset (ms ! j) < s_end (ms ! j)"
      using assms(1) that by (auto simp: stack_wf_def sorted_wrt_iff_nth_less)
    then show "s_end (ms ! i) > ss \<Longrightarrow> s_end (ms ! j) > ss" by order
  qed simp
  have "\<not> s_covers x m" if m: "m \<in> set (take ?i ms)" for m
  proof -
    obtain j where "j < ?i" "j < length ms" "m = ms ! j" using m by (auto simp: in_set_conv_nth)
    then have "\<not> ss < s_end m" using Search_spec(2) [of "length ms" "\<lambda>i. s_end (ms ! i) > ss"] mono by blast
    then show ?thesis using assms(2) unfolding s_covers_def by (safe; order)
  qed
  then have "find (s_covers x) (take ?i ms @ drop ?i ms) = find (s_covers x) (drop ?i ms)"
    by (intro find_append_skip) auto
  then show ?thesis by simp
qed

lemma stack_wf_drop: "stack_wf ms \<Longrightarrow> stack_wf (drop i ms)"
  unfolding stack_wf_def by (meson in_set_dropD sorted_wrt_drop)

lemma request_words:
  assumes "0 \<le> off" "nat off + n < 2 ^ 60"
  shows "request (word_of_int off div word_of_nat lsmtAlignment)
    ((word_of_int off + word_of_nat n + word_of_nat lsmtAlignment - 1) div word_of_nat lsmtAlignment) (nat off) n"
proof -
  have o: "(word_of_int off :: 64 word) = word_of_nat (nat off)" using assms(1) by simp
  have u: "unat (word_of_nat k :: 64 word) = k" if "k < 2 ^ 64" for k
    using that by (simp add: unsigned_of_nat take_bit_nat_eq_self_iff)
  have s: "(word_of_nat (nat off) + word_of_nat n + word_of_nat lsmtAlignment - 1 :: 64 word)
      = word_of_nat (nat off + n + 511)"
    by (simp add: lsmtAlignment_def)
  show ?thesis unfolding o s request_def using assms(2)
    by (simp add: unat_div_distrib u lsmtAlignment_def del: of_nat_add of_nat_nat)
qed


section \<open>A stack reads as one disk\<close>

definition stack_ready :: "lsmtStack \<Rightarrow> byte list list \<Rightarrow> bool" where
  "stack_ready s files \<longleftrightarrow> stack_wf (st_mappings s) \<and> layers_present (st_layers s) files
     \<and> (\<forall>m \<in> set (st_mappings s). s_layer m < length (st_layers s))
     \<and> st_virtualSize s < 2 ^ 60"

lemma stack_read:
  assumes ready: "stack_ready s files" and off: "0 \<le> off" "off < st_virtualSize s"
  shows "lsmtStack_ReadAt s n off = (take n (drop (nat off) (stack_content files s)), None)"
proof -
  define len where "len = (if int n > st_virtualSize s - off then nat (st_virtualSize s - off) else n)"
  define ss :: "64 word" where "ss = word_of_int off div word_of_nat lsmtAlignment"
  define es :: "64 word" where
    "es = (word_of_int off + word_of_nat len + word_of_nat lsmtAlignment - 1) div word_of_nat lsmtAlignment"
  define ms where "ms = drop (Search (length (st_mappings s)) (\<lambda>i. s_end (st_mappings s ! i) > ss)) (st_mappings s)"
  have size: "nat off + len \<le> nat (st_virtualSize s)" using off by (auto simp: len_def)
  moreover have "nat (st_virtualSize s) < 2 ^ 60" using ready off by (simp add: stack_ready_def nat_less_iff)
  ultimately have "nat off + len < 2 ^ 60" by (rule le_less_trans)
  then have req: "request ss es (nat off) (length (zeros len :: byte list))"
    unfolding ss_def es_def using request_words [OF off(1), of len] by (simp add: zeros_def)
  have wf: "stack_wf (st_mappings s)" using ready by (simp add: stack_ready_def)
  obtain p where p: "read_runs (st_layers s) ss es (int (nat off)) ms (zeros len) = Inr p" "length p = len"
    "\<And>k. k < len \<Longrightarrow> p ! k = runs_byte files ms 0 (nat off + k)"
    using read_runs [OF _ _ _ req, of ms "st_layers s" files] ready stack_wf_drop [OF wf]
    by (auto simp: stack_ready_def ms_def zeros_def dest: in_set_dropD)
  have "p ! k = stack_byte files (st_mappings s) (nat off + k)" if "k < len" for k
  proof -
    have "ss \<le> sector_of (nat off + k)" using request_sector(1) [OF req] that by (simp add: zeros_def)
    then have "runs_byte files ms 0 (nat off + k) = runs_byte files (st_mappings s) 0 (nat off + k)"
      using search_runs [OF wf] by (simp add: runs_byte_def ms_def)
    then show ?thesis using p(3) [OF that] by (simp add: runs_byte_stack)
  qed
  then have "p = take n (drop (nat off) (stack_content files s))"
    using p(2) off by (intro nth_equalityI) (auto simp: stack_content_def len_def split: if_splits)
  moreover have "lsmtStack_ReadAt s n off = (p, None)"
    using off p(1) by (simp add: lsmtStack_ReadAt_def len_def ss_def es_def ms_def)
  ultimately show ?thesis by simp
qed

lemma stack_reader: "stack_ready s files \<Longrightarrow> content_reader (lsmtStack_ReadAt s) (stack_content files s)"
proof
  fix off n e
  assume s: "stack_ready s files" and off: "(0 :: int) \<le> off"
  show "fst (lsmtStack_ReadAt s n off) = take n (drop (nat off) (stack_content files s))"
    using stack_read [OF s off] off
    by (cases "off < st_virtualSize s") (auto simp: lsmtStack_ReadAt_def stack_content_def)
  show "isEOF e" if "snd (lsmtStack_ReadAt s n off) = Some e"
    using that stack_read [OF s off] off
    by (cases "off < st_virtualSize s") (auto simp: lsmtStack_ReadAt_def)
qed


text \<open>The disk a chain of layers stands for: every byte from the newest layer that maps its sector.\<close>

definition newest_byte :: "byte list list \<Rightarrow> lsmtLayer list \<Rightarrow> nat \<Rightarrow> byte" where
  "newest_byte files layers k =
     backing_byte files (newest_at (chain layers) (word_of_nat (k div lsmtAlignment))) (k mod lsmtAlignment)"

definition chain_content :: "byte list list \<Rightarrow> lsmtLayer list \<Rightarrow> nat \<Rightarrow> byte list" where
  "chain_content files layers vsize = map (newest_byte files layers) [0..<vsize]"

definition chain_stack :: "lsmtLayer list \<Rightarrow> reader list \<Rightarrow> bool \<Rightarrow> int \<Rightarrow> lsmtStack" where
  "chain_stack layers readers remote vsize =
     \<lparr> st_mappings = mergeLSMTLayers layers, st_layers = readers, st_virtualSize = vsize, st_remote = remote \<rparr>"

lemma chain_stack_ready:
  assumes "\<forall>l \<in> set layers. index_wf (l_mappings l)" "layers_present readers files"
    "length readers = length layers" "vsize < 2 ^ 60"
  shows "stack_ready (chain_stack layers readers remote vsize) files"
    and "stack_content files (chain_stack layers readers remote vsize) = chain_content files layers (nat vsize)"
  using merge_wf [OF assms(1)] assms(2-4) merge_newest [OF assms(1)]
  by (simp_all add: stack_ready_def chain_stack_def stack_content_def chain_content_def stack_byte_def
      newest_byte_def)

text \<open>
  C7. The disk that a chain of layers presents, read through the merged index at any offset and
  length, is the disk in which every byte comes from the newest layer that maps its sector, with
  zeros where no layer does and where a layer's file ends early.
\<close>

theorem stack_reads_newest:
  assumes "\<forall>l \<in> set layers. index_wf (l_mappings l)" "layers_present readers files"
    and "length readers = length layers" "vsize < 2 ^ 60" "0 \<le> off" "off < vsize"
  shows "lsmtStack_ReadAt (chain_stack layers readers remote vsize) n off
    = (take n (drop (nat off) (chain_content files layers (nat vsize))), None)"
  using stack_read [OF chain_stack_ready(1) [OF assms(1-4), of remote], of off n] assms(5,6)
    chain_stack_ready(2) [OF assms(1-4)]
  by (simp add: chain_stack_def)

definition example_layer :: "64 word \<Rightarrow> 32 word \<Rightarrow> lsmtLayer" where
  "example_layer off len = \<lparr> l_src = (\<lambda>n off. ([], None)),
     l_mappings = [\<lparr> m_offset = off, m_length = len, m_moffset = 0, m_zeroed = False, m_tag = 0 \<rparr>], l_virtualSize = 2048 \<rparr>"

theorem stack_reads_newest_witness:
  "lsmtStack_ReadAt (chain_stack [example_layer 0 2, example_layer 1 1]
      [file_ReadAt (replicate 1024 7), file_ReadAt (replicate 512 9)] False 2048) 4 510 = ([7, 7, 9, 9], None)"
proof -
  let ?files = "[replicate 1024 7, replicate 512 9] :: byte list list"
  have wf: "\<forall>l \<in> set [example_layer 0 2, example_layer 1 1]. index_wf (l_mappings l)"
    by (simp add: example_layer_def index_wf_def mapping_fits_def)
  have rd: "layers_present (map file_ReadAt ?files) ?files"
    by (simp add: layers_present_def os_file.content_reader_axioms)
  have "take 4 (drop 510 [0..<2048]) = [510, 511, 512, 513 :: nat]"
    by (simp add: drop_upt take_upt del: upt_rec_numeral) (simp add: upt_rec_numeral)
  then have "take 4 (drop 510 (chain_content ?files [example_layer 0 2, example_layer 1 1] 2048))
      = map (newest_byte ?files [example_layer 0 2, example_layer 1 1]) [510, 511, 512, 513]"
    by (simp only: chain_content_def take_map drop_map)
  also have "\<dots> = [7, 7, 9, 9]"
    by (simp add: newest_byte_def backing_byte_def file_byte_def chain_def example_layer_def index_at_def
       m_covers_def m_backing_def m_end_def enumerate_eq_zip lsmtAlignment_def)
  finally have "take 4 (drop 510 (chain_content ?files [example_layer 0 2, example_layer 1 1] 2048)) = [7, 7, 9, 9]" .
  then show ?thesis using stack_reads_newest [OF wf rd, of 2048 510 False 4] by simp
qed


end
