(* ===== verification/Zfile.thy ===== *)
theory Zfile
  imports Lz4 StackRead
begin

unbundle bit_operations_syntax

text \<open>
  The block-compressed container of a layer (\<^verbatim>\<open>src/internal/node/image/zfile.go\<close>): checksums, header
  and trailer, the block index, and reading the uncompressed contents at any offset.
\<close>

section \<open>Checksums\<close>

text \<open>
  The table of \<^verbatim>\<open>crc32.MakeTable(crc32.Castagnoli)\<close>: eight shift steps from the byte's value, with
  the reversed polynomial.
\<close>

definition crc_shift :: "32 word \<Rightarrow> 32 word" where
  "crc_shift c = (if bit c 0 then drop_bit 1 c XOR 0x82f63b78 else drop_bit 1 c)"

definition castagnoli :: "byte \<Rightarrow> 32 word" where
  "castagnoli i = (crc_shift ^^ 8) (ucast i)"

definition crc_step :: "byte \<Rightarrow> 32 word \<Rightarrow> 32 word" where
  "crc_step b crc = castagnoli (ucast crc XOR b) XOR drop_bit 8 crc"

definition zfileCRCFrom :: "32 word \<Rightarrow> byte list \<Rightarrow> 32 word" where
  "zfileCRCFrom init data = fold crc_step data init"

definition zfileCRCSalt :: "32 word" where "zfileCRCSalt = 100007"

definition zfileCRC :: "byte list \<Rightarrow> 32 word" where
  "zfileCRC data = zfileCRCFrom 0 data"

definition zfileBlockCRC :: "byte list \<Rightarrow> 32 word" where
  "zfileBlockCRC data = zfileCRCFrom zfileCRCSalt data"

lemma crc_shift_xor: "crc_shift (a XOR b) = crc_shift a XOR crc_shift b"
  by (rule bit_word_eqI) (auto simp: crc_shift_def bit_simps)

lemma crc_shifts_xor: "(crc_shift ^^ n) (a XOR b) = (crc_shift ^^ n) a XOR (crc_shift ^^ n) b"
  by (induction n) (simp_all add: crc_shift_xor)

lemma crc_shift_inj: "crc_shift a = crc_shift b \<Longrightarrow> a = b"
proof -
  assume "crc_shift a = crc_shift b"
  then have z: "crc_shift (a XOR b) = 0" by (simp add: crc_shift_xor)
  have "\<not> bit (a XOR b) 0"
  proof
    assume "bit (a XOR b) 0"
    then have "crc_shift (a XOR b) = drop_bit 1 (a XOR b) XOR 0x82f63b78" by (simp add: crc_shift_def)
    moreover have "bit (drop_bit 1 (a XOR b) XOR 0x82f63b78) 31"
      by (auto simp: bit_simps dest: bit_imp_le_length)
    ultimately show False using z by simp
  qed
  then have d: "drop_bit 1 (a XOR b) = 0" using z by (simp add: crc_shift_def split: if_splits)
  have "\<not> bit (a XOR b) n" for n
  proof (cases n)
    case (Suc m)
    have "\<not> bit (drop_bit 1 (a XOR b)) m" using d by simp
    then show ?thesis by (simp add: bit_simps Suc)
  qed (use \<open>\<not> bit (a XOR b) 0\<close> in simp)
  then show "a = b" by (intro bit_word_eqI) (metis bit_xor_iff)
qed

lemma crc_shifts_high:
  assumes "\<And>i. i < n \<Longrightarrow> \<not> bit c i"
  shows "(crc_shift ^^ n) c = drop_bit n c"
  using assms
proof (induction n)
  case (Suc n)
  then have "(crc_shift ^^ n) c = drop_bit n c" by simp
  moreover have "\<not> bit (drop_bit n c) 0" using Suc.prems [of n] by (simp add: bit_simps)
  ultimately have "crc_shift ((crc_shift ^^ n) c) = drop_bit 1 (drop_bit n c)" by (simp add: crc_shift_def)
  then show ?case by (simp add: drop_bit_drop_bit del: drop_bit_Suc)
qed simp

text \<open>A step of the register is eight shifts of it with the byte mixed in.\<close>

lemma crc_step_shifts: "crc_step b crc = (crc_shift ^^ 8) (crc XOR ucast b)"
proof -
  let ?x = "crc XOR ucast b"
  have lo: "ucast (ucast crc XOR b) = take_bit 8 ?x"
    by (rule bit_word_eqI) (auto simp: bit_simps dest: bit_imp_le_length)
  have split: "x = take_bit 8 x XOR (x XOR take_bit 8 x)" for x :: "32 word"
    by (rule bit_word_eqI) (auto simp: bit_simps)
  have "(crc_shift ^^ 8) ?x = (crc_shift ^^ 8) (take_bit 8 ?x) XOR (crc_shift ^^ 8) (?x XOR take_bit 8 ?x)"
    unfolding crc_shifts_xor [symmetric] split [symmetric] ..
  also have "(crc_shift ^^ 8) (?x XOR take_bit 8 ?x) = drop_bit 8 (?x XOR take_bit 8 ?x)"
    by (rule crc_shifts_high) (simp add: bit_simps)
  also have "drop_bit 8 (?x XOR take_bit 8 ?x) = drop_bit 8 crc"
    by (rule bit_word_eqI) (auto simp: bit_simps dest: bit_imp_le_length)
  finally show ?thesis unfolding crc_step_def castagnoli_def lo by (rule sym)
qed

lemma crc_step_inj: "crc_step b c = crc_step b' c' \<Longrightarrow> c XOR ucast b = c' XOR ucast b'"
proof -
  have inj: "(crc_shift ^^ n) x = (crc_shift ^^ n) y \<Longrightarrow> x = y" for n x y
  proof (induction n)
    case (Suc n)
    have "crc_shift ((crc_shift ^^ n) x) = crc_shift ((crc_shift ^^ n) y)" using Suc.prems by simp
    then show ?case by (rule Suc.IH [OF crc_shift_inj])
  qed simp
  show "crc_step b c = crc_step b' c' \<Longrightarrow> c XOR ucast b = c' XOR ucast b'"
    unfolding crc_step_shifts by (rule inj [of 8])
qed

lemma xor_right_cancel: "a XOR b = c XOR b \<Longrightarrow> a = c" for a b c :: "'a::len word"
  by (metis xor.assoc xor_self_eq xor.right_neutral)

lemma crc_state_inj: "zfileCRCFrom c data = zfileCRCFrom c' data \<Longrightarrow> c = c'"
proof (induction data arbitrary: c c')
  case (Cons b data)
  then have "crc_step b c = crc_step b c'" by (simp add: zfileCRCFrom_def)
  from crc_step_inj [OF this] show ?case by (rule xor_right_cancel)
qed (simp add: zfileCRCFrom_def)

text \<open>
  C27. A single corrupted byte never passes a checksum: two byte strings that differ in exactly one
  place have different CRCs, from any initial register, so for the index and for every block.
\<close>

theorem crc_detects_corruption:
  assumes "b \<noteq> b'"
  shows "zfileCRCFrom init (pre @ b # post) \<noteq> zfileCRCFrom init (pre @ b' # post)"
proof
  let ?c = "zfileCRCFrom init pre"
  assume "zfileCRCFrom init (pre @ b # post) = zfileCRCFrom init (pre @ b' # post)"
  then have "zfileCRCFrom (crc_step b ?c) post = zfileCRCFrom (crc_step b' ?c) post"
    by (simp add: zfileCRCFrom_def)
  then have "crc_step b ?c = crc_step b' ?c" by (rule crc_state_inj)
  from crc_step_inj [OF this] have "ucast b XOR ?c = ucast b' XOR ?c" by (metis xor.commute)
  then have "(ucast b :: 32 word) = ucast b'" by (rule xor_right_cancel)
  then have "(ucast (ucast b :: 32 word) :: byte) = ucast (ucast b' :: 32 word)" by simp
  moreover have "(ucast (ucast x :: 32 word) :: byte) = x" for x :: byte
    by (rule bit_word_eqI) (simp add: bit_simps)
  ultimately show False using assms by metis
qed

theorem crc_detects_corruption_witness: "zfileCRCFrom 0 ([1] @ 2 # [3]) \<noteq> zfileCRCFrom 0 ([1] @ 7 # [3])"
  by (rule crc_detects_corruption) simp

section \<open>Header and trailer\<close>

definition zfileHeaderSpace :: nat where "zfileHeaderSpace = 512"

definition zfileMagic0 :: "64 word" where
  "zfileMagic0 = Uint64 [0x5a, 0x46, 0x69, 0x6c, 0x65, 0, 0x01, 0]"

definition zfileMagic1 :: "byte list" where
  "zfileMagic1 = [0x74, 0x75, 0x6a, 0x69, 0x2e, 0x79, 0x79, 0x66,
                  0x40, 0x41, 0x6c, 0x69, 0x62, 0x61, 0x62, 0x61]"

record zfileHeader =
  z_flags :: "64 word"
  z_indexOffset :: "64 word"
  z_indexSize :: "64 word"
  z_originalFileSize :: "64 word"
  z_indexCRC :: "32 word"
  z_blockSize :: "32 word"
  z_algo :: byte
  z_useDict :: byte
  z_dictSize :: "32 word"
  z_verify :: byte

definition z_isHeader :: "zfileHeader \<Rightarrow> bool" where "z_isHeader h \<longleftrightarrow> z_flags h AND 1 \<noteq> 0"
definition z_isTrailer :: "zfileHeader \<Rightarrow> bool" where "z_isTrailer h \<longleftrightarrow> \<not> z_isHeader h"
definition z_isData :: "zfileHeader \<Rightarrow> bool" where "z_isData h \<longleftrightarrow> z_flags h AND 2 \<noteq> 0"
definition z_isSealed :: "zfileHeader \<Rightarrow> bool" where "z_isSealed h \<longleftrightarrow> z_flags h AND 4 \<noteq> 0"
definition z_isHeaderOverwrite :: "zfileHeader \<Rightarrow> bool" where "z_isHeaderOverwrite h \<longleftrightarrow> z_flags h AND 8 \<noteq> 0"
definition z_digestEnabled :: "zfileHeader \<Rightarrow> bool" where "z_digestEnabled h \<longleftrightarrow> z_flags h AND 16 \<noteq> 0"

definition parseZFileHeader :: "byte list \<Rightarrow> go_error + zfileHeader" where
  "parseZFileHeader b =
     (if length b < zfileHeaderSpace
      then Inl (Errorf ''zfile header needs %d bytes, got %d'' [AInt (int zfileHeaderSpace), AInt (int (length b))])
      else if Uint64 (slice b 0 8) \<noteq> zfileMagic0
      then Inl (Errorf ''not a zfile: magic0 %d, want %d'' [AInt (uint (Uint64 (slice b 0 8))), AInt (uint zfileMagic0)])
      else if slice b 8 24 \<noteq> zfileMagic1 then Inl (Errorf ''not a zfile: magic1 mismatch'' [])
      else let h = \<lparr>z_flags = Uint64 (slice b 32 40), z_indexOffset = Uint64 (slice b 40 48),
                    z_indexSize = Uint64 (slice b 48 56), z_originalFileSize = Uint64 (slice b 56 64),
                    z_indexCRC = Uint32 (slice b 64 68), z_blockSize = Uint32 (slice b 72 76),
                    z_algo = b ! 76, z_useDict = b ! 78, z_dictSize = Uint32 (slice b 84 88), z_verify = b ! 88\<rparr>
           in if z_blockSize h = 0 then Inl (Errorf ''zfile block size is zero'' []) else Inr h)"

section \<open>Opening\<close>

record zfileReader =
  zr_src :: reader
  zr_header :: zfileHeader
  zr_blockOffset :: "64 word list"

text \<open>The offsets of the blocks from the array of their compressed lengths, of which \<open>i\<close> are done.\<close>

fun block_offsets :: "nat \<Rightarrow> 64 word \<Rightarrow> 32 word list \<Rightarrow> go_error + 64 word list" where
  "block_offsets i pos [] = Inr []"
| "block_offsets i pos (n # ns) =
     (if n = 0 then Inl (Errorf ''zfile block %d has zero compressed length'' [AInt (int i)])
      else case block_offsets (Suc i) (pos + ucast n) ns of
          Inl e \<Rightarrow> Inl e
        | Inr offs \<Rightarrow> Inr ((pos + ucast n) # offs))"

definition index_lengths :: "nat \<Rightarrow> byte list \<Rightarrow> 32 word list" where
  "index_lengths n raw = map (\<lambda>i. Uint32 (slice raw (i * 4) (i * 4 + 4))) [0..<n]"

definition loadZFileIndex :: "reader \<Rightarrow> zfileHeader \<Rightarrow> go_error + 64 word list" where
  "loadZFileIndex src h =
     (if z_indexSize h = 0 then Inl (Errorf ''zfile has an empty index'' [])
      else if z_indexSize h > 2 ^ 26
      then Inl (Errorf ''zfile index claims %d blocks, past the %d limit'' [AInt (uint (z_indexSize h)), AInt (2 ^ 26)])
      else case read_full src (zeros (unat (z_indexSize h) * 4)) (sint (z_indexOffset h)) of
          Inl e \<Rightarrow> Inl (Wrapf ''read zfile index'' [] e)
        | Inr raw \<Rightarrow>
            if z_digestEnabled h \<and> zfileCRC raw \<noteq> z_indexCRC h
            then Inl (Errorf ''zfile index checksum is %d, want %d''
                        [AInt (uint (zfileCRC raw)), AInt (uint (z_indexCRC h))])
            else let pos = word_of_nat zfileHeaderSpace + ucast (z_dictSize h)
                 in case block_offsets 0 pos (index_lengths (unat (z_indexSize h)) raw) of
                      Inl e \<Rightarrow> Inl e
                    | Inr offs \<Rightarrow> Inr (pos # offs))"

text \<open>The header that locates the index: the trailer, unless the header was overwritten in place.\<close>

definition select_header :: "reader \<Rightarrow> int \<Rightarrow> go_error + zfileHeader" where
  "select_header src fileSize =
     (case read_full src (zeros zfileHeaderSpace) 0 of
        Inl e \<Rightarrow> Inl (Wrapf ''read zfile header'' [] e)
      | Inr buf \<Rightarrow>
     (case parseZFileHeader buf of
        Inl e \<Rightarrow> Inl e
      | Inr header \<Rightarrow>
          if \<not> z_isHeader header then Inl (Errorf ''zfile starts with a trailer, not a header'' [])
          else if z_isHeaderOverwrite header then Inr header
          else if \<not> z_isData header then Inl (Errorf ''zfile is not a data file'' [])
          else case read_full src buf (fileSize - int zfileHeaderSpace) of
              Inl e \<Rightarrow> Inl (Wrapf ''read zfile trailer'' [] e)
            | Inr buf2 \<Rightarrow>
           (case parseZFileHeader buf2 of
              Inl e \<Rightarrow> Inl e
            | Inr trailer \<Rightarrow>
                if \<not> z_isTrailer trailer then Inl (Errorf ''zfile ends with a header, not a trailer'' [])
                else if \<not> z_isData trailer then Inl (Errorf ''zfile trailer is not marked as a data file'' [])
                else if \<not> z_isSealed trailer
                then Inl (Errorf ''zfile is not sealed, so its index is not written yet'' [])
                else if z_indexOffset trailer > word_of_int fileSize - word_of_nat zfileHeaderSpace
                then Inl (Errorf ''zfile index offset %d is past the trailer'' [AInt (uint (z_indexOffset trailer))])
                else Inr trailer)))"

definition openZFile :: "reader \<Rightarrow> int \<Rightarrow> go_error + zfileReader" where
  "openZFile src fileSize =
     (if fileSize < int zfileHeaderSpace * 2
      then Inl (Errorf ''zfile is %d bytes, too small to hold a header and trailer'' [AInt fileSize])
      else case select_header src fileSize of
          Inl e \<Rightarrow> Inl e
        | Inr selected \<Rightarrow>
            if z_useDict selected \<noteq> 0 then Inl (Errorf ''zfile uses a compression dictionary'' [])
            else if z_algo selected = 2 then Inl (Errorf ''zfile is zstd-compressed'' [])
            else if z_algo selected \<noteq> 1
            then Inl (Errorf ''zfile compression algorithm %d is unknown'' [AInt (uint (z_algo selected))])
            else case loadZFileIndex src selected of
                Inl e \<Rightarrow> Inl e
              | Inr offsets \<Rightarrow> Inr \<lparr>zr_src = src, zr_header = selected, zr_blockOffset = offsets\<rparr>)"

section \<open>Reading\<close>

definition zfile_size :: "zfileReader \<Rightarrow> int" where
  "zfile_size z = sint (z_originalFileSize (zr_header z))"

text \<open>A block's checksum, the last four bytes of its compressed form, checked and cut off.\<close>

definition check_block :: "zfileReader \<Rightarrow> int \<Rightarrow> byte list \<Rightarrow> go_error + byte list" where
  "check_block z idx packed =
     (if z_verify (zr_header z) = 0 then Inr packed
      else if length packed \<le> 4
      then Inl (Errorf ''zfile block %d is too short to hold its checksum'' [AInt idx])
      else let body = take (length packed - 4) packed;
               want = Uint32 (drop (length packed - 4) packed);
               got = zfileBlockCRC body
           in if got \<noteq> want
              then Inl (Errorf ''zfile block %d checksum is %d, want %d''
                          [AInt idx, AInt (uint got), AInt (uint want)])
              else Inr body)"

text \<open>
  Expanding one block. \<open>scratch\<close> is the buffer borrowed from the pool, with whatever an earlier read
  left in it; it is returned as this read leaves it.
\<close>

definition zfile_block :: "zfileReader \<Rightarrow> int \<Rightarrow> byte list \<Rightarrow> byte list \<times> (go_error + byte list)" where
  "zfile_block z idx scratch =
     (if idx < 0 \<or> idx + 1 \<ge> int (length (zr_blockOffset z))
      then (scratch, Inl (Errorf ''zfile block %d is outside the %d it holds''
                            [AInt idx, AInt (int (length (zr_blockOffset z)) - 1)]))
      else let start = zr_blockOffset z ! nat idx; fin = zr_blockOffset z ! (nat idx + 1);
               compLen = sint (fin - start)
           in if compLen \<le> 0 \<or> compLen > int (length scratch)
              then (scratch, Inl (Errorf ''zfile block %d has an implausible compressed length %d'' [AInt idx, AInt compLen]))
              else (case read_full (zr_src z) (take (nat compLen) scratch) (sint start) of
                      Inl e \<Rightarrow> (scratch, Inl (Wrapf ''read zfile block %d'' [AInt idx] e))
                    | Inr packed \<Rightarrow>
                        (packed @ drop (nat compLen) scratch,
                         case check_block z idx packed of
                           Inl e \<Rightarrow> Inl e
                         | Inr body \<Rightarrow>
                             (case lz4Decompress body (unat (z_blockSize (zr_header z))) of
                                Inl e \<Rightarrow> Inl (Wrapf ''decompress zfile block %d'' [AInt idx] e)
                              | Inr plain \<Rightarrow> Inr plain))))"

text \<open>The loop of \<^verbatim>\<open>ReadAt\<close>; \<open>acc\<close> is what has been read of the \<open>len\<close> bytes.\<close>

function zfile_loop :: "zfileReader \<Rightarrow> nat \<Rightarrow> int \<Rightarrow> byte list \<Rightarrow> byte list \<Rightarrow> byte list \<times> go_error option" where
  "zfile_loop z len off scratch acc =
     (if \<not> length acc < len then (acc, None)
      else let pos = nat (off + int (length acc));
               blockSize = unat (z_blockSize (zr_header z));
               idx = pos div blockSize
           in case zfile_block z (int idx) scratch of
                (scratch', Inl e) \<Rightarrow> (acc, Some e)
              | (scratch', Inr plain) \<Rightarrow>
                  let inBlock = pos mod blockSize
                  in if inBlock \<ge> length plain
                     then (acc, Some (Errorf ''zfile block %d decoded to %d bytes, short of offset %d within it''
                            [AInt (int idx), AInt (int (length plain)), AInt (int inBlock)]))
                     else zfile_loop z len off scratch' (acc @ take (len - length acc) (drop inBlock plain)))"
  by pat_completeness auto
termination
  by (relation "measure (\<lambda>(z, len, off, scratch, acc). len - length acc)") auto

declare zfile_loop.simps [simp del]

definition zfile_ReadAt :: "byte list \<Rightarrow> zfileReader \<Rightarrow> reader" where
  "zfile_ReadAt scratch z len off =
     (if off < 0 then ([], Some (Errorf ''zfile read at a negative offset'' []))
      else if off \<ge> zfile_size z then ([], Some EOF)
      else let len = (if int len > zfile_size z - off then nat (zfile_size z - off) else len)
           in zfile_loop z len off scratch [])"

section \<open>Reading block by block\<close>

text \<open>A reader whose blocks expand to consecutive pieces of \<open>plain\<close>, whatever the scratch buffer held.\<close>

definition serves :: "zfileReader \<Rightarrow> byte list \<Rightarrow> nat \<Rightarrow> bool" where
  "serves z plain room \<longleftrightarrow> 0 < unat (z_blockSize (zr_header z)) \<and> zfile_size z = int (length plain)
     \<and> (\<forall>i scratch. i * unat (z_blockSize (zr_header z)) < length plain \<longrightarrow> length scratch = room \<longrightarrow>
          (\<exists>s'. length s' = room \<and> zfile_block z (int i) scratch
             = (s', Inr (take (unat (z_blockSize (zr_header z))) (drop (i * unat (z_blockSize (zr_header z))) plain)))))"

lemma zfile_loop:
  assumes z: "serves z plain room" and "p0 + len \<le> length plain" "length acc \<le> len"
    "acc = take (length acc) (drop p0 plain)" "length scratch = room"
  shows "zfile_loop z len (int p0) scratch acc = (take len (drop p0 plain), None)"
  using assms(2-)
proof (induction "len - length acc" arbitrary: acc scratch rule: less_induct)
  case less
  show ?case
  proof (cases "length acc < len")
    case False
    then have "length acc = len" using less.prems(2) by simp
    then show ?thesis using less.prems(3) by (simp add: zfile_loop.simps)
  next
    case True
    let ?bs = "unat (z_blockSize (zr_header z))"
    define pos where "pos = p0 + length acc"
    define i where "i = pos div ?bs"
    let ?new = "take (len - length acc) (drop (pos mod ?bs) (take ?bs (drop (i * ?bs) plain)))"
    have bs: "0 < ?bs" using z by (simp add: serves_def)
    have pos: "pos < length plain" using True less.prems(1) by (simp add: pos_def)
    have ipos: "i * ?bs + pos mod ?bs = pos" by (simp add: i_def)
    have modlt: "pos mod ?bs < ?bs" using bs by simp
    have "i * ?bs < length plain" using ipos pos by linarith
    then obtain s' where s': "length s' = room"
      "zfile_block z (int i) scratch = (s', Inr (take ?bs (drop (i * ?bs) plain)))"
      using z less.prems(4) unfolding serves_def by blast
    have new: "?new = take (min (len - length acc) (?bs - pos mod ?bs)) (drop pos plain)"
      unfolding i_def by (rule block_piece)
    have inb: "\<not> pos mod ?bs \<ge> length (take ?bs (drop (i * ?bs) plain))"
      using modlt ipos pos by simp
    have newlen: "length ?new = min (len - length acc) (?bs - pos mod ?bs)"
      unfolding new using less.prems(1) by (simp add: pos_def)
    have "acc @ ?new = take (length acc) (drop p0 plain) @ take (length ?new) (drop (length acc) (drop p0 plain))"
      unfolding newlen using less.prems(3) new by (simp add: pos_def add.commute)
    then have "acc @ ?new = take (length acc + length ?new) (drop p0 plain)" by (simp only: take_add)
    then have acc': "acc @ ?new = take (length (acc @ ?new)) (drop p0 plain)" by (metis length_append)
    have pos_new: "0 < length ?new" "length ?new \<le> len - length acc" unfolding newlen using True modlt by simp_all
    have len': "length (acc @ ?new) \<le> len" using pos_new(2) True unfolding length_append by linarith
    have "len - length (acc @ ?new) < len - length acc" using pos_new True unfolding length_append by linarith
    then have IH: "zfile_loop z len (int p0) s' (acc @ ?new) = (take len (drop p0 plain), None)"
      by (rule less.hyps [OF _ less.prems(1) len' acc' s'(1)])
    have "nat (int p0 + int (length acc)) = pos" by (simp add: pos_def)
    then show ?thesis using True s'(2) inb IH
      by (subst zfile_loop.simps) (simp add: Let_def i_def [symmetric] del: take_drop drop_take)
  qed
qed

lemma serves_reader:
  assumes "serves z plain room" "length scratch = room"
  shows "content_reader (zfile_ReadAt scratch z) plain"
proof
  fix off :: int and n e
  assume off: "0 \<le> off"
  have size: "zfile_size z = int (length plain)" using assms(1) by (simp add: serves_def)
  have "zfile_ReadAt scratch z n off = (take n (drop (nat off) plain), if off \<ge> int (length plain) then Some EOF else None)"
  proof (cases "off \<ge> int (length plain)")
    case True
    then show ?thesis using off by (simp add: zfile_ReadAt_def size)
  next
    case False
    define len where "len = (if int n > int (length plain) - off then nat (int (length plain) - off) else n)"
    have "zfile_loop z len (int (nat off)) scratch [] = (take len (drop (nat off) plain), None)"
      using False off by (intro zfile_loop [OF assms(1) _ _ _ assms(2)]) (auto simp: len_def)
    moreover have "take len (drop (nat off) plain) = take n (drop (nat off) plain)"
      using False off by (auto simp: len_def nat_diff_distrib)
    moreover have "zfile_ReadAt scratch z n off = zfile_loop z len (int (nat off)) scratch []"
      using False off by (simp add: zfile_ReadAt_def size len_def)
    ultimately show ?thesis using False by simp
  qed
  then show "fst (zfile_ReadAt scratch z n off) = take n (drop (nat off) plain)"
    and "snd (zfile_ReadAt scratch z n off) = Some e \<Longrightarrow> isEOF e" by (auto split: if_splits)
qed

end
