(* ===== verification/ZfileFormat.thy ===== *)
theory ZfileFormat
  imports Zfile
begin

text \<open>
  The round trip of the compressed container (\<^verbatim>\<open>src/internal/node/image/zfile.go\<close>): a file laid out as the
  reader documents it opens, and reads as the plain bytes its blocks decompress to.
\<close>

text \<open>
  What \<^verbatim>\<open>overlaybd-commit -z\<close> writes, as the reader understands it: header, checksummed compressed
  blocks, the array of their lengths, trailer.
\<close>

definition encodeZFileHeader :: "zfileHeader \<Rightarrow> byte list" where
  "encodeZFileHeader h =
     (let b = zeros 512;
          b = overwrite b 0 (PutUint64 zfileMagic0);
          b = overwrite b 8 zfileMagic1;
          b = overwrite b 32 (PutUint64 (z_flags h));
          b = overwrite b 40 (PutUint64 (z_indexOffset h));
          b = overwrite b 48 (PutUint64 (z_indexSize h));
          b = overwrite b 56 (PutUint64 (z_originalFileSize h));
          b = overwrite b 64 (PutUint32 (z_indexCRC h));
          b = overwrite b 72 (PutUint32 (z_blockSize h));
          b = overwrite b 76 [z_algo h];
          b = overwrite b 78 [z_useDict h];
          b = overwrite b 84 (PutUint32 (z_dictSize h));
          b = overwrite b 88 [z_verify h]
      in b)"

definition stored :: "byte list \<Rightarrow> byte list" where
  "stored c = c @ PutUint32 (zfileBlockCRC c)"

definition zbody :: "byte list list \<Rightarrow> byte list" where
  "zbody cs = concat (map stored cs)"

definition zindex :: "byte list list \<Rightarrow> byte list" where
  "zindex cs = concat (map (\<lambda>c. PutUint32 (word_of_nat (length (stored c)))) cs)"

definition zheader :: "nat \<Rightarrow> byte list list \<Rightarrow> nat \<Rightarrow> 64 word \<Rightarrow> zfileHeader" where
  "zheader bs cs n flags =
     \<lparr>z_flags = flags, z_indexOffset = word_of_nat (512 + length (zbody cs)), z_indexSize = word_of_nat (length cs),
      z_originalFileSize = word_of_nat n, z_indexCRC = zfileCRC (zindex cs), z_blockSize = word_of_nat bs,
      z_algo = 1, z_useDict = 0, z_dictSize = 0, z_verify = 1\<rparr>"

definition zimage :: "nat \<Rightarrow> byte list list \<Rightarrow> nat \<Rightarrow> byte list" where
  "zimage bs cs n = encodeZFileHeader (zheader bs cs n 23) @ zbody cs @ zindex cs @ encodeZFileHeader (zheader bs cs n 22)"

lemma length_zfileMagic1 [simp]: "length zfileMagic1 = 16"
  by (simp add: zfileMagic1_def)

lemma length_encodeZFileHeader [simp]: "length (encodeZFileHeader h) = 512"
  by (simp add: encodeZFileHeader_def Let_def)

lemma nth_overwrite_after: "i + length data \<le> k \<Longrightarrow> i + length data \<le> length buf \<Longrightarrow> overwrite buf i data ! k = buf ! k"
  by (auto simp: overwrite_def nth_append)

lemma nth_overwrite_before: "k < i \<Longrightarrow> i + length data \<le> length buf \<Longrightarrow> overwrite buf i data ! k = buf ! k"
  by (simp add: nth_overwrite)

lemma nth_overwrite_here: "i < length buf \<Longrightarrow> overwrite buf i [x] ! i = x"
  by (simp add: nth_overwrite)

lemmas zheader_fields = slice_overwrite_same slice_overwrite_before slice_overwrite_after
  nth_overwrite_after nth_overwrite_before nth_overwrite_here

lemma parse_encode_zfileHeader:
  assumes "z_blockSize h \<noteq> 0"
  shows "parseZFileHeader (encodeZFileHeader h) = Inr h"
proof -
  let ?b = "encodeZFileHeader h"
  have "slice ?b 0 8 = PutUint64 zfileMagic0" "slice ?b 8 24 = zfileMagic1"
    "slice ?b 32 40 = PutUint64 (z_flags h)" "slice ?b 40 48 = PutUint64 (z_indexOffset h)"
    "slice ?b 48 56 = PutUint64 (z_indexSize h)" "slice ?b 56 64 = PutUint64 (z_originalFileSize h)"
    "slice ?b 64 68 = PutUint32 (z_indexCRC h)" "slice ?b 72 76 = PutUint32 (z_blockSize h)"
    "slice ?b 84 88 = PutUint32 (z_dictSize h)"
    "?b ! 76 = z_algo h" "?b ! 78 = z_useDict h" "?b ! 88 = z_verify h"
    by (simp_all add: encodeZFileHeader_def Let_def zheader_fields)
  then show ?thesis using assms by (simp add: parseZFileHeader_def zfileHeaderSpace_def)
qed

lemma length_stored: "length (stored c) = length c + 4"
  by (simp add: stored_def)

lemma length_zindex: "length (zindex cs) = length cs * 4"
  by (induction cs) (simp_all add: zindex_def)

lemma index_lengths: "index_lengths (length cs) (zindex cs) = map (\<lambda>c. word_of_nat (length (stored c))) cs"
proof (rule nth_equalityI)
  fix i assume "i < length (index_lengths (length cs) (zindex cs))"
  then have i: "i < length cs" by (simp add: index_lengths_def)
  have "zindex cs = zindex (take i cs) @ PutUint32 (word_of_nat (length (stored (cs ! i)))) @ zindex (drop (Suc i) cs)"
    by (subst id_take_nth_drop [OF i]) (simp add: zindex_def)
  moreover have "length (zindex (take i cs)) = i * 4" using i by (simp add: length_zindex)
  ultimately have "slice (zindex cs) (i * 4) (i * 4 + 4) = PutUint32 (word_of_nat (length (stored (cs ! i))))"
    by (simp add: slice_def)
  then show "index_lengths (length cs) (zindex cs) ! i = map (\<lambda>c. word_of_nat (length (stored c))) cs ! i"
    using i by (simp add: index_lengths_def)
qed (simp add: index_lengths_def)

definition boff :: "byte list list \<Rightarrow> nat \<Rightarrow> nat" where
  "boff cs i = 512 + length (zbody (take i cs))"

lemma boff_Suc: "i < length cs \<Longrightarrow> boff cs (Suc i) = boff cs i + length (stored (cs ! i))"
  by (simp add: boff_def zbody_def take_Suc_conv_app_nth)

lemma boff_mono: "i \<le> j \<Longrightarrow> boff cs i \<le> boff cs j"
proof -
  assume "i \<le> j"
  then have "take j cs = take i cs @ take (j - i) (drop i cs)" by (metis le_add_diff_inverse take_add)
  then show ?thesis by (simp add: boff_def zbody_def)
qed

lemma unat_word_nat: "k < 2 ^ LENGTH('a) \<Longrightarrow> unat (word_of_nat k :: 'a::len word) = k"
  by (simp add: unsigned_of_nat take_bit_nat_eq_self_iff)

lemma block_offsets:
  assumes "i + k = length cs" "\<forall>c \<in> set cs. length c + 4 < 2 ^ 32"
  shows "block_offsets i (word_of_nat (boff cs i)) (map (\<lambda>c. word_of_nat (length (stored c))) (drop i cs))
    = Inr (map (\<lambda>j. word_of_nat (boff cs (Suc j))) [i..<length cs])"
  using assms(1)
proof (induction k arbitrary: i)
  case 0
  then show ?case by simp
next
  case (Suc k)
  then have i: "i < length cs" by simp
  let ?n = "length (stored (cs ! i))"
  have n: "0 < ?n" "?n < 2 ^ 32" using assms(2) i by (simp_all add: length_stored)
  then have u: "unat (word_of_nat ?n :: 32 word) = ?n" by (intro unat_word_nat) simp
  then have nz: "(word_of_nat ?n :: 32 word) \<noteq> 0" using n(1) by (metis less_irrefl unat_0)
  have "unat (ucast (word_of_nat ?n :: 32 word) :: 64 word) = unat (word_of_nat ?n :: 64 word)"
    using u n(2) by (simp add: unat_word_nat)
  then have cast: "ucast (word_of_nat ?n :: 32 word) = (word_of_nat ?n :: 64 word)" by (simp only: word_unat_eq_iff)
  have pos: "word_of_nat (boff cs i) + ucast (word_of_nat ?n :: 32 word) = (word_of_nat (boff cs (Suc i)) :: 64 word)"
    unfolding cast boff_Suc [OF i] by simp
  have drop: "drop i cs = cs ! i # drop (Suc i) cs" using i by (simp add: Cons_nth_drop_Suc)
  have upt: "[i..<length cs] = i # [Suc i..<length cs]" using i by (simp add: upt_conv_Cons)
  show ?case unfolding drop upt list.map block_offsets.simps pos using nz Suc.IH [of "Suc i"] Suc.prems
    by simp
qed

lemma zimage_parts:
  "slice (zimage bs cs n) 0 512 = encodeZFileHeader (zheader bs cs n 23)"
  "length (zimage bs cs n) = 1024 + length (zbody cs) + length cs * 4"
  "slice (zimage bs cs n) (length (zimage bs cs n) - 512) (length (zimage bs cs n)) = encodeZFileHeader (zheader bs cs n 22)"
  "slice (zimage bs cs n) (512 + length (zbody cs)) (512 + length (zbody cs) + length cs * 4) = zindex cs"
  by (simp_all add: zimage_def slice_def length_zindex)

lemma zimage_block:
  assumes "i < length cs"
  shows "slice (zimage bs cs n) (boff cs i) (boff cs (Suc i)) = stored (cs ! i)"
    and "boff cs (Suc i) \<le> length (zimage bs cs n)"
proof -
  have "zbody cs = zbody (take i cs) @ stored (cs ! i) @ zbody (drop (Suc i) cs)"
    by (subst id_take_nth_drop [OF assms]) (simp add: zbody_def)
  then show "slice (zimage bs cs n) (boff cs i) (boff cs (Suc i)) = stored (cs ! i)"
    and "boff cs (Suc i) \<le> length (zimage bs cs n)"
    by (simp_all add: zimage_def slice_def boff_Suc assms) (simp_all add: boff_def)
qed

text \<open>
  The compressed blocks \<open>cs\<close> hold \<open>plain\<close> in pieces of \<open>bs\<close> bytes, and everything fits the widths of the
  container's fields and of the reader's buffer.
\<close>

definition packs :: "nat \<Rightarrow> byte list list \<Rightarrow> byte list \<Rightarrow> bool" where
  "packs bs cs plain \<longleftrightarrow> 0 < bs \<and> bs < 2 ^ 30 \<and> cs \<noteq> [] \<and> length cs \<le> 2 ^ 26 \<and> length plain < 2 ^ 62
     \<and> length (zimage bs cs (length plain)) < 2 ^ 62 \<and> length plain \<le> length cs * bs
     \<and> list_all (\<lambda>i. cs ! i \<noteq> [] \<and> length (cs ! i) + 4 \<le> 2 * bs + 64
                     \<and> lz4Decompress (cs ! i) bs = Inr (take bs (drop (i * bs) plain))) [0..<length cs]"

lemma packs_nth:
  assumes "packs bs cs plain" "i < length cs"
  shows "cs ! i \<noteq> []" "length (stored (cs ! i)) \<le> 2 * bs + 64"
    "lz4Decompress (cs ! i) bs = Inr (take bs (drop (i * bs) plain))"
  using assms by (simp_all add: packs_def list_all_iff length_stored)

definition zopened :: "reader \<Rightarrow> nat \<Rightarrow> byte list list \<Rightarrow> nat \<Rightarrow> zfileReader" where
  "zopened src bs cs n = \<lparr>zr_src = src, zr_header = zheader bs cs n 22,
     zr_blockOffset = map (\<lambda>j. word_of_nat (boff cs j)) [0..<Suc (length cs)]\<rparr>"

lemma packs_bounds:
  assumes "packs bs cs plain"
  shows "0 < bs" "bs < 2 ^ 30" "0 < length cs" "length cs \<le> 2 ^ 26" "length plain < 2 ^ 62"
    "1024 + length (zbody cs) + length cs * 4 < 2 ^ 62" "length plain \<le> length cs * bs"
  using assms by (simp_all add: packs_def zimage_parts)

lemma zheader_fields_packed:
  assumes "packs bs cs plain"
  defines "h f \<equiv> zheader bs cs (length plain) f"
  shows "unat (z_blockSize (h f)) = bs" "unat (z_indexSize (h f)) = length cs"
    "unat (z_indexOffset (h f)) = 512 + length (zbody cs)" "sint (z_indexOffset (h f)) = int (512 + length (zbody cs))"
    "sint (z_originalFileSize (h f)) = int (length plain)" "z_blockSize (h f) \<noteq> 0" "z_indexSize (h f) \<noteq> 0"
    "\<not> z_indexSize (h f) > 2 ^ 26"
proof -
  note b = packs_bounds [OF assms(1)]
  show bs: "unat (z_blockSize (h f)) = bs" unfolding h_def zheader_def zfileHeader.simps
    by (rule unat_word_nat) (use b(2) in simp)
  then show "z_blockSize (h f) \<noteq> 0" using b(1) by (metis less_irrefl unat_0)
  show n: "unat (z_indexSize (h f)) = length cs" unfolding h_def zheader_def zfileHeader.simps
    by (rule unat_word_nat) (use b(4) in simp)
  then show "z_indexSize (h f) \<noteq> 0" using b(3) by (metis less_irrefl unat_0)
  show "\<not> z_indexSize (h f) > 2 ^ 26" using n b(4) by (simp add: word_less_nat_alt)
  show off: "unat (z_indexOffset (h f)) = 512 + length (zbody cs)" unfolding h_def zheader_def zfileHeader.simps
    by (rule unat_word_nat) (use b(6) in simp)
  then show "sint (z_indexOffset (h f)) = int (512 + length (zbody cs))"
    using b(6) by (subst sint_small) simp_all
  have orig: "unat (z_originalFileSize (h f)) = length plain" unfolding h_def zheader_def zfileHeader.simps
    by (rule unat_word_nat) (use b(5) in simp)
  then show "sint (z_originalFileSize (h f)) = int (length plain)"
    using b(5) by (subst sint_small) simp_all
qed

lemma read_full_at:
  assumes "content_reader rd c" "off + length buf \<le> length c"
  shows "read_full rd buf (int off) = Inr (slice c off (off + length buf))"
  using content_reader.read_full_inside [OF assms(1), of "int off" buf] assms(2) by simp

lemma load_zindex:
  assumes "packs bs cs plain" "content_reader src (zimage bs cs (length plain))"
  shows "loadZFileIndex src (zheader bs cs (length plain) 22)
    = Inr (map (\<lambda>j. word_of_nat (boff cs j)) [0..<Suc (length cs)])"
proof -
  let ?h = "zheader bs cs (length plain) 22"
  note h = zheader_fields_packed [OF assms(1)]
  have "read_full src (zeros (length cs * 4)) (int (512 + length (zbody cs))) = Inr (zindex cs)"
    by (subst read_full_at [OF assms(2)]) (simp_all only: length_zeros zimage_parts)
  then have rd: "read_full src (zeros (unat (z_indexSize ?h) * 4)) (sint (z_indexOffset ?h)) = Inr (zindex cs)"
    unfolding h .
  have "\<forall>c \<in> set cs. length c + 4 < 2 ^ 32"
    using packs_nth(2) [OF assms(1)] packs_bounds(2) [OF assms(1)] by (fastforce simp: in_set_conv_nth length_stored)
  then have "block_offsets 0 (word_of_nat (boff cs 0)) (map (\<lambda>c. word_of_nat (length (stored c))) (drop 0 cs))
    = Inr (map (\<lambda>j. word_of_nat (boff cs (Suc j))) [0..<length cs])" by (intro block_offsets [of 0 "length cs"]) simp_all
  then have offs: "block_offsets 0 512 (index_lengths (length cs) (zindex cs))
    = Inr (map (\<lambda>j. word_of_nat (boff cs (Suc j))) [0..<length cs])"
    by (simp add: index_lengths boff_def zbody_def)
  have pos: "word_of_nat zfileHeaderSpace + ucast (z_dictSize ?h) = 512"
    by (simp add: zheader_def zfileHeaderSpace_def)
  have crc: "z_indexCRC ?h = zfileCRC (zindex cs)" by (simp add: zheader_def)
  have "map (\<lambda>j. word_of_nat (boff cs j)) [0..<Suc (length cs)]
    = (512 :: 64 word) # map (\<lambda>j. word_of_nat (boff cs (Suc j))) [0..<length cs]"
    by (subst upt_conv_Cons) (simp_all add: boff_def zbody_def map_Suc_upt [symmetric] del: upt_Suc)
  then show ?thesis unfolding loadZFileIndex_def rd pos crc Let_def using h(7,8)
    by (simp add: h(2) offs)
qed

lemma zflags:
  "z_isHeader (zheader bs cs n 23)" "\<not> z_isHeaderOverwrite (zheader bs cs n 23)" "z_isData (zheader bs cs n 23)"
  "z_isTrailer (zheader bs cs n 22)" "z_isData (zheader bs cs n 22)" "z_isSealed (zheader bs cs n 22)"
  by (simp_all add: zheader_def z_isHeader_def z_isTrailer_def z_isHeaderOverwrite_def z_isData_def z_isSealed_def)

lemma zselect:
  assumes "packs bs cs plain" "content_reader src (zimage bs cs (length plain))"
  shows "select_header src (int (length (zimage bs cs (length plain)))) = Inr (zheader bs cs (length plain) 22)"
proof -
  let ?f = "zimage bs cs (length plain)"
  let ?h = "zheader bs cs (length plain)"
  note h = zheader_fields_packed [OF assms(1)]
  have long: "512 \<le> length ?f" by (simp add: zimage_parts)
  have "read_full src (zeros zfileHeaderSpace) (int 0) = Inr (slice ?f 0 (0 + length (zeros zfileHeaderSpace)))"
    by (rule read_full_at [OF assms(2)]) (use long in \<open>simp add: zfileHeaderSpace_def\<close>)
  then have r0: "read_full src (zeros zfileHeaderSpace) 0 = Inr (encodeZFileHeader (?h 23))"
    by (simp add: zfileHeaderSpace_def zimage_parts)
  have "read_full src (encodeZFileHeader (?h 23)) (int (length ?f - 512))
    = Inr (slice ?f (length ?f - 512) (length ?f - 512 + length (encodeZFileHeader (?h 23))))"
    by (rule read_full_at [OF assms(2)]) (use long in simp)
  then have r1: "read_full src (encodeZFileHeader (?h 23)) (int (length ?f) - int zfileHeaderSpace)
    = Inr (encodeZFileHeader (?h 22))" using long
    by (simp add: zfileHeaderSpace_def zimage_parts(3) of_nat_diff)
  have "word_of_int (int (length ?f)) - word_of_nat zfileHeaderSpace = (word_of_nat (length ?f - 512) :: 64 word)"
    using long by (simp add: zfileHeaderSpace_def of_nat_diff)
  moreover have "unat (word_of_nat (length ?f - 512) :: 64 word) = length ?f - 512"
    using packs_bounds(6) [OF assms(1)] unfolding zimage_parts(2) by (intro unat_word_nat) simp
  ultimately have "unat (word_of_int (int (length ?f)) - word_of_nat zfileHeaderSpace :: 64 word) = length ?f - 512"
    by simp
  then have "\<not> z_indexOffset (?h 22) > word_of_int (int (length ?f)) - word_of_nat zfileHeaderSpace"
    by (simp only: word_less_nat_alt h(3)) (simp add: zimage_parts(2))
  then show ?thesis
    by (simp add: select_header_def r0 r1 parse_encode_zfileHeader h(6) zflags)
qed

lemma zimage_opens:
  assumes "packs bs cs plain" "content_reader src (zimage bs cs (length plain))"
  shows "openZFile src (int (length (zimage bs cs (length plain)))) = Inr (zopened src bs cs (length plain))"
proof -
  have "\<not> int (length (zimage bs cs (length plain))) < int zfileHeaderSpace * 2"
    by (simp add: zimage_parts zfileHeaderSpace_def)
  then show ?thesis
    by (simp add: openZFile_def zselect [OF assms] load_zindex [OF assms] zopened_def)
      (simp add: zheader_def)
qed

lemma check_stored: "c \<noteq> [] \<Longrightarrow> z_verify (zr_header z) = 1 \<Longrightarrow> check_block z idx (stored c) = Inr c"
  by (simp add: check_block_def stored_def Let_def)

lemma zopened_block:
  assumes "packs bs cs plain" "content_reader src (zimage bs cs (length plain))"
    "i * bs < length plain" "length scratch = 2 * bs + 64"
  shows "\<exists>s'. length s' = 2 * bs + 64
    \<and> zfile_block (zopened src bs cs (length plain)) (int i) scratch = (s', Inr (take bs (drop (i * bs) plain)))"
proof -
  let ?z = "zopened src bs cs (length plain)" and ?f = "zimage bs cs (length plain)"
  have "i * bs < length cs * bs" using assms(3) packs_bounds(7) [OF assms(1)] by linarith
  then have i: "i < length cs" by simp
  note p = packs_nth [OF assms(1) i] and b = packs_bounds [OF assms(1)]
  let ?n = "length (stored (cs ! i))"
  have bi: "boff cs (Suc i) = boff cs i + ?n" by (rule boff_Suc [OF i])
  have fits: "boff cs (Suc i) < 2 ^ 62" using zimage_block(2) [OF i, of bs "length plain"] b(6)
    unfolding zimage_parts(2) by linarith
  have uo: "unat (word_of_nat (boff cs i) :: 64 word) = boff cs i" using fits bi by (intro unat_word_nat) simp
  have start: "sint (word_of_nat (boff cs i) :: 64 word) = int (boff cs i)"
    using fits bi uo by (subst sint_small) simp_all
  have un: "unat (word_of_nat ?n :: 64 word) = ?n" using fits bi by (intro unat_word_nat) simp
  have "word_of_nat (boff cs (Suc i)) - word_of_nat (boff cs i) = (word_of_nat ?n :: 64 word)" by (simp add: bi)
  moreover have "sint (word_of_nat ?n :: 64 word) = int ?n" using fits bi un by (subst sint_small) simp_all
  ultimately have len: "sint (word_of_nat (boff cs (Suc i)) - word_of_nat (boff cs i) :: 64 word) = int ?n" by simp
  have offs: "zr_blockOffset ?z ! nat (int i) = word_of_nat (boff cs i)"
    "zr_blockOffset ?z ! (nat (int i) + 1) = word_of_nat (boff cs (Suc i))"
    "length (zr_blockOffset ?z) = length cs + 1"
    using i by (simp_all add: zopened_def del: upt_Suc)
  have "read_full src (take ?n scratch) (int (boff cs i)) = Inr (slice ?f (boff cs i) (boff cs i + length (take ?n scratch)))"
    using zimage_block(2) [OF i, of bs "length plain"] bi p(2) assms(4) by (intro read_full_at [OF assms(2)]) simp
  then have rd: "read_full src (take ?n scratch) (int (boff cs i)) = Inr (stored (cs ! i))"
    using p(2) assms(4) zimage_block(1) [OF i, of bs "length plain"] bi by (simp add: min_absorb2)
  have src: "zr_src ?z = src" and bs: "unat (z_blockSize (zr_header ?z)) = bs"
    using zheader_fields_packed(1) [OF assms(1)] by (simp_all add: zopened_def)
  have chk: "check_block ?z (int i) (stored (cs ! i)) = Inr (cs ! i)"
    using p(1) by (intro check_stored) (simp_all add: zopened_def zheader_def)
  have npos: "0 < ?n" by (simp add: length_stored)
  have "zfile_block ?z (int i) scratch = (stored (cs ! i) @ drop ?n scratch, Inr (take bs (drop (i * bs) plain)))"
    unfolding zfile_block_def offs Let_def src start len bs
    using i p(2) npos assms(4) by (simp add: rd chk p(3))
  moreover have "length (stored (cs ! i) @ drop ?n scratch) = 2 * bs + 64" using p(2) assms(4) by simp
  ultimately show ?thesis by blast
qed

lemma zopened_reader:
  assumes "packs bs cs plain" "content_reader src (zimage bs cs (length plain))" "length scratch = 2 * bs + 64"
  shows "content_reader (zfile_ReadAt scratch (zopened src bs cs (length plain))) plain"
proof (rule serves_reader [OF _ assms(3)])
  have "unat (z_blockSize (zr_header (zopened src bs cs (length plain)))) = bs"
    "zfile_size (zopened src bs cs (length plain)) = int (length plain)"
    using zheader_fields_packed [OF assms(1)] by (simp_all add: zopened_def zfile_size_def)
  then show "serves (zopened src bs cs (length plain)) plain (2 * bs + 64)"
    unfolding serves_def using packs_bounds(1) [OF assms(1)] zopened_block [OF assms(1,2)] by simp
qed

text \<open>
  C8. A compressed layer reads back as what was compressed into it: take any bytes cut into blocks, each
  block compressed so that the LZ4 decoder expands it, stored with its checksum and laid out with header,
  index and trailer. Opening that file succeeds, and a read at any offset, of any length and with whatever
  the borrowed scratch buffer holds, returns exactly the plain bytes there, with no error but the end of
  the data.
\<close>

theorem zfile_roundtrip:
  assumes "packs bs cs plain"
  shows "\<exists>z. openZFile (file_ReadAt (zimage bs cs (length plain))) (int (length (zimage bs cs (length plain)))) = Inr z
    \<and> (\<forall>scratch n off. 0 \<le> off \<and> length scratch = 2 * bs + 64 \<longrightarrow>
          fst (zfile_ReadAt scratch z n off) = take n (drop (nat off) plain)
          \<and> (\<forall>e. snd (zfile_ReadAt scratch z n off) = Some e \<longrightarrow> isEOF e))"
  using zimage_opens [OF assms os_file.content_reader_axioms]
    zopened_reader [OF assms os_file.content_reader_axioms, THEN content_reader.read_content]
    zopened_reader [OF assms os_file.content_reader_axioms, THEN content_reader.read_error]
  by blast

definition example_packed :: "byte list list" where
  "example_packed = [[0x17, 7, 1, 0, 0x50, 8, 8, 8, 8, 8], [0x30, 1, 2, 3]]"

definition example_plain :: "byte list" where
  "example_plain = replicate 12 7 @ replicate 4 8 @ [8, 1, 2, 3]"

lemma example_packs: "packs 17 example_packed example_plain"
proof -
  have "lz4Decompress (example_packed ! 0) 17 = Inr (take 17 example_plain)"
    "lz4Decompress (example_packed ! 1) 17 = Inr (take 17 (drop 17 example_plain))"
    by code_simp+
  moreover have "length (zimage 17 example_packed (length example_plain)) < 2 ^ 62"
    by (simp add: zimage_parts zbody_def example_packed_def length_stored)
  ultimately show ?thesis
    by (simp add: packs_def list_all_iff example_packed_def example_plain_def upt_rec)
qed

theorem zfile_roundtrip_witness:
  "\<exists>z. openZFile (file_ReadAt (zimage 17 example_packed 20)) (int (length (zimage 17 example_packed 20))) = Inr z
    \<and> fst (zfile_ReadAt (zeros 98) z 4 15) = [8, 8, 1, 2]"
proof -
  have "length example_plain = 20" "take 4 (drop 15 example_plain) = [8, 8, 1, 2]"
    by (simp_all add: example_plain_def)
  then show ?thesis using zfile_roundtrip [OF example_packs] by fastforce
qed

end
