(* ===== verification/LsmtWrite.thy ===== *)
theory LsmtWrite
  imports StackRead
begin

text \<open>
  Sealing a layer (\<^verbatim>\<open>src/internal/node/image/lsmtwrite.go\<close>). The destination is a file on a
  device of finite capacity, so that a write can fail; the extents to seal are read through a
  reader, as the code reads a copy-on-write overlay.
\<close>

section \<open>The destination file\<close>

record dst =
  d_bytes :: "byte list"
  d_pos :: nat
  d_capacity :: nat

definition dst_Write :: "dst \<Rightarrow> byte list \<Rightarrow> go_error + dst" where
  "dst_Write d b =
     (if d_pos d + length b > d_capacity d then Inl (Errorf ''no space left on device'' [])
      else Inr (d\<lparr>d_bytes := overwrite (d_bytes d @ zeros (d_pos d - length (d_bytes d))) (d_pos d) b,
                  d_pos := d_pos d + length b\<rparr>))"

definition dst_Seek :: "dst \<Rightarrow> nat \<Rightarrow> dst" where
  "dst_Seek d off = d\<lparr>d_pos := off\<rparr>"

section \<open>Writing\<close>

definition lsmtWriteFlagsHeader :: "32 word" where
  "lsmtWriteFlagsHeader = lsmtFlagHeader OR lsmtFlagData OR lsmtFlagSealed"

definition lsmtWriteFlagsTrailer :: "32 word" where
  "lsmtWriteFlagsTrailer = lsmtFlagData OR lsmtFlagSealed"

record sealedExtent =
  e_offset :: "64 word"
  e_length :: "32 word"

definition chunk_of :: "32 word \<Rightarrow> 32 word" where
  "chunk_of remaining = (if ucast remaining > lsmtLengthMask then ucast lsmtLengthMask else remaining)"

lemma unat_chunk_of: "unat (chunk_of r) = min (unat r) 16383"
proof -
  have m: "lsmtLengthMask = 16383" by (simp add: lsmtLengthMask_def)
  have "ucast r > lsmtLengthMask \<longleftrightarrow> 16383 < unat r"
    unfolding m word_less_nat_alt by simp
  then show ?thesis by (simp add: chunk_of_def m)
qed

text \<open>One extent, in chunks of at most the 14 bits of sectors an index entry has.\<close>

function write_run ::
  "reader \<Rightarrow> 64 word \<Rightarrow> 32 word \<Rightarrow> 64 word \<Rightarrow> dst \<Rightarrow> go_error + dst \<times> 64 word \<times> lsmtMapping list" where
  "write_run read virt remaining physSector d =
     (if remaining = 0 then Inr (d, physSector, [])
      else let chunk = chunk_of remaining;
               n = nat (uint chunk * int lsmtAlignment)
           in case read n (i64 (sint virt * int lsmtAlignment)) of (bs, err) \<Rightarrow>
                if (case err of None \<Rightarrow> False | Some e \<Rightarrow> \<not> isEOF e)
                then Inl (Wrapf ''read extent at sector %d'' [AInt (uint virt)] (the err))
                else case dst_Write d (bs @ zeros (n - length bs)) of
                    Inl e \<Rightarrow> Inl (Wrapf ''write extent at sector %d'' [AInt (uint virt)] e)
                  | Inr d' \<Rightarrow>
                      (case write_run read (virt + ucast chunk) (remaining - chunk) (physSector + ucast chunk) d' of
                         Inl e \<Rightarrow> Inl e
                       | Inr (d2, phys2, ms) \<Rightarrow>
                           Inr (d2, phys2, \<lparr>m_offset = virt, m_length = chunk, m_moffset = physSector,
                                            m_zeroed = False, m_tag = 0\<rparr> # ms)))"
  by pat_completeness auto
termination
proof (relation "measure (\<lambda>(read, virt, remaining, phys, d). unat remaining)")
  fix remaining chunk :: "32 word"
  assume r: "remaining \<noteq> 0" and c: "chunk = chunk_of remaining"
  have "0 < unat remaining" using r by (simp add: unat_gt_0)
  then have "0 < unat chunk" "unat chunk \<le> unat remaining" using unat_chunk_of [of remaining] by (auto simp: c)
  then have "unat (remaining - chunk) < unat remaining"
    by (simp add: unat_sub word_le_nat_alt)
  then show "((read, virt + ucast chunk, remaining - chunk, physSector + ucast chunk, d'),
      read, virt, remaining, physSector, d) \<in> measure (\<lambda>(read, virt, remaining, phys, d). unat remaining)"
    for read :: reader and virt physSector :: "64 word" and d d' :: dst by simp
qed auto

declare write_run.simps [simp del]

fun write_extents ::
  "reader \<Rightarrow> sealedExtent list \<Rightarrow> 64 word \<Rightarrow> dst \<Rightarrow> go_error + dst \<times> 64 word \<times> lsmtMapping list" where
  "write_extents read [] physSector d = Inr (d, physSector, [])"
| "write_extents read (e # es) physSector d =
     (if e_length e = 0 then write_extents read es physSector d
      else case write_run read (e_offset e) (e_length e) physSector d of
          Inl err \<Rightarrow> Inl err
        | Inr (d1, phys1, ms1) \<Rightarrow>
            (case write_extents read es phys1 d1 of
               Inl err \<Rightarrow> Inl err
             | Inr (d2, phys2, ms2) \<Rightarrow> Inr (d2, phys2, ms1 @ ms2)))"

fun write_index :: "lsmtMapping list \<Rightarrow> dst \<Rightarrow> go_error + dst" where
  "write_index [] d = Inr d"
| "write_index (m # ms) d =
     (case dst_Write d (encodeLSMTMapping m) of
        Inl e \<Rightarrow> Inl (Wrapf ''write index'' [] e)
      | Inr d' \<Rightarrow> write_index ms d')"

definition writeSealedLSMT :: "dst \<Rightarrow> 64 word \<Rightarrow> sealedExtent list \<Rightarrow> reader \<Rightarrow> go_error + dst" where
  "writeSealedLSMT d virtualSize extents read =
     (if virtualSize = 0 then Inl (Errorf ''a sealed layer needs a non-zero virtual size'' [])
      else if extents = [] then Inl (Errorf ''refusing to seal a layer with no extents'' [])
      else let sorted = sort_slice (\<lambda>a b. e_offset a < e_offset b) extents;
               d = dst_Seek d lsmtHeaderSpace
           in case write_extents read sorted (word_of_nat (lsmtHeaderSpace div lsmtAlignment)) d of
                Inl e \<Rightarrow> Inl e
              | Inr (d, physSector, mappings) \<Rightarrow>
                  if mappings = [] then Inl (Errorf ''every extent was empty, so there is nothing to seal'' [])
                  else let indexOffset = physSector * word_of_nat lsmtAlignment
                       in case write_index mappings d of
                            Inl e \<Rightarrow> Inl e
                          | Inr d \<Rightarrow>
                       (case dst_Write d (encodeLSMTHeader \<lparr>h_flags = lsmtWriteFlagsTrailer,
                               h_indexOffset = indexOffset, h_indexSize = word_of_nat (length mappings),
                               h_virtualSize = virtualSize\<rparr>) of
                          Inl e \<Rightarrow> Inl (Wrapf ''write trailer'' [] e)
                        | Inr d \<Rightarrow>
                            (case dst_Write (dst_Seek d 0) (encodeLSMTHeader \<lparr>h_flags = lsmtWriteFlagsHeader,
                               h_indexOffset = indexOffset, h_indexSize = word_of_nat (length mappings),
                               h_virtualSize = virtualSize\<rparr>) of
                               Inl e \<Rightarrow> Inl (Wrapf ''write header'' [] e)
                             | Inr d \<Rightarrow> Inr d)))"

text \<open>
  \<^verbatim>\<open>sealFileTo\<close> on a directory (paths to contents) of a device with \<open>room\<close> bytes left: created
  exclusively, removed again if the writing fails.
\<close>

definition sealFileTo ::
  "(string \<rightharpoonup> byte list) \<Rightarrow> nat \<Rightarrow> string \<Rightarrow> 64 word \<Rightarrow> sealedExtent list \<Rightarrow> reader
    \<Rightarrow> (string \<rightharpoonup> byte list) \<times> go_error option" where
  "sealFileTo dir room path virtualSize extents read =
     (case dir path of
        Some _ \<Rightarrow> (dir, Some (Wrapf ''create sealed layer %s'' [AStr path] (Errorf ''file exists'' [])))
      | None \<Rightarrow>
          (case writeSealedLSMT \<lparr>d_bytes = [], d_pos = 0, d_capacity = room\<rparr> virtualSize extents read of
             Inl e \<Rightarrow> ((dir(path \<mapsto> []))(path := None), Some e)
           | Inr d \<Rightarrow> (dir(path \<mapsto> d_bytes d), None)))"

section \<open>Appending to the destination\<close>

definition appending :: "dst \<Rightarrow> byte list \<Rightarrow> nat \<Rightarrow> bool" where
  "appending d f cap \<longleftrightarrow> d_bytes d @ zeros (d_pos d - length (d_bytes d)) = f
     \<and> length (d_bytes d) \<le> d_pos d \<and> d_capacity d = cap"

lemma appending_pos: "appending d f cap \<Longrightarrow> d_pos d = length f"
  by (auto simp: appending_def)

lemma appending_write:
  assumes "appending d f cap" "length f + length b \<le> cap"
  shows "\<exists>d'. dst_Write d b = Inr d' \<and> appending d' (f @ b) cap"
proof -
  have "d_bytes d @ zeros (d_pos d - length (d_bytes d)) = f" "d_pos d = length f" "d_capacity d = cap"
    using assms(1) appending_pos [OF assms(1)] by (simp_all add: appending_def)
  then show ?thesis using assms(2)
    by (simp add: dst_Write_def appending_def overwrite_def zeros_def)
qed

lemma appending_bytes: "appending d f cap \<Longrightarrow> d_pos d = length (d_bytes d) \<Longrightarrow> d_bytes d = f"
  by (simp add: appending_def zeros_def)

section \<open>The chunks of one extent\<close>

definition sectors :: "byte list \<Rightarrow> nat \<Rightarrow> nat \<Rightarrow> byte list" where
  "sectors disk v l = map (file_byte disk) [v * 512..<(v + l) * 512]"

lemma length_sectors [simp]: "length (sectors disk v l) = l * 512"
  by (simp add: sectors_def algebra_simps)

lemma sectors_split: "sectors disk v (a + b) = sectors disk v a @ sectors disk (v + a) b"
proof -
  have "[v * 512..<(v + (a + b)) * 512] = [v * 512..<(v + a) * 512] @ [(v + a) * 512..<(v + a + b) * 512]"
    using upt_add_eq_append [of "v * 512" "(v + a) * 512" "b * 512"] by (simp add: algebra_simps)
  then show ?thesis by (simp add: sectors_def)
qed

lemma sectors_read:
  "take (l * 512) (drop (v * 512) disk) @ zeros (l * 512 - length (take (l * 512) (drop (v * 512) disk)))
    = sectors disk v l" (is "?a = ?b")
proof (rule nth_equalityI)
  show "length ?a = length ?b" by (simp add: zeros_def)
  fix i assume "i < length ?a"
  then have i: "i < l * 512" by (simp add: zeros_def)
  then show "?a ! i = ?b ! i"
    by (subst file_byte_read [OF i]) (simp add: sectors_def algebra_simps)
qed

lemma nth_sectors: "i < l * 512 \<Longrightarrow> sectors disk v l ! i = file_byte disk (v * 512 + i)"
  by (simp add: sectors_def algebra_simps)

text \<open>The index entries a run of sectors is written under.\<close>

definition run_entries :: "64 word \<Rightarrow> 32 word \<Rightarrow> 64 word \<Rightarrow> lsmtMapping list \<Rightarrow> bool" where
  "run_entries virt len phys ms \<longleftrightarrow>
     (\<forall>m \<in> set ms. unat virt \<le> unat (m_offset m) \<and> unat (m_offset m) + unat (m_length m) \<le> unat virt + unat len
        \<and> 0 < unat (m_length m) \<and> unat (m_length m) < 2 ^ 14 \<and> \<not> m_zeroed m
        \<and> unat (m_moffset m) = unat phys + (unat (m_offset m) - unat virt))
     \<and> sorted_wrt (\<lambda>a b. unat (m_offset a) + unat (m_length a) \<le> unat (m_offset b)) ms
     \<and> (\<forall>k. unat virt \<le> k \<longrightarrow> k < unat virt + unat len \<longrightarrow>
          (\<exists>m \<in> set ms. unat (m_offset m) \<le> k \<and> k < unat (m_offset m) + unat (m_length m)))
     \<and> length ms = (unat len + 16382) div 16383"

lemma unat_add_chunk:
  "unat (v :: 64 word) + unat (c :: 32 word) < 2 ^ 64 \<Longrightarrow> unat (v + ucast c) = unat v + unat c"
  by (simp add: unat_word_ariths)

lemma chunk_bounds:
  assumes "r \<noteq> 0"
  shows "0 < unat (chunk_of r)" "unat (chunk_of r) \<le> unat r" "unat (chunk_of r) < 2 ^ 14"
    "unat (r - chunk_of r) = unat r - unat (chunk_of r)"
    "(unat r + 16382) div 16383 = Suc ((unat (r - chunk_of r) + 16382) div 16383)"
proof -
  have "0 < unat r" using assms by (simp add: unat_gt_0)
  then show c: "0 < unat (chunk_of r)" "unat (chunk_of r) \<le> unat r" "unat (chunk_of r) < 2 ^ 14"
    by (auto simp: unat_chunk_of)
  then show u: "unat (r - chunk_of r) = unat r - unat (chunk_of r)" by (simp add: unat_sub word_le_nat_alt)
  show "(unat r + 16382) div 16383 = Suc ((unat (r - chunk_of r) + 16382) div 16383)"
  proof (cases "unat r \<le> 16383")
    case True
    then have "unat r - unat (chunk_of r) = 0" by (simp add: unat_chunk_of)
    moreover have "(unat r + 16382) div 16383 = 1" using True \<open>0 < unat r\<close> by (intro div_nat_eqI) auto
    ultimately show ?thesis unfolding u by simp
  next
    case False
    then have "unat r + 16382 = (unat r - unat (chunk_of r) + 16382) + 16383"
      by (simp add: unat_chunk_of)
    then show ?thesis unfolding u by simp
  qed
qed

lemma run_entries_Cons:
  assumes r: "len \<noteq> 0" and fit: "unat virt + unat len < 2 ^ 50" "unat phys + unat len < 2 ^ 53"
    and tl: "run_entries (virt + ucast (chunk_of len)) (len - chunk_of len) (phys + ucast (chunk_of len)) ms"
  shows "run_entries virt len phys
    (\<lparr>m_offset = virt, m_length = chunk_of len, m_moffset = phys, m_zeroed = False, m_tag = 0\<rparr> # ms)"
proof -
  note c = chunk_bounds [OF r]
  have v: "unat (virt + ucast (chunk_of len)) = unat virt + unat (chunk_of len)"
    and p: "unat (phys + ucast (chunk_of len)) = unat phys + unat (chunk_of len)"
    using fit c(2) by (simp_all add: unat_add_chunk)
  note t = tl [unfolded run_entries_def v p c(4)]
  let ?m = "\<lparr>m_offset = virt, m_length = chunk_of len, m_moffset = phys, m_zeroed = False, m_tag = 0\<rparr>"
  have ms: "unat virt \<le> unat (m_offset m)" "unat (m_offset m) + unat (m_length m) \<le> unat virt + unat len"
      "0 < unat (m_length m)" "unat (m_length m) < 2 ^ 14" "\<not> m_zeroed m"
      "unat (m_moffset m) = unat phys + (unat (m_offset m) - unat virt)"
      "unat virt + unat (chunk_of len) \<le> unat (m_offset m)" if m: "m \<in> set ms" for m
  proof -
    have "unat virt + unat (chunk_of len) \<le> unat (m_offset m)"
      "unat (m_offset m) + unat (m_length m) \<le> unat virt + unat (chunk_of len) + (unat len - unat (chunk_of len))"
      "unat (m_moffset m) = unat phys + unat (chunk_of len) + (unat (m_offset m) - (unat virt + unat (chunk_of len)))"
      "0 < unat (m_length m)" "unat (m_length m) < 2 ^ 14" "\<not> m_zeroed m"
      using t m by blast+
    then show "unat virt \<le> unat (m_offset m)" "unat (m_offset m) + unat (m_length m) \<le> unat virt + unat len"
      "0 < unat (m_length m)" "unat (m_length m) < 2 ^ 14" "\<not> m_zeroed m"
      "unat (m_moffset m) = unat phys + (unat (m_offset m) - unat virt)"
      "unat virt + unat (chunk_of len) \<le> unat (m_offset m)"
      using c(2) by linarith+
  qed
  have cover: "\<exists>m \<in> set (?m # ms). unat (m_offset m) \<le> k \<and> k < unat (m_offset m) + unat (m_length m)"
    if k: "unat virt \<le> k" "k < unat virt + unat len" for k
  proof (cases "k < unat virt + unat (chunk_of len)")
    case True
    then show ?thesis using k by simp
  next
    case False
    then have "unat virt + unat (chunk_of len) \<le> k"
      "k < unat virt + unat (chunk_of len) + (unat len - unat (chunk_of len))" using k(2) by linarith+
    then show ?thesis using t by (meson list.set_intros(2))
  qed
  show ?thesis unfolding run_entries_def
  proof (intro conjI)
    show "sorted_wrt (\<lambda>a b. unat (m_offset a) + unat (m_length a) \<le> unat (m_offset b)) (?m # ms)"
      using t ms(7) by simp
    show "length (?m # ms) = (unat len + 16382) div 16383" using t unfolding c(5) c(4) by simp
  qed (use ms c cover in \<open>auto simp del: unsigned_less\<close>)
qed

lemma sector_position:
  assumes "unat (v :: 64 word) < 2 ^ 50"
  shows "i64 (sint v * int lsmtAlignment) = int (unat v * 512)"
proof -
  have "sint v = int (unat v)" using assms by (intro sint_small) simp
  then have "sint v * int lsmtAlignment = int (unat v * 512)" by (simp add: lsmtAlignment_def)
  moreover have "int (unat v * 512) < 2 ^ 63"
  proof -
    have "unat v * 512 < 2 ^ 63" using assms by simp
    then show ?thesis by (simp only: of_nat_less_iff [symmetric, where ?'a = int] of_nat_power of_nat_numeral)
  qed
  moreover have "- (2 ^ 63) \<le> int (unat v * 512)" by (rule order_trans [of _ 0]) simp_all
  ultimately show ?thesis by (simp only: i64_id)
qed

lemma ucast_split:
  assumes "unat c \<le> unat (l :: 32 word)"
  shows "(ucast c :: 64 word) + ucast (l - c) = ucast l"
proof (rule unsigned_word_eqI)
  have "unat (l - c) = unat l - unat c" using assms by (simp add: unat_sub word_le_nat_alt)
  moreover have "unat l < 2 ^ 32" using unsigned_less [of l, where ?'a = nat] by simp
  ultimately show "unat ((ucast c :: 64 word) + ucast (l - c)) = unat (ucast l :: 64 word)"
    using assms by (subst unat_add_chunk) simp_all
qed

lemma write_run:
  assumes rd: "content_reader read disk" and "appending d f cap" "unat virt + unat len < 2 ^ 50"
    "unat phys + unat len < 2 ^ 53" "length f + unat len * 512 \<le> cap"
  shows "\<exists>d' ms. write_run read virt len phys d = Inr (d', phys + ucast len, ms)
    \<and> appending d' (f @ sectors disk (unat virt) (unat len)) cap \<and> run_entries virt len phys ms"
  using assms(2-)
proof (induction "unat len" arbitrary: virt len phys d f rule: less_induct)
  case less
  show ?case
  proof (cases "len = 0")
    case True
    then show ?thesis using less.prems(1)
      by (simp add: write_run.simps [of _ _ 0] sectors_def run_entries_def)
  next
    case False
    note c = chunk_bounds [OF False]
    let ?c = "chunk_of len"
    have n: "nat (uint ?c * int lsmtAlignment) = unat ?c * 512"
      by (simp add: lsmtAlignment_def nat_mult_distrib)
    have off: "i64 (sint virt * int lsmtAlignment) = int (unat virt * 512)"
      using less.prems(2) by (intro sector_position) linarith
    obtain bs err where out: "read (unat ?c * 512) (int (unat virt * 512)) = (bs, err)" by (meson surj_pair)
    have "bs = take (unat ?c * 512) (drop (unat virt * 512) disk)"
      using content_reader.read_content [OF rd, of "int (unat virt * 512)" "unat ?c * 512"] out
      by (simp only: of_nat_0_le_iff nat_int fst_conv)
    then have bs: "bs @ zeros (unat ?c * 512 - length bs) = sectors disk (unat virt) (unat ?c)"
      by (simp only: sectors_read)
    have err: "\<not> (case err of None \<Rightarrow> False | Some e \<Rightarrow> \<not> isEOF e)"
      using content_reader.read_error [OF rd, of "int (unat virt * 512)" "unat ?c * 512"] out
      by (simp split: option.split)
    obtain d1 where d1: "dst_Write d (sectors disk (unat virt) (unat ?c)) = Inr d1"
      "appending d1 (f @ sectors disk (unat virt) (unat ?c)) cap"
      using appending_write [OF less.prems(1), of "sectors disk (unat virt) (unat ?c)"] less.prems(4) c(2)
      by (auto simp: mult_le_mono1 intro: order_trans [rotated])
    have v: "unat (virt + ucast ?c) = unat virt + unat ?c" and p: "unat (phys + ucast ?c) = unat phys + unat ?c"
      using less.prems c(2) by (simp_all add: unat_add_chunk)
    obtain d2 ms where d2: "write_run read (virt + ucast ?c) (len - ?c) (phys + ucast ?c) d1
          = Inr (d2, phys + ucast ?c + ucast (len - ?c), ms)"
      "appending d2 ((f @ sectors disk (unat virt) (unat ?c)) @ sectors disk (unat virt + unat ?c) (unat len - unat ?c)) cap"
      "run_entries (virt + ucast ?c) (len - ?c) (phys + ucast ?c) ms"
    proof -
      have "unat (len - ?c) < unat len" using c(1,2,4) by linarith
      moreover have "length (f @ sectors disk (unat virt) (unat ?c)) + unat (len - ?c) * 512 \<le> cap"
        using less.prems(4) c(2,4) by (simp add: diff_mult_distrib)
      moreover have "unat (virt + ucast ?c) + unat (len - ?c) < 2 ^ 50"
        "unat (phys + ucast ?c) + unat (len - ?c) < 2 ^ 53"
        using less.prems(2,3) c(2) unfolding v p c(4) by linarith+
      ultimately show thesis
        using less.hyps [of "len - ?c" d1 "f @ sectors disk (unat virt) (unat ?c)" "virt + ucast ?c" "phys + ucast ?c"]
          d1(2) that unfolding v c(4) by blast
    qed
    have phys: "phys + ucast ?c + ucast (len - ?c) = phys + ucast len"
      using ucast_split [OF c(2)] by (simp only: add.assoc)
    have "(f @ sectors disk (unat virt) (unat ?c)) @ sectors disk (unat virt + unat ?c) (unat len - unat ?c)
        = f @ sectors disk (unat virt) (unat len)"
      using sectors_split [of disk "unat virt" "unat ?c" "unat len - unat ?c"] c(2) by simp
    then have app: "appending d2 (f @ sectors disk (unat virt) (unat len)) cap" using d2(2) by simp
    have "write_run read virt len phys d = Inr (d2, phys + ucast len,
      \<lparr>m_offset = virt, m_length = ?c, m_moffset = phys, m_zeroed = False, m_tag = 0\<rparr> # ms)"
      using False err by (simp add: write_run.simps [of read virt len] n off Let_def out bs d1(1) d2(1) phys
          del: of_nat_mult)
    then show ?thesis using app run_entries_Cons [OF False less.prems(2,3) d2(3)] by blast
  qed
qed

section \<open>All extents\<close>

text \<open>An index entry points at a copy of its sectors in the file.\<close>

definition entry_holds :: "byte list \<Rightarrow> byte list \<Rightarrow> lsmtMapping \<Rightarrow> bool" where
  "entry_holds disk f m \<longleftrightarrow> \<not> m_zeroed m \<and> 0 < unat (m_length m) \<and> unat (m_length m) < 2 ^ 14
     \<and> 4096 \<le> unat (m_moffset m) * 512 \<and> (unat (m_moffset m) + unat (m_length m)) * 512 \<le> length f
     \<and> (\<forall>j < unat (m_length m) * 512.
          f ! (unat (m_moffset m) * 512 + j) = file_byte disk (unat (m_offset m) * 512 + j))"

lemma entry_holds_append: "entry_holds disk f m \<Longrightarrow> entry_holds disk (f @ g) m"
  by (auto simp: entry_holds_def nth_append algebra_simps)

lemma run_entries_hold:
  assumes "run_entries virt len phys ms" "length f = unat phys * 512" "m \<in> set ms" "4096 \<le> length f"
  shows "entry_holds disk (f @ sectors disk (unat virt) (unat len)) m"
proof -
  have m: "unat virt \<le> unat (m_offset m)" "unat (m_offset m) + unat (m_length m) \<le> unat virt + unat len"
    "0 < unat (m_length m)" "unat (m_length m) < 2 ^ 14" "\<not> m_zeroed m"
    "unat (m_moffset m) = unat phys + (unat (m_offset m) - unat virt)"
    using assms(1,3) unfolding run_entries_def by blast+
  have "(f @ sectors disk (unat virt) (unat len)) ! (unat (m_moffset m) * 512 + j)
      = file_byte disk (unat (m_offset m) * 512 + j)" if j: "j < unat (m_length m) * 512" for j
  proof -
    have p: "unat (m_moffset m) * 512 + j = length f + ((unat (m_offset m) - unat virt) * 512 + j)"
      unfolding m(6) assms(2) by (simp add: algebra_simps)
    have i: "(unat (m_offset m) - unat virt) * 512 + j < unat len * 512" using j m(1,2) by linarith
    have o: "unat virt * 512 + ((unat (m_offset m) - unat virt) * 512 + j) = unat (m_offset m) * 512 + j"
      using m(1) by linarith
    show ?thesis unfolding p nth_append_length_plus nth_sectors [OF i] o ..
  qed
  moreover have "(unat (m_moffset m) + unat (m_length m)) * 512 \<le> (unat phys + unat len) * 512"
    using m(1,2,6) by (intro mult_le_mono1) linarith
  moreover have "4096 \<le> unat (m_moffset m) * 512" using m(6) assms(2,4) by linarith
  ultimately show ?thesis using m(3,4,5) assms(2) by (simp add: entry_holds_def algebra_simps)
qed

definition total_sectors :: "sealedExtent list \<Rightarrow> nat" where
  "total_sectors es = sum_list (map (\<lambda>e. unat (e_length e)) es)"

definition index_entries :: "sealedExtent list \<Rightarrow> nat" where
  "index_entries es = sum_list (map (\<lambda>e. (unat (e_length e) + 16382) div 16383) es)"

definition extents_wf :: "sealedExtent list \<Rightarrow> bool" where
  "extents_wf es \<longleftrightarrow> (\<forall>e \<in> set es. unat (e_offset e) + unat (e_length e) < 2 ^ 50)
     \<and> sorted_wrt (\<lambda>a b. unat (e_offset a) + unat (e_length a) \<le> unat (e_offset b)) es"

definition e_inside :: "nat \<Rightarrow> sealedExtent \<Rightarrow> bool" where
  "e_inside k e \<longleftrightarrow> unat (e_offset e) \<le> k \<and> k < unat (e_offset e) + unat (e_length e)"

definition layout :: "byte list \<Rightarrow> byte list \<Rightarrow> sealedExtent list \<Rightarrow> lsmtMapping list \<Rightarrow> bool" where
  "layout disk f es ms \<longleftrightarrow>
     (\<forall>m \<in> set ms. entry_holds disk f m \<and> (\<exists>e \<in> set es. unat (e_offset e) \<le> unat (m_offset m)
         \<and> unat (m_offset m) + unat (m_length m) \<le> unat (e_offset e) + unat (e_length e)))
     \<and> sorted_wrt (\<lambda>a b. unat (m_offset a) + unat (m_length a) \<le> unat (m_offset b)) ms
     \<and> (\<forall>e \<in> set es. \<forall>k. e_inside k e \<longrightarrow>
          (\<exists>m \<in> set ms. unat (m_offset m) \<le> k \<and> k < unat (m_offset m) + unat (m_length m)))
     \<and> length ms = index_entries es"

lemma layout_append:
  assumes run: "run_entries (e_offset e) (e_length e) phys ms1" "length f = unat phys * 512" "4096 \<le> length f"
    and es: "layout disk ((f @ sectors disk (unat (e_offset e)) (unat (e_length e))) @ g) es ms2"
    and sorted: "\<forall>e' \<in> set es. unat (e_offset e) + unat (e_length e) \<le> unat (e_offset e')"
  shows "layout disk ((f @ sectors disk (unat (e_offset e)) (unat (e_length e))) @ g) (e # es) (ms1 @ ms2)"
proof -
  have r: "unat (e_offset e) \<le> unat (m_offset m)"
    "unat (m_offset m) + unat (m_length m) \<le> unat (e_offset e) + unat (e_length e)" if "m \<in> set ms1" for m
    using run(1) that unfolding run_entries_def by blast+
  have c: "\<exists>m \<in> set ms1. unat (m_offset m) \<le> k \<and> k < unat (m_offset m) + unat (m_length m)" if "e_inside k e" for k
    using run(1) that unfolding run_entries_def e_inside_def by blast
  have s: "unat (m_offset a) + unat (m_length a) \<le> unat (m_offset b)" if a: "a \<in> set ms1" and b: "b \<in> set ms2" for a b
  proof -
    obtain e' where e': "e' \<in> set es" "unat (e_offset e') \<le> unat (m_offset b)"
      using es b unfolding layout_def by blast
    with sorted have "unat (e_offset e) + unat (e_length e) \<le> unat (e_offset e')" by blast
    with r(2) [OF a] e'(2) show ?thesis by linarith
  qed
  have h: "entry_holds disk ((f @ sectors disk (unat (e_offset e)) (unat (e_length e))) @ g) m" if "m \<in> set ms1" for m
    by (rule entry_holds_append [OF run_entries_hold [OF run(1,2) that run(3)]])
  have "sorted_wrt (\<lambda>a b. unat (m_offset a) + unat (m_length a) \<le> unat (m_offset b)) (ms1 @ ms2)"
    using run(1) es s by (simp add: sorted_wrt_append run_entries_def layout_def)
  moreover have "length (ms1 @ ms2) = index_entries (e # es)"
    using run(1) es by (simp add: run_entries_def layout_def index_entries_def)
  moreover have "\<exists>m \<in> set (ms1 @ ms2). unat (m_offset m) \<le> k \<and> k < unat (m_offset m) + unat (m_length m)"
    if "e' \<in> set (e # es)" "e_inside k e'" for e' k
  proof -
    have "e' \<in> set es \<Longrightarrow> \<exists>m \<in> set ms2. unat (m_offset m) \<le> k \<and> k < unat (m_offset m) + unat (m_length m)"
      using es that(2) unfolding layout_def by blast
    then show ?thesis using that c by (metis Un_iff set_ConsD set_append)
  qed
  ultimately show ?thesis using h r es unfolding layout_def by auto
qed

lemma layout_skip: "e_length e = 0 \<Longrightarrow> layout disk f es ms \<Longrightarrow> layout disk f (e # es) ms"
  unfolding layout_def by (auto simp: e_inside_def index_entries_def)

lemma extents_wf_Cons:
  "extents_wf (e # es) \<longleftrightarrow> unat (e_offset e) + unat (e_length e) < 2 ^ 50
     \<and> (\<forall>e' \<in> set es. unat (e_offset e) + unat (e_length e) \<le> unat (e_offset e')) \<and> extents_wf es"
  by (auto simp: extents_wf_def)

lemma write_extents:
  assumes rd: "content_reader read disk" and "appending d f cap" "length f = unat phys * 512" "extents_wf es"
    "unat phys + total_sectors es < 2 ^ 53" "length f + total_sectors es * 512 \<le> cap" "4096 \<le> length f"
  shows "\<exists>d' phys' ms g. write_extents read es phys d = Inr (d', phys', ms) \<and> unat phys' = unat phys + total_sectors es
    \<and> appending d' (f @ g) cap \<and> length g = total_sectors es * 512 \<and> layout disk (f @ g) es ms"
  using assms(2-)
proof (induction es arbitrary: d f phys)
  case Nil
  then show ?case by (simp add: total_sectors_def layout_def index_entries_def)
next
  case (Cons e es)
  have es: "extents_wf es" using Cons.prems(3) by (simp add: extents_wf_Cons)
  have t: "total_sectors (e # es) = unat (e_length e) + total_sectors es" by (simp add: total_sectors_def)
  show ?case
  proof (cases "e_length e = 0")
    case True
    have "unat phys + total_sectors es < 2 ^ 53" "length f + total_sectors es * 512 \<le> cap"
      using Cons.prems(4,5) True by (simp_all add: t)
    from Cons.IH [OF Cons.prems(1,2) es this Cons.prems(6)] show ?thesis
      using True by (simp add: t) (blast intro: layout_skip [OF True])
  next
    case False
    let ?s = "sectors disk (unat (e_offset e)) (unat (e_length e))"
    have b: "unat (e_offset e) + unat (e_length e) < 2 ^ 50" "unat phys + unat (e_length e) < 2 ^ 53"
      "length f + unat (e_length e) * 512 \<le> cap"
      using Cons.prems(3-5) by (simp_all add: extents_wf_Cons t)
    obtain d1 ms1 where run: "write_run read (e_offset e) (e_length e) phys d = Inr (d1, phys + ucast (e_length e), ms1)"
      "appending d1 (f @ ?s) cap" "run_entries (e_offset e) (e_length e) phys ms1"
      using write_run [OF rd Cons.prems(1) b] by blast
    have p1: "unat (phys + ucast (e_length e)) = unat phys + unat (e_length e)"
      using b(2) by (intro unat_add_chunk) simp
    have b2: "length (f @ ?s) = unat (phys + ucast (e_length e)) * 512"
      "unat (phys + ucast (e_length e)) + total_sectors es < 2 ^ 53" "length (f @ ?s) + total_sectors es * 512 \<le> cap"
      using Cons.prems(2,4,5) unfolding p1 t by (simp_all add: algebra_simps)
    obtain d2 phys2 ms2 g where rest:
      "write_extents read es (phys + ucast (e_length e)) d1 = Inr (d2, phys2, ms2)"
      "unat phys2 = unat (phys + ucast (e_length e)) + total_sectors es"
      "appending d2 ((f @ ?s) @ g) cap" "length g = total_sectors es * 512" "layout disk ((f @ ?s) @ g) es ms2"
      using Cons.IH [OF run(2) b2(1) es b2(2,3)] Cons.prems(6) by auto
    have "write_extents read (e # es) phys d = Inr (d2, phys2, ms1 @ ms2)"
      using False run(1) rest(1) by simp
    moreover have "unat phys2 = unat phys + total_sectors (e # es)" using rest(2) by (simp add: p1 t)
    moreover have "layout disk (f @ ?s @ g) (e # es) (ms1 @ ms2)"
      using layout_append [OF run(3) Cons.prems(2,6) rest(5)] Cons.prems(3) by (simp add: extents_wf_Cons)
    moreover have "length (?s @ g) = total_sectors (e # es) * 512" using rest(4) by (simp add: t algebra_simps)
    ultimately show ?thesis using rest(3) by (metis append.assoc)
  qed
qed

lemma write_index:
  assumes "appending d f cap" "length f + length ms * lsmtIndexEntrySize \<le> cap"
  shows "\<exists>d'. write_index ms d = Inr d' \<and> appending d' (f @ concat (map encodeLSMTMapping ms)) cap"
  using assms
proof (induction ms arbitrary: d f)
  case (Cons m ms)
  obtain d1 where d1: "dst_Write d (encodeLSMTMapping m) = Inr d1" "appending d1 (f @ encodeLSMTMapping m) cap"
    using appending_write [OF Cons.prems(1), of "encodeLSMTMapping m"] Cons.prems(2) by auto
  with Cons.IH [OF d1(2)] Cons.prems(2) show ?case by auto
qed simp

section \<open>The finished file\<close>

definition seal_header :: "64 word \<Rightarrow> nat \<Rightarrow> 64 word \<Rightarrow> 32 word \<Rightarrow> lsmtHeader" where
  "seal_header phys n virtualSize flags = \<lparr>h_flags = flags, h_indexOffset = phys * 512,
     h_indexSize = word_of_nat n, h_virtualSize = virtualSize\<rparr>"

definition seal_file :: "64 word \<Rightarrow> 64 word \<Rightarrow> byte list \<Rightarrow> lsmtMapping list \<Rightarrow> byte list" where
  "seal_file phys virtualSize g ms =
     encodeLSMTHeader (seal_header phys (length ms) virtualSize lsmtWriteFlagsHeader) @ g
       @ concat (map encodeLSMTMapping ms)
       @ encodeLSMTHeader (seal_header phys (length ms) virtualSize lsmtWriteFlagsTrailer)"

lemma layout_header:
  assumes "layout disk (zeros 4096 @ g) es ms" "length h = 4096"
  shows "layout disk (h @ g @ rest) es ms"
proof -
  have "entry_holds disk (h @ g @ rest) m" if "entry_holds disk (zeros 4096 @ g) m" for m
  proof -
    note e = that [unfolded entry_holds_def]
    have "(h @ g @ rest) ! (unat (m_moffset m) * 512 + j) = (zeros 4096 @ g) ! (unat (m_moffset m) * 512 + j)"
      if "j < unat (m_length m) * 512" for j
      using e that assms(2) by (auto simp: nth_append algebra_simps)
    then show ?thesis using e assms(2) by (simp add: entry_holds_def)
  qed
  then show ?thesis using assms(1) unfolding layout_def by blast
qed

lemma dst_Write_end:
  "length (d_bytes d) \<le> d_pos d \<Longrightarrow> dst_Write d b = Inr d' \<Longrightarrow> d_pos d' = length (d_bytes d')"
  by (auto simp: dst_Write_def overwrite_def split: if_splits)

lemma appending_replace_front:
  assumes "appending d (f @ rest) cap" "d_pos d = length (d_bytes d)" "length h = length f" "length f \<le> cap"
  shows "\<exists>d'. dst_Write (dst_Seek d 0) h = Inr d' \<and> d_bytes d' = h @ rest"
  using appending_bytes [OF assms(1,2)] assms(1,3,4)
  by (auto simp: dst_Write_def dst_Seek_def overwrite_def zeros_def appending_def)

definition seal_size :: "sealedExtent list \<Rightarrow> nat" where
  "seal_size es = 4096 + total_sectors es * 512 + index_entries es * 16 + 4096"

lemma writeSealedLSMT:
  assumes rd: "content_reader read disk" and vs: "virtualSize \<noteq> 0"
    and es: "es = sort_slice (\<lambda>a b. e_offset a < e_offset b) extents" "extents_wf es"
    and some: "0 < total_sectors es" and small: "8 + total_sectors es < 2 ^ 53" and cap: "seal_size es \<le> cap"
  shows "\<exists>d phys g ms. writeSealedLSMT \<lparr>d_bytes = [], d_pos = 0, d_capacity = cap\<rparr> virtualSize extents read = Inr d
    \<and> d_bytes d = seal_file phys virtualSize g ms \<and> unat phys = 8 + total_sectors es
    \<and> length g = total_sectors es * 512 \<and> layout disk (d_bytes d) es ms \<and> ms \<noteq> []"
proof -
  define d0 where "d0 = dst_Seek \<lparr>d_bytes = [], d_pos = 0, d_capacity = cap\<rparr> 4096"
  have a0: "appending d0 (zeros 4096) cap" by (simp add: d0_def dst_Seek_def appending_def zeros_def)
  have u8: "unat (8 :: 64 word) = 8" by simp
  obtain d1 phys ms g where w: "write_extents read es 8 d0 = Inr (d1, phys, ms)"
    "unat phys = 8 + total_sectors es" "appending d1 (zeros 4096 @ g) cap" "length g = total_sectors es * 512"
    "layout disk (zeros 4096 @ g) es ms"
    using write_extents [OF rd a0 _ es(2), of 8] small cap by (auto simp: u8 seal_size_def)
  have len: "length ms = index_entries es" using w(5) by (simp add: layout_def)
  have "ms \<noteq> []"
  proof -
    have "\<not> (\<forall>x \<in> set (map (\<lambda>e. unat (e_length e)) es). x = 0)"
      using some unfolding total_sectors_def by (metis sum_list_eq_0_iff less_irrefl)
    then obtain e where e: "e \<in> set es" "0 < unat (e_length e)" by (auto simp: unat_gt_0)
    then have "e_inside (unat (e_offset e)) e" by (simp add: e_inside_def)
    then show ?thesis using w(5) e(1) unfolding layout_def by (metis empty_iff empty_set)
  qed
  obtain d2 where d2: "write_index ms d1 = Inr d2"
    "appending d2 ((zeros 4096 @ g) @ concat (map encodeLSMTMapping ms)) cap"
    using write_index [OF w(3), of ms] cap by (auto simp: w(4) len seal_size_def lsmtIndexEntrySize_def)
  let ?T = "encodeLSMTHeader (seal_header phys (length ms) virtualSize lsmtWriteFlagsTrailer)"
  let ?H = "encodeLSMTHeader (seal_header phys (length ms) virtualSize lsmtWriteFlagsHeader)"
  have ilen: "length (concat (map encodeLSMTMapping ms)) = index_entries es * 16"
    by (simp add: length_concat comp_def lsmtIndexEntrySize_def len sum_list_triv)
  obtain d3 where d3: "dst_Write d2 ?T = Inr d3"
    "appending d3 (((zeros 4096 @ g) @ concat (map encodeLSMTMapping ms)) @ ?T) cap"
    using appending_write [OF d2(2), of ?T] cap by (auto simp: ilen w(4) seal_size_def lsmtHeaderSpace_def)
  have end3: "d_pos d3 = length (d_bytes d3)"
    using dst_Write_end [OF _ d3(1)] d2(2) by (simp add: appending_def)
  obtain d4 where d4: "dst_Write (dst_Seek d3 0) ?H = Inr d4"
    "d_bytes d4 = ?H @ g @ concat (map encodeLSMTMapping ms) @ ?T"
    using appending_replace_front [of d3 "zeros 4096" "g @ concat (map encodeLSMTMapping ms) @ ?T" cap ?H] d3(2) end3 cap
    by (auto simp: lsmtHeaderSpace_def seal_size_def)
  have e0: "extents \<noteq> []" using some es(1) by (auto simp: total_sectors_def)
  have "writeSealedLSMT \<lparr>d_bytes = [], d_pos = 0, d_capacity = cap\<rparr> virtualSize extents read = Inr d4"
    using vs e0 w(1) \<open>ms \<noteq> []\<close> d2(1) d3(1) d4(1)
    by (simp add: writeSealedLSMT_def es(1) [symmetric] d0_def [symmetric] lsmtHeaderSpace_def lsmtAlignment_def
        seal_header_def)
  moreover have "layout disk (d_bytes d4) es ms"
    unfolding d4(2) by (rule layout_header [OF w(5)]) (simp add: lsmtHeaderSpace_def)
  ultimately show ?thesis using w(2,4) d4(2) \<open>ms \<noteq> []\<close> by (auto simp: seal_file_def)
qed

section \<open>Opening what was sealed\<close>

lemma insert_by_front: "\<forall>y \<in> set ys. \<not> lt y x \<Longrightarrow> insert_by lt x ys = x # ys"
  by (cases ys) auto

lemma sort_slice_sorted: "sorted_wrt (\<lambda>a b. \<not> lt b a) xs \<Longrightarrow> sort_slice lt xs = xs"
  by (induction xs) (auto simp: insert_by_front)

lemma parse_entries_concat:
  "\<forall>m \<in> set ms. mapping_fits m \<Longrightarrow> parse_entries (concat (map encodeLSMTMapping ms)) = ms"
proof (induction ms)
  case Nil
  then show ?case by (simp add: parse_entries.simps lsmtIndexEntrySize_def)
next
  case (Cons m ms)
  then show ?case
    by (subst parse_entries.simps) (simp add: parse_encode_mapping)
qed

lemma write_flags:
  "isHeader (seal_header phys n vs lsmtWriteFlagsHeader)" "isTrailer (seal_header phys n vs lsmtWriteFlagsTrailer)"
  "isData (seal_header phys n vs lsmtWriteFlagsTrailer)" "isSealed (seal_header phys n vs lsmtWriteFlagsTrailer)"
  by (simp_all add: seal_header_def isHeader_def isTrailer_def isData_def isSealed_def
      lsmtWriteFlagsHeader_def lsmtWriteFlagsTrailer_def lsmt_flags)

lemma layout_index_wf:
  assumes "layout disk f es ms" "extents_wf es" "length f < 2 ^ 62"
  shows "index_wf ms" "\<forall>m \<in> set ms. unat (m_offset m) < 2 ^ 50 - 1"
proof -
  have m: "mapping_fits m \<and> 0 < m_length m \<and> unat (m_moffset m) < 2 ^ 53 \<and> unat (m_offset m) < 2 ^ 50 - 1
    \<and> unat (m_end m) = unat (m_offset m) + unat (m_length m)" if m: "m \<in> set ms" for m
  proof -
    obtain e where e: "e \<in> set es" "entry_holds disk f m"
      "unat (m_offset m) + unat (m_length m) \<le> unat (e_offset e) + unat (e_length e)"
      using assms(1) m unfolding layout_def by blast
    then have len: "0 < unat (m_length m)" "unat (m_length m) < 2 ^ 14"
      and mo: "(unat (m_moffset m) + unat (m_length m)) * 512 < 2 ^ 62"
      using assms(3) by (simp_all add: entry_holds_def)
    have o: "unat (m_offset m) + unat (m_length m) < 2 ^ 50"
      using e(1,3) assms(2) unfolding extents_wf_def by (meson le_less_trans)
    have "unat (m_moffset m) < 2 ^ 53" using mo by simp
    then have "mapping_fits m" using len o by (simp add: mapping_fits_def)
    then show ?thesis using len o \<open>unat (m_moffset m) < 2 ^ 53\<close> unat_m_end [of m]
      by (auto simp: word_less_nat_alt)
  qed
  show "\<forall>m \<in> set ms. unat (m_offset m) < 2 ^ 50 - 1" using m by blast
  have "sorted_wrt (\<lambda>a b. m_end a \<le> m_offset b) ms"
    using assms(1) m unfolding layout_def word_le_nat_alt
    by (auto elim!: sorted_wrt_mono_rel [rotated])
  then show "index_wf ms" using m by (simp add: index_wf_def)
qed

lemma seal_index_usable:
  assumes "index_wf ms" "\<forall>m \<in> set ms. unat (m_offset m) < 2 ^ 50 - 1"
  shows "filter (\<lambda>m. \<not> (m_length m = 0 \<or> m_offset m = lsmtInvalidOffset)) ms = ms"
    "sort_slice (\<lambda>a b. m_offset a < m_offset b) ms = ms"
proof -
  have "unat lsmtInvalidOffset = 2 ^ 50 - 1" by (simp add: lsmtInvalidOffset_def)
  then show "filter (\<lambda>m. \<not> (m_length m = 0 \<or> m_offset m = lsmtInvalidOffset)) ms = ms"
    using assms by (auto simp: index_wf_def filter_id_conv)
  have "m_offset a \<le> m_offset b" if "a \<in> set ms" "m_end a \<le> m_offset b" for a b
  proof -
    have "m_offset a \<le> m_end a"
      using assms(1) that(1) unat_m_end [of a] by (simp add: index_wf_def word_le_nat_alt)
    then show ?thesis using that(2) by order
  qed
  then have "sorted_wrt (\<lambda>a b. \<not> m_offset b < m_offset a) ms"
    using assms(1) unfolding index_wf_def not_less by (auto elim!: sorted_wrt_mono_rel [rotated])
  then show "sort_slice (\<lambda>a b. m_offset a < m_offset b) ms = ms" by (rule sort_slice_sorted)
qed

lemma open_sealed:
  assumes src: "content_reader src (seal_file phys vs g ms)" and f: "length g + 4096 = unat phys * 512"
    and ms: "index_wf ms" "\<forall>m \<in> set ms. unat (m_offset m) < 2 ^ 50 - 1" "ms \<noteq> []" "length ms \<le> 2 ^ 26"
    and phys: "unat phys < 2 ^ 53"
  shows "openLSMTLayer src (int (length (seal_file phys vs g ms)))
    = Inr \<lparr>l_src = src, l_mappings = ms, l_virtualSize = vs\<rparr>"
proof -
  let ?f = "seal_file phys vs g ms"
  let ?H = "seal_header phys (length ms) vs lsmtWriteFlagsHeader"
  let ?T = "seal_header phys (length ms) vs lsmtWriteFlagsTrailer"
  have idx: "length (concat (map encodeLSMTMapping ms)) = length ms * 16"
    by (simp add: length_concat comp_def lsmtIndexEntrySize_def sum_list_triv)
  have len: "length ?f = 4096 + length g + length ms * 16 + 4096"
    by (simp add: seal_file_def idx lsmtHeaderSpace_def)
  have p: "unat (phys * 512) = unat phys * 512" using phys by (simp add: unat_word_ariths)
  then have s: "sint (phys * 512) = int (unat phys * 512)" using phys by (subst sint_small) simp_all
  have n: "unat (word_of_nat (length ms) :: 64 word) = length ms"
    using ms(4) by (simp add: unsigned_of_nat take_bit_nat_eq_self_iff)
  have header: "read_full src (zeros lsmtHeaderSpace) 0 = Inr (encodeLSMTHeader ?H)"
    by (subst content_reader.read_full_inside [OF src])
      (simp_all only: len length_zeros, simp_all add: lsmtHeaderSpace_def slice_def seal_file_def)
  have trailer: "read_full src (encodeLSMTHeader ?H) (int (length ?f) - int lsmtHeaderSpace) = Inr (encodeLSMTHeader ?T)"
  proof -
    have o: "int (length ?f) - int lsmtHeaderSpace = int (4096 + length g + length ms * 16)"
      by (simp add: len lsmtHeaderSpace_def)
    show ?thesis unfolding o
      by (subst content_reader.read_full_inside [OF src])
        (simp_all only: len length_encodeLSMTHeader nat_int, simp_all add: lsmtHeaderSpace_def slice_def
          seal_file_def idx)
  qed
  have index: "read_full src (zeros (length ms * lsmtIndexEntrySize)) (sint (phys * 512))
      = Inr (concat (map encodeLSMTMapping ms))"
    unfolding s f [symmetric]
    by (subst content_reader.read_full_inside [OF src])
      (simp_all only: len length_zeros nat_int, simp_all add: lsmtIndexEntrySize_def slice_def
        seal_file_def idx lsmtHeaderSpace_def)
  have "loadLSMTIndex src ?T = Inr ms"
  proof -
    have "word_of_nat (length ms) \<noteq> (0 :: 64 word)" "\<not> (word_of_nat (length ms) :: 64 word) > 2 ^ 26"
      using ms(3,4) n by (auto simp: word_less_nat_alt)
    moreover have "\<forall>m \<in> set ms. mapping_fits m" using ms(1) by (simp add: index_wf_def)
    ultimately show ?thesis
      using seal_index_usable [OF ms(1,2)] index n ms(3)
      by (simp add: loadLSMTIndex_def seal_header_def parse_entries_concat)
  qed
  moreover have "\<not> int (length ?f) < int lsmtHeaderSpace * 2" by (simp add: len lsmtHeaderSpace_def)
  ultimately show ?thesis
    using header trailer write_flags [of phys "length ms" vs]
    by (simp add: openLSMTLayer_def parse_encode_header) (simp add: seal_header_def)
qed

text \<open>A byte of the disk as one layer serves it; \<open>None\<close> where the layer maps nothing.\<close>

definition layer_byte :: "byte list \<Rightarrow> lsmtMapping list \<Rightarrow> nat \<Rightarrow> byte option" where
  "layer_byte f ms k =
     (case index_at ms (sector_of k) of
        None \<Rightarrow> None
      | Some Zeroed \<Rightarrow> Some 0
      | Some (Stored x) \<Rightarrow> Some (file_byte f (unat x * 512 + k mod 512)))"

lemma m_covers_nat:
  assumes "mapping_fits m" "k < 2 ^ 61"
  shows "m_covers (sector_of k) m \<longleftrightarrow>
    unat (m_offset m) \<le> k div 512 \<and> k div 512 < unat (m_offset m) + unat (m_length m)"
  unfolding m_covers_def word_le_nat_alt word_less_nat_alt unat_sector_of [OF assms(2)] unat_m_end [OF assms(1)] ..

lemma entry_byte:
  assumes "entry_holds disk f m" "mapping_fits m" "m_covers (sector_of k) m" "k < 2 ^ 61"
  shows "file_byte f (unat (m_moffset m + (sector_of k - m_offset m)) * 512 + k mod 512) = file_byte disk k"
proof -
  note e = assms(1) [unfolded entry_holds_def]
  have s: "unat (m_offset m) \<le> k div 512" "k div 512 < unat (m_offset m) + unat (m_length m)"
    using assms(3) by (simp_all add: m_covers_nat [OF assms(2,4)])
  have d: "unat (sector_of k - m_offset m) = k div 512 - unat (m_offset m)"
    using s(1) by (subst unat_diff_64) (simp_all add: word_le_nat_alt unat_sector_of [OF assms(4)])
  have "unat (m_moffset m) < 2 ^ 55" "k div 512 - unat (m_offset m) < 2 ^ 14"
    using assms(2) s unfolding mapping_fits_def by linarith+
  then have "unat (m_moffset m) + unat (sector_of k - m_offset m) < 2 ^ 64"
    unfolding d by simp
  then have "unat (m_moffset m + (sector_of k - m_offset m)) = unat (m_moffset m) + (k div 512 - unat (m_offset m))"
    by (simp add: unat_word_ariths d)
  then have p: "unat (m_moffset m + (sector_of k - m_offset m)) * 512 + k mod 512
      = unat (m_moffset m) * 512 + (k - unat (m_offset m) * 512)"
    by (simp only: sector_byte_position [OF s(1)])
  have k: "unat (m_offset m) * 512 \<le> k" "k < (unat (m_offset m) + unat (m_length m)) * 512"
    using s by (simp_all add: less_eq_div_iff_mult_less_eq div_less_iff_less_mult)
  then have j: "k - unat (m_offset m) * 512 < unat (m_length m) * 512"
    and o: "unat (m_offset m) * 512 + (k - unat (m_offset m) * 512) = k" by simp_all
  have "(unat (m_moffset m) + unat (m_length m)) * 512 \<le> length f" using e by blast
  then have "unat (m_moffset m) * 512 + (k - unat (m_offset m) * 512) < length f"
    unfolding add_mult_distrib by (rule less_le_trans [OF add_strict_left_mono [OF j]])
  moreover have "f ! (unat (m_moffset m) * 512 + (k - unat (m_offset m) * 512)) = file_byte disk k"
    using e j o by metis
  ultimately show ?thesis unfolding p by (simp add: file_byte_def)
qed

lemma layout_bytes:
  assumes "layout disk f es ms" "index_wf ms" "k < 2 ^ 61"
  shows "layer_byte f ms k = (if \<exists>e \<in> set es. e_inside (k div 512) e then Some (file_byte disk k) else None)"
proof (cases "find (m_covers (sector_of k)) ms")
  case None
  have "\<not> e_inside (k div 512) e" if e: "e \<in> set es" for e
  proof
    assume "e_inside (k div 512) e"
    then obtain m where m: "m \<in> set ms" "unat (m_offset m) \<le> k div 512"
      "k div 512 < unat (m_offset m) + unat (m_length m)"
      using assms(1) e unfolding layout_def by blast
    moreover have "mapping_fits m" using assms(2) m(1) by (simp add: index_wf_def)
    ultimately have "m_covers (sector_of k) m" using m_covers_nat [OF _ assms(3)] by blast
    then show False using None m(1) by (simp add: find_None_iff)
  qed
  then show ?thesis using None by (simp add: layer_byte_def index_at_def)
next
  case (Some m)
  then have m: "m \<in> set ms" "m_covers (sector_of k) m" by (auto simp: find_Some_iff)
  then have fits: "mapping_fits m" using assms(2) by (simp add: index_wf_def)
  obtain e where e: "e \<in> set es" "entry_holds disk f m" "unat (e_offset e) \<le> unat (m_offset m)"
    "unat (m_offset m) + unat (m_length m) \<le> unat (e_offset e) + unat (e_length e)"
    using assms(1) m(1) unfolding layout_def by blast
  have "e_inside (k div 512) e"
    using m(2) e(3,4) unfolding m_covers_nat [OF fits assms(3)] e_inside_def by linarith
  moreover have "layer_byte f ms k = Some (file_byte disk k)"
    using Some e(2) entry_byte [OF e(2) fits m(2) assms(3)]
    by (simp add: layer_byte_def index_at_def m_backing_def entry_holds_def)
  ultimately show ?thesis using e(1) by auto
qed

lemma seal_opens:
  assumes rd: "content_reader read disk" and vs: "virtualSize \<noteq> 0"
    and es: "es = sort_slice (\<lambda>a b. e_offset a < e_offset b) extents" "extents_wf es"
    and some: "0 < total_sectors es" and cap: "seal_size es \<le> room" "seal_size es < 2 ^ 61"
    and entries: "index_entries es \<le> 2 ^ 26"
  shows "\<exists>d ms. writeSealedLSMT \<lparr>d_bytes = [], d_pos = 0, d_capacity = room\<rparr> virtualSize extents read = Inr d
    \<and> (\<forall>src. content_reader src (d_bytes d) \<longrightarrow>
         openLSMTLayer src (int (length (d_bytes d))) = Inr \<lparr>l_src = src, l_mappings = ms, l_virtualSize = virtualSize\<rparr>)
    \<and> index_wf ms \<and> layout disk (d_bytes d) es ms"
proof -
  have t: "8 + total_sectors es < 2 ^ 53" using cap(2) by (simp add: seal_size_def)
  obtain d phys g ms where w: "writeSealedLSMT \<lparr>d_bytes = [], d_pos = 0, d_capacity = room\<rparr> virtualSize extents read = Inr d"
    "d_bytes d = seal_file phys virtualSize g ms" "unat phys = 8 + total_sectors es"
    "length g = total_sectors es * 512" "layout disk (d_bytes d) es ms" "ms \<noteq> []"
    using writeSealedLSMT [OF rd vs es some t cap(1)] by blast
  have len: "length ms = index_entries es" using w(5) by (simp add: layout_def)
  have "length (d_bytes d) = seal_size es"
    by (simp add: w(2,4) seal_file_def seal_size_def lsmtHeaderSpace_def length_concat comp_def
        lsmtIndexEntrySize_def len sum_list_triv)
  then have size: "length (d_bytes d) < 2 ^ 62" using cap(2) by simp
  note wf = layout_index_wf [OF w(5) es(2) size]
  have g: "length g + 4096 = unat phys * 512" by (simp add: w(3,4))
  have p: "unat phys < 2 ^ 53" using t w(3) by simp
  have l: "length ms \<le> 2 ^ 26" using entries len by simp
  have "openLSMTLayer src (int (length (d_bytes d))) = Inr \<lparr>l_src = src, l_mappings = ms, l_virtualSize = virtualSize\<rparr>"
    if "content_reader src (d_bytes d)" for src
    using open_sealed [OF that [unfolded w(2)] g wf w(6) l p] by (simp only: w(2))
  then show ?thesis using w(1,5) wf(1) by blast
qed

text \<open>
  C17. Sealing the extents of a disk and opening the file again gives back those extents: the file
  is created, the layer opens with the disk's size and a well-formed index, every byte of a sealed
  extent reads as it was on the disk, and nothing else is mapped.
\<close>

theorem seal_roundtrip:
  assumes "content_reader read disk" "virtualSize \<noteq> 0" "dir path = None"
    and "es = sort_slice (\<lambda>a b. e_offset a < e_offset b) extents" "extents_wf es"
    and "0 < total_sectors es" "seal_size es \<le> room" "seal_size es < 2 ^ 61" "index_entries es \<le> 2 ^ 26"
  shows "\<exists>f layer. sealFileTo dir room path virtualSize extents read = (dir(path \<mapsto> f), None)
    \<and> openLSMTLayer (file_ReadAt f) (int (length f)) = Inr layer
    \<and> l_virtualSize layer = virtualSize \<and> index_wf (l_mappings layer)
    \<and> (\<forall>k < 2 ^ 61. layer_byte f (l_mappings layer) k =
         (if \<exists>e \<in> set extents. e_inside (k div 512) e then Some (file_byte disk k) else None))"
proof -
  obtain d ms where d: "writeSealedLSMT \<lparr>d_bytes = [], d_pos = 0, d_capacity = room\<rparr> virtualSize extents read = Inr d"
    "openLSMTLayer (file_ReadAt (d_bytes d)) (int (length (d_bytes d)))
       = Inr \<lparr>l_src = file_ReadAt (d_bytes d), l_mappings = ms, l_virtualSize = virtualSize\<rparr>"
    "index_wf ms" "layout disk (d_bytes d) es ms"
    using seal_opens [OF assms(1,2,4-)] os_file.content_reader_axioms by blast
  then show ?thesis
    using assms(3) layout_bytes [OF d(4,3)] assms(4)
    by (intro exI [of _ "d_bytes d"] exI [of _ "\<lparr>l_src = file_ReadAt (d_bytes d), l_mappings = ms, l_virtualSize = virtualSize\<rparr>"])
      (simp add: sealFileTo_def)
qed

definition example_extents :: "sealedExtent list" where
  "example_extents = [\<lparr>e_offset = 3, e_length = 1\<rparr>, \<lparr>e_offset = 0, e_length = 2\<rparr>]"

theorem seal_roundtrip_witness:
  "\<exists>f layer. sealFileTo Map.empty 20000 ''layer'' 2048 example_extents (file_ReadAt (replicate 2048 7)) = ([''layer'' \<mapsto> f], None)
    \<and> openLSMTLayer (file_ReadAt f) (int (length f)) = Inr layer
    \<and> layer_byte f (l_mappings layer) 513 = Some 7 \<and> layer_byte f (l_mappings layer) 1024 = None"
proof -
  let ?es = "[\<lparr>e_offset = 0, e_length = 2\<rparr>, \<lparr>e_offset = 3, e_length = 1\<rparr>] :: sealedExtent list"
  have s: "?es = sort_slice (\<lambda>a b. e_offset a < e_offset b) example_extents" by (simp add: example_extents_def)
  have c: "total_sectors ?es = 3" "index_entries ?es = 2" "seal_size ?es = 9760" "extents_wf ?es"
    by (simp_all add: total_sectors_def index_entries_def seal_size_def extents_wf_def)
  have i: "\<exists>e \<in> set example_extents. e_inside 1 e" "\<not> (\<exists>e \<in> set example_extents. e_inside 2 e)"
    by (simp_all add: example_extents_def e_inside_def)
  have k: "(513::nat) div 512 = 1" "(1024::nat) div 512 = 2" "(513::nat) < 2 ^ 61" "(1024::nat) < 2 ^ 61"
    by simp_all
  have "file_byte (replicate 2048 7) 513 = 7" by (simp add: file_byte_def)
  moreover obtain f layer where
    "sealFileTo Map.empty 20000 ''layer'' 2048 example_extents (file_ReadAt (replicate 2048 7)) = ([''layer'' \<mapsto> f], None)"
    "openLSMTLayer (file_ReadAt f) (int (length f)) = Inr layer"
    "\<forall>k < 2 ^ 61. layer_byte f (l_mappings layer) k = (if \<exists>e \<in> set example_extents. e_inside (k div 512) e
       then Some (file_byte (replicate 2048 7) k) else None)"
    using seal_roundtrip [OF os_file.content_reader_axioms [of "replicate 2048 7"] _ _ s c(4), of 2048 Map.empty "''layer''" 20000] c
    by auto
  ultimately show ?thesis using i k by metis
qed


end
