(* ===== verification/LsmtCow.thy ===== *)
theory LsmtCow
  imports LsmtWrite "HOL-Library.Signed_Division"
begin

text \<open>
  The sandbox's disk (\<^verbatim>\<open>src/internal/node/image/lsmtcow.go\<close>): a chain of read-only layers
  under a writable overlay, with a bitmap of the 4 KiB blocks the overlay owns. The block size
  field always holds \<^verbatim>\<open>fileBackendBlockSize\<close> and is written as that constant. The overlay is
  a file; \<open>cb_writable\<close> says at which positions the device under it accepts a write, so that a
  write can fail half way. \<^verbatim>\<open>pos / n\<close> and \<^verbatim>\<open>pos % n\<close> on signed integers are \<open>sdiv\<close> and \<open>smod\<close>;
  an offset within the device plus the length of a buffer stays far below \<open>2 ^ 63\<close>.
\<close>

section \<open>The backend\<close>

definition fileBackendBlockSize :: nat where "fileBackendBlockSize = 4096"

record lsmtBackend =
  cb_stack :: lsmtStack
  cb_overlay :: "byte list"
  cb_size :: int
  cb_owned :: "64 word list"
  cb_writable :: "int \<Rightarrow> bool"

text \<open>\<^verbatim>\<open>errors.Is(err, io.EOF)\<close>.\<close>

fun is_io_EOF :: "go_error \<Rightarrow> bool" where
  "is_io_EOF EOF = True"
| "is_io_EOF UnexpectedEOF = False"
| "is_io_EOF (Errorf msg args) = False"
| "is_io_EOF (Wrapf msg args e) = is_io_EOF e"

definition file_WriteAt :: "byte list \<Rightarrow> byte list \<Rightarrow> nat \<Rightarrow> byte list" where
  "file_WriteAt f p pos = overwrite (f @ zeros (pos + length p - length f)) pos p"

definition overlay_WriteAt :: "lsmtBackend \<Rightarrow> byte list \<Rightarrow> int \<Rightarrow> go_error + lsmtBackend" where
  "overlay_WriteAt b p pos =
     (if pos < 0 then Inl (Errorf ''negative offset'' [])
      else if \<not> cb_writable b pos then Inl (Errorf ''input/output error'' [])
      else Inr (b\<lparr>cb_overlay := file_WriteAt (cb_overlay b) p (nat pos)\<rparr>))"

definition newLSMTBackendOverStack ::
  "lsmtStack \<Rightarrow> (string \<rightharpoonup> byte list) \<Rightarrow> string \<Rightarrow> int \<Rightarrow> (int \<Rightarrow> bool) \<Rightarrow> go_error + lsmtBackend" where
  "newLSMTBackendOverStack stack dir overlayPath sz writable =
     (if sz < st_virtualSize stack
      then Inl (Errorf ''a %d-byte device cannot hold the %d-byte filesystem in its layers''
                  [AInt sz, AInt (st_virtualSize stack)])
      else case dir overlayPath of
          Some _ \<Rightarrow> Inl (Wrapf ''create overlay %s'' [AStr overlayPath] (Errorf ''file exists'' []))
        | None \<Rightarrow>
            if sz < 0 then Inl (Wrapf ''size overlay'' [] (Errorf ''invalid argument'' []))
            else let blocks = (sz + int fileBackendBlockSize - 1) sdiv int fileBackendBlockSize
                 in Inr \<lparr>cb_stack = stack, cb_overlay = zeros (nat sz), cb_size = sz,
                         cb_owned = replicate (nat ((blocks + 63) sdiv 64)) 0, cb_writable = writable\<rparr>)"

definition isOwned :: "lsmtBackend \<Rightarrow> int \<Rightarrow> bool" where
  "isOwned b block =
     (let i = block sdiv 64; bit = nat (block smod 64)
      in if i \<ge> int (length (cb_owned b)) then False
         else cb_owned b ! nat i AND push_bit bit 1 \<noteq> 0)"

definition setOwned :: "lsmtBackend \<Rightarrow> int \<Rightarrow> lsmtBackend" where
  "setOwned b block =
     (let i = block sdiv 64; bit = nat (block smod 64)
      in if i < int (length (cb_owned b))
         then b\<lparr>cb_owned := (cb_owned b)[nat i := cb_owned b ! nat i OR push_bit bit 1]\<rparr>
         else b)"

text \<open>How much of the request at \<open>pos\<close> is in its block, when \<open>left\<close> bytes are left to do.\<close>

definition chunk_at :: "int \<Rightarrow> nat \<Rightarrow> nat" where
  "chunk_at pos left =
     (let chunk = int fileBackendBlockSize - pos smod int fileBackendBlockSize
      in nat (if int left < chunk then int left else chunk))"

lemma chunk_at_pos: "0 < left \<Longrightarrow> 0 < chunk_at pos left"
proof -
  assume "0 < left"
  moreover have "pos smod 4096 < 4096" using smod_int_range [of 4096 pos] by simp
  ultimately show ?thesis by (simp add: chunk_at_def fileBackendBlockSize_def Let_def)
qed

lemma chunk_progress:
  assumes "n < len"
  shows "len - (n + chunk_at pos (len - n)) < len - n"
    "len - (n + (l + (chunk_at pos (len - n) - l))) < len - n"
  using chunk_at_pos [of "len - n" pos] assms by linarith+

text \<open>The loop of \<^verbatim>\<open>ReadAt\<close>; \<open>acc\<close> is what has been read, its length the variable \<^verbatim>\<open>done\<close>.\<close>

function read_blocks ::
  "lsmtBackend \<Rightarrow> nat \<Rightarrow> int \<Rightarrow> byte list \<Rightarrow> byte list \<times> go_error option" where
  "read_blocks b len off acc =
     (if \<not> length acc < len then (acc, None)
      else let pos = off + int (length acc);
               block = pos sdiv int fileBackendBlockSize;
               chunk = chunk_at pos (len - length acc)
           in if isOwned b block
              then case file_ReadAt (cb_overlay b) chunk pos of (bs, err) \<Rightarrow>
                     if (case err of None \<Rightarrow> False | Some e \<Rightarrow> \<not> isEOF e) then (acc, err)
                     else read_blocks b len off (acc @ bs @ zeros (chunk - length bs))
              else if pos \<ge> st_virtualSize (cb_stack b)
              then read_blocks b len off (acc @ zeros chunk)
              else case lsmtStack_ReadAt (cb_stack b) chunk pos of (bs, err) \<Rightarrow>
                     if (case err of None \<Rightarrow> False | Some e \<Rightarrow> \<not> is_io_EOF e) then (acc, err)
                     else read_blocks b len off (acc @ bs @ zeros (chunk - length bs)))"
  by pat_completeness auto
termination
  by (relation "measure (\<lambda>(b, len, off, acc). len - length acc)") (auto simp: chunk_progress)

declare read_blocks.simps [simp del]

definition lsmtBackend_ReadAt :: "lsmtBackend \<Rightarrow> reader" where
  "lsmtBackend_ReadAt b len off =
     (if off \<ge> cb_size b then ([], None)
      else let len = (if off + int len > cb_size b then nat (cb_size b - off) else len)
           in read_blocks b len off [])"

text \<open>
  One iteration of \<^verbatim>\<open>WriteAt\<close>, the section under the lock: fill the block from the layers if it
  is written in part and not owned yet, write, mark it owned.
\<close>

definition fill_block :: "lsmtBackend \<Rightarrow> int \<Rightarrow> lsmtBackend \<times> go_error option" where
  "fill_block b blockStart =
     (case (if blockStart < st_virtualSize (cb_stack b)
            then case lsmtStack_ReadAt (cb_stack b) fileBackendBlockSize blockStart of (bs, err) \<Rightarrow>
                   if (case err of None \<Rightarrow> False | Some e \<Rightarrow> \<not> is_io_EOF e) then Inl (the err)
                   else Inr (bs @ zeros (fileBackendBlockSize - length bs))
            else Inr (zeros fileBackendBlockSize)) of
        Inl e \<Rightarrow> (b, Some e)
      | Inr buf \<Rightarrow>
          (case overlay_WriteAt b buf blockStart of
             Inl e \<Rightarrow> (b, Some e)
           | Inr b1 \<Rightarrow> (b1, None)))"

definition write_block :: "lsmtBackend \<Rightarrow> byte list \<Rightarrow> int \<Rightarrow> lsmtBackend \<times> go_error option" where
  "write_block b data pos =
     (let block = pos sdiv int fileBackendBlockSize;
          blockStart = block * int fileBackendBlockSize
      in case (if \<not> isOwned b block \<and> length data < fileBackendBlockSize then fill_block b blockStart
               else (b, None)) of
           (b1, Some e) \<Rightarrow> (b1, Some e)
         | (b1, None) \<Rightarrow>
             (case overlay_WriteAt b1 data pos of
                Inl e \<Rightarrow> (b1, Some e)
              | Inr b2 \<Rightarrow> (setOwned b2 block, None)))"

function write_blocks ::
  "lsmtBackend \<Rightarrow> byte list \<Rightarrow> int \<Rightarrow> nat \<Rightarrow> lsmtBackend \<times> nat \<times> go_error option" where
  "write_blocks b p off dn =
     (if \<not> dn < length p then (b, dn, None)
      else let pos = off + int dn;
               chunk = chunk_at pos (length p - dn)
           in case write_block b (slice p dn (dn + chunk)) pos of
                (b1, Some e) \<Rightarrow> (b1, dn, Some e)
              | (b1, None) \<Rightarrow> write_blocks b1 p off (dn + chunk))"
  by pat_completeness auto
termination
  by (relation "measure (\<lambda>(b, p, off, dn). length p - dn)") (auto simp: chunk_progress)

declare write_blocks.simps [simp del]

definition lsmtBackend_WriteAt ::
  "lsmtBackend \<Rightarrow> byte list \<Rightarrow> int \<Rightarrow> lsmtBackend \<times> nat \<times> go_error option" where
  "lsmtBackend_WriteAt b p off =
     (if off + int (length p) > cb_size b
      then (b, 0, Some (Errorf ''write past the end of the device'' []))
      else write_blocks b p off 0)"

definition MayBlock :: "lsmtBackend \<Rightarrow> bool" where
  "MayBlock b \<longleftrightarrow> st_remote (cb_stack b)"

text \<open>
  The bitmap's runs. The loop over the blocks keeps the runs so far with the last one in front,
  so that extending the previous run is an update of the head.
\<close>

fun add_owned :: "lsmtBackend \<Rightarrow> int \<Rightarrow> sealedExtent list \<Rightarrow> sealedExtent list" where
  "add_owned b block [] =
     (if isOwned b block then [\<lparr>e_offset = word_of_int (block * 8), e_length = 8\<rparr>] else [])"
| "add_owned b block (prev # out) =
     (if \<not> isOwned b block then prev # out
      else if e_offset prev + ucast (e_length prev) = word_of_int (block * 8)
      then prev\<lparr>e_length := e_length prev + 8\<rparr> # out
      else \<lparr>e_offset = word_of_int (block * 8), e_length = 8\<rparr> # prev # out)"

definition bitmap_extents :: "lsmtBackend \<Rightarrow> sealedExtent list" where
  "bitmap_extents b =
     rev (fold (\<lambda>block. add_owned b (int block)) [0..<length (cb_owned b) * 64] [])"

text \<open>
  The walk over the overlay's allocated regions. \<open>seek_data\<close> and \<open>seek_hole\<close> are the answers of the
  filesystem (\<^verbatim>\<open>SEEK_DATA\<close>, \<^verbatim>\<open>SEEK_HOLE\<close>): an offset, \<open>None\<close> for \<^verbatim>\<open>ENXIO\<close>, or another error.
\<close>

type_synonym seek = "int \<Rightarrow> go_error + int option"

definition add_run :: "64 word \<Rightarrow> 32 word \<Rightarrow> sealedExtent list \<Rightarrow> sealedExtent list" where
  "add_run startSector lengthSectors out =
     (case out of
        prev # rest \<Rightarrow>
          if e_offset prev + ucast (e_length prev) \<ge> startSector
          then let prevEnd = e_offset prev + ucast (e_length prev);
                   endSector = startSector + ucast lengthSectors
               in (if endSector > prevEnd
                   then prev\<lparr>e_length := e_length prev + ucast (endSector - prevEnd)\<rparr> else prev) # rest
          else \<lparr>e_offset = startSector, e_length = lengthSectors\<rparr> # out
      | [] \<Rightarrow> [\<lparr>e_offset = startSector, e_length = lengthSectors\<rparr>])"

definition round_run :: "int \<Rightarrow> int \<Rightarrow> int \<Rightarrow> int \<times> int" where
  "round_run sz dataStart holeStart =
     (let bs = int fileBackendBlockSize;
          start = dataStart sdiv bs * bs;
          fin = (holeStart + bs - 1) sdiv bs * bs
      in (start, if fin > sz then sz else fin))"

definition add_region :: "int \<Rightarrow> int \<Rightarrow> int \<Rightarrow> sealedExtent list \<Rightarrow> sealedExtent list" where
  "add_region sz dataStart holeStart out =
     (let (start, fin) = round_run sz dataStart holeStart;
          startSector = word_of_int (start sdiv int lsmtAlignment);
          lengthSectors = word_of_int ((fin - start) sdiv int lsmtAlignment)
      in if lengthSectors = 0 then out else add_run startSector lengthSectors out)"

text \<open>One turn of the walk: the end of it with its result, or the offset to go on from.\<close>

definition walk_step ::
  "seek \<Rightarrow> seek \<Rightarrow> int \<Rightarrow> int \<Rightarrow> sealedExtent list \<Rightarrow> (go_error + sealedExtent list) + int \<times> sealedExtent list" where
  "walk_step seek_data seek_hole sz off out =
     (if \<not> off < sz then Inl (Inr (rev out))
      else case seek_data off of
          Inl e \<Rightarrow> Inl (Inl (Wrapf ''seek data in overlay'' [] e))
        | Inr None \<Rightarrow> Inl (Inr (rev out))
        | Inr (Some dataStart) \<Rightarrow>
            (case seek_hole dataStart of
               Inl e \<Rightarrow> Inl (Inl (Wrapf ''seek hole in overlay'' [] e))
             | Inr None \<Rightarrow>
                 Inl (Inl (Wrapf ''seek hole in overlay'' [] (Errorf ''no such device or address'' [])))
             | Inr (Some holeStart) \<Rightarrow>
                 let holeStart = (if holeStart > sz then sz else holeStart)
                 in if holeStart \<le> dataStart then Inl (Inr (rev out))
                    else Inr (holeStart, add_region sz dataStart holeStart out)))"

partial_function (option) walk_extents ::
  "seek \<Rightarrow> seek \<Rightarrow> int \<Rightarrow> int \<Rightarrow> sealedExtent list \<Rightarrow> (go_error + sealedExtent list) option" where
  "walk_extents seek_data seek_hole sz off out =
     (case walk_step seek_data seek_hole sz off out of
        Inl r \<Rightarrow> Some r
      | Inr (off', out') \<Rightarrow> walk_extents seek_data seek_hole sz off' out')"

definition OwnedExtents :: "seek \<Rightarrow> seek \<Rightarrow> lsmtBackend \<Rightarrow> sealedExtent list option" where
  "OwnedExtents seek_data seek_hole b =
     map_option (\<lambda>r. case r of Inr ext \<Rightarrow> if ext \<noteq> [] then ext else bitmap_extents b
                             | Inl e \<Rightarrow> bitmap_extents b)
       (walk_extents seek_data seek_hole (cb_size b) 0 [])"

section \<open>The bitmap\<close>

lemma sdiv_nat: "int k sdiv int n = int (k div n)"
  by (cases "n = 0"; cases "k = 0") (simp_all add: signed_divide_int_def sgn_if zdiv_int)

lemma smod_nat: "int k smod int n = int (k mod n)"
  by (cases "k = 0") (simp_all add: signed_modulo_int_def sgn_if zmod_int)

lemma isOwned_bit:
  "isOwned b (int j) \<longleftrightarrow> j div 64 < length (cb_owned b) \<and> bit (cb_owned b ! (j div 64)) (j mod 64)"
proof -
  have d: "int j sdiv 64 = int (j div 64)" "int j smod 64 = int (j mod 64)"
    using sdiv_nat [of j 64] smod_nat [of j 64] by simp_all
  show ?thesis by (simp add: isOwned_def d Let_def bit_iff_and_push_bit_not_eq_0 not_le)
qed

lemma isOwned_setOwned:
  assumes "i div 64 < length (cb_owned b)"
  shows "isOwned (setOwned b (int i)) (int j) \<longleftrightarrow> isOwned b (int j) \<or> j = i"
proof -
  have d: "int i sdiv 64 = int (i div 64)" "int i smod 64 = int (i mod 64)"
    using sdiv_nat [of i 64] smod_nat [of i 64] by simp_all
  have set: "setOwned b (int i) =
      b\<lparr>cb_owned := (cb_owned b)[i div 64 := cb_owned b ! (i div 64) OR push_bit (i mod 64) 1]\<rparr>"
    using assms by (simp add: setOwned_def d Let_def)
  have one: "bit (2 ^ (i mod 64) :: 64 word) n \<longleftrightarrow> n = i mod 64" for n
    by (auto simp: bit_exp_iff)
  show ?thesis
  proof (cases "j div 64 = i div 64")
    case True
    then have "j = i \<longleftrightarrow> j mod 64 = i mod 64" by (metis div_mult_mod_eq)
    then show ?thesis using assms True by (auto simp: isOwned_bit set bit_or_iff one)
  next
    case False
    then show ?thesis using assms by (auto simp: isOwned_bit set)
  qed
qed

lemma setOwned_fields [simp]:
  "cb_stack (setOwned b i) = cb_stack b" "cb_overlay (setOwned b i) = cb_overlay b"
  "cb_size (setOwned b i) = cb_size b" "cb_writable (setOwned b i) = cb_writable b"
  "length (cb_owned (setOwned b i)) = length (cb_owned b)"
  by (simp_all add: setOwned_def Let_def)

lemma isOwned_overlay [simp]: "isOwned (b\<lparr>cb_overlay := f\<rparr>) j = isOwned b j"
  by (simp add: isOwned_def)

section \<open>The disk the guest sees\<close>

definition cow_byte :: "byte list \<Rightarrow> lsmtBackend \<Rightarrow> nat \<Rightarrow> byte" where
  "cow_byte base b k =
     (if isOwned b (int (k div 4096)) then file_byte (cb_overlay b) k else file_byte base k)"

definition cow_disk :: "byte list \<Rightarrow> lsmtBackend \<Rightarrow> byte list" where
  "cow_disk base b = map (cow_byte base b) [0..<nat (cb_size b)]"

text \<open>
  The invariant: the layers present the disk \<open>base\<close>, no larger than the device, and the bitmap has a
  bit for every block of the device, so that marking a block is never lost.
\<close>

definition cow_wf :: "byte list \<Rightarrow> lsmtBackend \<Rightarrow> bool" where
  "cow_wf base b \<longleftrightarrow> content_reader (lsmtStack_ReadAt (cb_stack b)) base
     \<and> (\<forall>n off e. 0 \<le> off \<longrightarrow> snd (lsmtStack_ReadAt (cb_stack b) n off) = Some e \<longrightarrow> is_io_EOF e)
     \<and> int (length base) = max 0 (st_virtualSize (cb_stack b))
     \<and> 0 \<le> cb_size b \<and> cb_size b < 2 ^ 60
     \<and> nat (cb_size b) \<le> length (cb_owned b) * 64 * 4096"

lemma chunk_at_nat: "chunk_at (int pos) left = min left (4096 - pos mod 4096)"
proof -
  have "int pos smod 4096 = int (pos mod 4096)" using smod_nat [of pos 4096] by simp
  moreover have "pos mod 4096 < 4096" by simp
  ultimately show ?thesis by (auto simp: chunk_at_def fileBackendBlockSize_def Let_def min_def)
qed

lemma chunk_block:
  assumes "i < chunk_at (int pos) left"
  shows "(pos + i) div 4096 = pos div 4096"
proof -
  have "i < 4096 - pos mod 4096" using assms by (simp add: chunk_at_nat)
  then have "pos mod 4096 + i < 4096" by linarith
  then show ?thesis
    using div_mult_mod_eq [of pos 4096] by (intro div_nat_eqI; simp only: mult_Suc_right; linarith)
qed

lemma padded_read:
  "take n (drop j f) @ zeros (n - length (take n (drop j f))) = map (file_byte f) [j..<j + n]" (is "?a = ?b")
proof (rule nth_equalityI)
  show "length ?a = length ?b" by (simp add: zeros_def)
  fix i assume "i < length ?a"
  then have i: "i < n" by (simp add: zeros_def)
  then show "?a ! i = ?b ! i" by (subst file_byte_read [OF i]) simp
qed

lemma file_byte_past: "length f \<le> k \<Longrightarrow> file_byte f k = 0"
  by (simp add: file_byte_def)

lemma stack_chunk:
  assumes "cow_wf base b" "lsmtStack_ReadAt (cb_stack b) n (int pos) = (bs, err)"
  shows "bs @ zeros (n - length bs) = map (file_byte base) [pos..<pos + n]"
    "\<not> (case err of None \<Rightarrow> False | Some e \<Rightarrow> \<not> is_io_EOF e)"
proof -
  have rd: "content_reader (lsmtStack_ReadAt (cb_stack b)) base" using assms(1) by (simp add: cow_wf_def)
  have "bs = take n (drop pos base)"
    using content_reader.read_content [OF rd, of "int pos" n] assms(2) by simp
  then show "bs @ zeros (n - length bs) = map (file_byte base) [pos..<pos + n]" by (simp only: padded_read)
  have "\<And>e. err = Some e \<Longrightarrow> is_io_EOF e"
    using assms unfolding cow_wf_def by (metis of_nat_0_le_iff snd_conv)
  then show "\<not> (case err of None \<Rightarrow> False | Some e \<Rightarrow> \<not> is_io_EOF e)" by (simp split: option.split)
qed

lemma past_stack:
  assumes "cow_wf base b" "st_virtualSize (cb_stack b) \<le> int pos"
  shows "zeros n = map (file_byte base) [pos..<pos + n]"
proof -
  have "int (length base) = max 0 (st_virtualSize (cb_stack b))" using assms(1) unfolding cow_wf_def by blast
  then have "length base \<le> pos" using assms(2) by linarith
  then show ?thesis by (intro nth_equalityI) (simp_all add: file_byte_past)
qed

lemma cow_chunk:
  assumes "n \<le> chunk_at (int pos) left"
  shows "map (cow_byte base b) [pos..<pos + n] =
    map (file_byte (if isOwned b (int (pos div 4096)) then cb_overlay b else base)) [pos..<pos + n]"
  using chunk_block [of _ pos left] assms
  by (intro nth_equalityI) (simp_all add: cow_byte_def)

lemma read_blocks:
  assumes wf: "cow_wf base b" and "length acc \<le> len" "acc = map (cow_byte base b) [p0..<p0 + length acc]"
  shows "read_blocks b len (int p0) acc = (map (cow_byte base b) [p0..<p0 + len], None)"
  using assms(2,3)
proof (induction "len - length acc" arbitrary: acc rule: less_induct)
  case less
  show ?case
  proof (cases "length acc < len")
    case False
    then show ?thesis using less.prems by (simp add: read_blocks.simps)
  next
    case True
    define pos where "pos = p0 + length acc"
    define n where "n = chunk_at (int pos) (len - length acc)"
    let ?new = "acc @ map (cow_byte base b) [pos..<pos + n]"
    have n: "0 < n" "n \<le> len - length acc" using True by (simp_all add: n_def chunk_at_pos chunk_at_nat)
    have blk: "int pos sdiv int fileBackendBlockSize = int (pos div 4096)"
      by (simp add: sdiv_nat fileBackendBlockSize_def del: of_nat_numeral)
    have "[p0..<p0 + (length acc + n)] = [p0..<p0 + length acc] @ [pos..<pos + n]"
      using upt_add_eq_append [of p0 "p0 + length acc" n] by (simp add: pos_def add.assoc)
    then have new: "?new = map (cow_byte base b) [p0..<p0 + length ?new]" using less.prems(2) by simp
    have IH: "read_blocks b len (int p0) ?new = (map (cow_byte base b) [p0..<p0 + len], None)"
      using less.hyps [OF _ _ new] n True by simp
    have pos_int: "int p0 + int (length acc) = int pos" by (simp add: pos_def)
    have chunk: "map (cow_byte base b) [pos..<pos + n] =
      map (file_byte (if isOwned b (int (pos div 4096)) then cb_overlay b else base)) [pos..<pos + n]"
      by (rule cow_chunk [of _ _ "len - length acc"]) (simp add: n_def)
    obtain bs err where out: "lsmtStack_ReadAt (cb_stack b) n (int pos) = (bs, err)" by (meson surj_pair)
    have ov: "file_ReadAt (cb_overlay b) n (int pos) =
      (take n (drop pos (cb_overlay b)), if length (take n (drop pos (cb_overlay b))) < n then Some EOF else None)"
      by (simp add: file_ReadAt_def)
    have "read_blocks b len (int p0) acc = read_blocks b len (int p0) ?new"
    proof (cases "isOwned b (int (pos div 4096))")
      case owned: True
      show ?thesis unfolding chunk if_P [OF owned] using True owned
        by (subst read_blocks.simps) (simp add: pos_int blk n_def [symmetric] ov padded_read [simplified] Let_def)
    next
      case unowned: False
      have c: "map (cow_byte base b) [pos..<pos + n] = map (file_byte base) [pos..<pos + n]"
        using chunk unowned by (simp only: if_False)
      show ?thesis
      proof (cases "int pos \<ge> st_virtualSize (cb_stack b)")
        case past: True
        then show ?thesis unfolding c using True unowned
          by (subst read_blocks.simps)
            (simp add: pos_int blk n_def [symmetric] Let_def past_stack [OF wf past, symmetric])
      next
        case False
        then show ?thesis unfolding c using True unowned stack_chunk(2) [OF wf out]
          by (subst read_blocks.simps)
            (simp add: pos_int blk n_def [symmetric] Let_def out stack_chunk(1) [OF wf out])
      qed
    qed
    then show ?thesis using IH by simp
  qed
qed

section \<open>Writing\<close>

lemma file_byte_WriteAt:
  "file_byte (file_WriteAt f p pos) k = (if pos \<le> k \<and> k < pos + length p then p ! (k - pos) else file_byte f k)"
proof -
  let ?g = "f @ zeros (pos + length p - length f)"
  have l: "pos + length p \<le> length ?g" by simp
  have g: "?g ! k = file_byte f k" if "k < length ?g" for k
    using that by (auto simp: nth_append file_byte_def)
  show ?thesis
  proof (cases "k < length ?g")
    case True
    then show ?thesis using nth_overwrite [OF l True] g [OF True] l
      by (simp add: file_WriteAt_def file_byte_def)
  next
    case False
    then have "\<not> k < pos + length p" "length f \<le> k" using l by auto
    moreover have "length (file_WriteAt f p pos) = length ?g" using l by (simp add: file_WriteAt_def)
    ultimately show ?thesis using False by (simp add: file_byte_past del: length_append)
  qed
qed

lemma fill_block:
  assumes wf: "cow_wf base b"
  shows "fill_block b (int start) = (b\<lparr>cb_overlay := file_WriteAt (cb_overlay b) (map (file_byte base) [start..<start + 4096]) start\<rparr>, None)
    \<or> (\<exists>e. fill_block b (int start) = (b, Some e) \<and> \<not> cb_writable b (int start))"
proof -
  let ?buf = "map (file_byte base) [start..<start + 4096]"
  obtain bs err where out: "lsmtStack_ReadAt (cb_stack b) 4096 (int start) = (bs, err)" by (meson surj_pair)
  have "(if int start < st_virtualSize (cb_stack b)
         then case lsmtStack_ReadAt (cb_stack b) fileBackendBlockSize (int start) of (bs, err) \<Rightarrow>
                if (case err of None \<Rightarrow> False | Some e \<Rightarrow> \<not> is_io_EOF e) then Inl (the err)
                else Inr (bs @ zeros (fileBackendBlockSize - length bs))
         else Inr (zeros fileBackendBlockSize)) = Inr ?buf"
  proof (cases "int start < st_virtualSize (cb_stack b)")
    case True
    then show ?thesis
      using out stack_chunk(2) [OF wf out] by (simp add: fileBackendBlockSize_def stack_chunk(1) [OF wf out])
  next
    case False
    then show ?thesis using past_stack [OF wf, of start 4096] by (simp add: fileBackendBlockSize_def)
  qed
  then show ?thesis by (simp add: fill_block_def overlay_WriteAt_def)
qed

text \<open>
  What one locked section does to the disk: on success exactly the bytes written change, on an
  error nothing does.
\<close>

definition writes :: "byte list \<Rightarrow> lsmtBackend \<Rightarrow> lsmtBackend \<Rightarrow> nat \<Rightarrow> byte list \<Rightarrow> bool" where
  "writes base b b' pos data \<longleftrightarrow> cow_wf base b' \<and> cb_size b' = cb_size b \<and> cb_writable b' = cb_writable b
     \<and> cow_disk base b' = overwrite (cow_disk base b) pos data"

lemma length_cow_disk [simp]: "length (cow_disk base b) = nat (cb_size b)"
  by (simp add: cow_disk_def)

lemma overwrite_Nil [simp]: "overwrite xs i [] = xs"
  by (simp add: overwrite_def)

lemma writesI:
  assumes "cow_wf base b" "cb_stack b' = cb_stack b" "cb_size b' = cb_size b" "cb_writable b' = cb_writable b"
    "length (cb_owned b') = length (cb_owned b)" "pos + length data \<le> nat (cb_size b)"
    "\<And>k. k < nat (cb_size b) \<Longrightarrow> cow_byte base b' k =
        (if pos \<le> k \<and> k < pos + length data then data ! (k - pos) else cow_byte base b k)"
  shows "writes base b b' pos data"
proof -
  have "cow_wf base b'" using assms(1-5) by (simp add: cow_wf_def)
  moreover have "cow_disk base b' = overwrite (cow_disk base b) pos data"
    using assms(3,6,7) by (intro nth_equalityI) (simp_all add: nth_overwrite, simp_all add: cow_disk_def)
  ultimately show ?thesis using assms(3,4) by (simp add: writes_def)
qed

lemma block_iff: "k div 4096 = q \<longleftrightarrow> q * 4096 \<le> k \<and> k < q * 4096 + 4096" for k :: nat
proof
  show "k div 4096 = q \<Longrightarrow> q * 4096 \<le> k \<and> k < q * 4096 + 4096"
    using div_mult_mod_eq [of k 4096] mod_less_divisor [of 4096 k] by linarith
  show "q * 4096 \<le> k \<and> k < q * 4096 + 4096 \<Longrightarrow> k div 4096 = q"
    by (intro div_nat_eqI) simp_all
qed

text \<open>The backend after the fill, and after the write that follows it.\<close>

definition needs_fill :: "lsmtBackend \<Rightarrow> byte list \<Rightarrow> nat \<Rightarrow> bool" where
  "needs_fill b data pos \<longleftrightarrow> \<not> isOwned b (int (pos div 4096)) \<and> length data < 4096"

definition after_fill :: "byte list \<Rightarrow> lsmtBackend \<Rightarrow> byte list \<Rightarrow> nat \<Rightarrow> lsmtBackend" where
  "after_fill base b data pos =
     (let start = pos div 4096 * 4096
      in if needs_fill b data pos
         then b\<lparr>cb_overlay := file_WriteAt (cb_overlay b) (map (file_byte base) [start..<start + 4096]) start\<rparr>
         else b)"

definition after_write :: "byte list \<Rightarrow> lsmtBackend \<Rightarrow> byte list \<Rightarrow> nat \<Rightarrow> lsmtBackend" where
  "after_write base b data pos =
     (let b1 = after_fill base b data pos
      in setOwned (b1\<lparr>cb_overlay := file_WriteAt (cb_overlay b1) data pos\<rparr>) (int (pos div 4096)))"

lemma after_fill_fields [simp]:
  "cb_stack (after_fill base b data pos) = cb_stack b" "cb_size (after_fill base b data pos) = cb_size b"
  "cb_writable (after_fill base b data pos) = cb_writable b" "cb_owned (after_fill base b data pos) = cb_owned b"
  "isOwned (after_fill base b data pos) j = isOwned b j"
  by (simp_all add: after_fill_def Let_def)

lemma after_fill_overlay:
  "k div 4096 \<noteq> pos div 4096 \<Longrightarrow> file_byte (cb_overlay (after_fill base b data pos)) k = file_byte (cb_overlay b) k"
  "k div 4096 = pos div 4096 \<Longrightarrow> needs_fill b data pos \<Longrightarrow>
     file_byte (cb_overlay (after_fill base b data pos)) k = file_byte base k"
  "\<not> needs_fill b data pos \<Longrightarrow> cb_overlay (after_fill base b data pos) = cb_overlay b"
  by (auto simp: after_fill_def Let_def file_byte_WriteAt block_iff)

lemma after_fill_keeps:
  assumes "cow_wf base b" "pos \<le> nat (cb_size b)"
  shows "writes base b (after_fill base b data pos) pos []"
proof (rule writesI [OF assms(1)])
  fix k
  have "cow_byte base (after_fill base b data pos) k = cow_byte base b k"
    using after_fill_overlay(1,2) [of k pos] after_fill_overlay(3)
    by (cases "k div 4096 = pos div 4096"; cases "needs_fill b data pos") (auto simp: cow_byte_def needs_fill_def)
  then show "cow_byte base (after_fill base b data pos) k =
      (if pos \<le> k \<and> k < pos + length [] then [] ! (k - pos) else cow_byte base b k)" by auto
qed (use assms(2) in simp_all)

lemma bitmap_room:
  assumes "cow_wf base b" "pos < nat (cb_size b)"
  shows "pos div 4096 div 64 < length (cb_owned b)"
proof -
  have "pos < length (cb_owned b) * 64 * 4096" using assms unfolding cow_wf_def by linarith
  then show ?thesis by (simp add: div_less_iff_less_mult)
qed

lemma after_write_writes:
  assumes wf: "cow_wf base b" and pos: "pos mod 4096 + length data \<le> 4096" "pos + length data \<le> nat (cb_size b)"
    and "data \<noteq> []"
  shows "writes base b (after_write base b data pos) pos data"
proof (rule writesI [OF wf])
  fix k
  let ?b1 = "after_fill base b data pos" and ?b2 = "after_write base b data pos"
  have "0 < length data" using assms(4) by simp
  then have "pos div 4096 div 64 < length (cb_owned b)" using pos(2) by (intro bitmap_room [OF wf]) linarith
  then have o: "isOwned ?b2 (int j) \<longleftrightarrow> isOwned b (int j) \<or> j = pos div 4096" for j
    by (simp add: after_write_def Let_def isOwned_setOwned)
  have ov: "cb_overlay ?b2 = file_WriteAt (cb_overlay ?b1) data pos" by (simp add: after_write_def Let_def)
  have start: "pos div 4096 * 4096 + pos mod 4096 = pos" by simp
  show "cow_byte base ?b2 k = (if pos \<le> k \<and> k < pos + length data then data ! (k - pos) else cow_byte base b k)"
  proof (cases "k div 4096 = pos div 4096")
    case False
    moreover have "\<not> (pos \<le> k \<and> k < pos + length data)"
      using False pos(1) start unfolding block_iff by linarith
    ultimately show ?thesis using after_fill_overlay(1) [OF False]
      by (auto simp: cow_byte_def o ov file_byte_WriteAt)
  next
    case True
    have "file_byte (cb_overlay ?b1) k = cow_byte base b k" if out: "\<not> (pos \<le> k \<and> k < pos + length data)"
    proof (cases "needs_fill b data pos")
      case fill: True
      then show ?thesis using True after_fill_overlay(2) [OF True] by (simp add: needs_fill_def cow_byte_def)
    next
      case False
      moreover have "length data < 4096" using out True [unfolded block_iff] pos(1) start by linarith
      ultimately have "isOwned b (int (pos div 4096))" by (simp add: needs_fill_def)
      then show ?thesis using True after_fill_overlay(3) [OF False] by (simp add: cow_byte_def)
    qed
    moreover have "cow_byte base ?b2 k = file_byte (cb_overlay ?b2) k" using True by (simp add: cow_byte_def o)
    ultimately show ?thesis by (simp add: ov file_byte_WriteAt)
  qed
qed (use pos(2) in \<open>simp_all add: after_write_def Let_def\<close>)

lemma write_block_cases:
  assumes "cow_wf base b" "write_block b data (int pos) = (b', err)"
  obtains "b' = after_write base b data pos" "err = None"
  | e q where "b' = after_fill base b data pos \<or> b' = b" "err = Some e" "\<not> cb_writable b q"
proof -
  let ?start = "pos div 4096 * 4096" and ?b1 = "after_fill base b data pos"
  have blk: "int pos sdiv int fileBackendBlockSize = int (pos div 4096)"
    "int (pos div 4096) * int fileBackendBlockSize = int ?start"
    by (simp_all add: sdiv_nat fileBackendBlockSize_def del: of_nat_numeral)
  have nf: "\<not> isOwned b (int (pos div 4096)) \<and> length data < fileBackendBlockSize \<longleftrightarrow> needs_fill b data pos"
    by (simp add: needs_fill_def fileBackendBlockSize_def)
  have second: "(case overlay_WriteAt ?b1 data (int pos) of Inl e \<Rightarrow> (?b1, Some e)
        | Inr b2 \<Rightarrow> (setOwned b2 (int (pos div 4096)), None))
      = (if cb_writable b (int pos) then (after_write base b data pos, None)
         else (?b1, Some (Errorf ''input/output error'' [])))"
    by (simp add: overlay_WriteAt_def after_write_def Let_def)
  note run = assms(2) [unfolded write_block_def Let_def blk nf, symmetric]
  consider (failed) e where "(if needs_fill b data pos then fill_block b (int ?start) else (b, None)) = (b, Some e)"
      "\<not> cb_writable b (int ?start)"
    | (first) "(if needs_fill b data pos then fill_block b (int ?start) else (b, None)) = (?b1, None)"
    using fill_block [OF assms(1), of ?start] unfolding after_fill_def Let_def by (cases "needs_fill b data pos") auto
  then show thesis
  proof cases
    case failed
    then show thesis using run that(2) by simp
  next
    case first
    then have "(b', err) = (if cb_writable b (int pos) then (after_write base b data pos, None)
         else (?b1, Some (Errorf ''input/output error'' [])))"
      using run unfolding second [symmetric] by simp
    then show thesis using that by (cases "cb_writable b (int pos)") auto
  qed
qed

lemma write_block:
  assumes wf: "cow_wf base b" and pos: "pos mod 4096 + length data \<le> 4096" "pos + length data \<le> nat (cb_size b)"
    and "data \<noteq> []" and run: "write_block b data (int pos) = (b', err)"
  shows "err = None \<Longrightarrow> writes base b b' pos data"
    "err \<noteq> None \<Longrightarrow> writes base b b' pos [] \<and> (\<exists>q. \<not> cb_writable b q)"
proof -
  have "writes base b b pos []" using wf by (simp add: writes_def)
  moreover have "pos \<le> nat (cb_size b)" using pos(2) by linarith
  ultimately show "err = None \<Longrightarrow> writes base b b' pos data"
    "err \<noteq> None \<Longrightarrow> writes base b b' pos [] \<and> (\<exists>q. \<not> cb_writable b q)"
    using after_fill_keeps [OF wf, of pos data] after_write_writes [OF assms(1-4)]
    by (cases rule: write_block_cases [OF wf run]; auto)+
qed

lemma overwrite_append:
  assumes "i + length a + length c \<le> length xs"
  shows "overwrite (overwrite xs i a) (i + length a) c = overwrite xs i (a @ c)"
  using assms by (simp add: overwrite_def add.commute add.left_commute)

lemma slice_split: "i \<le> j \<Longrightarrow> j \<le> k \<Longrightarrow> slice p i j @ slice p j k = slice p i k"
proof -
  assume "i \<le> j" "j \<le> k"
  then have "k - i = (j - i) + (k - j)" "j = i + (j - i)" by simp_all
  then show ?thesis unfolding slice_def by (metis add.commute drop_drop take_add)
qed

lemma writes_trans:
  assumes "writes base b b1 pos a" "writes base b1 b2 (pos + length a) c"
    "pos + length a + length c \<le> nat (cb_size b)"
  shows "writes base b b2 pos (a @ c)"
  using assms overwrite_append [of pos a c "cow_disk base b"] by (simp add: writes_def)

lemma write_blocks:
  assumes "cow_wf base b" "p0 + length p \<le> nat (cb_size b)" "dn \<le> length p"
    "write_blocks b p (int p0) dn = (b', n, err)"
  shows "dn \<le> n \<and> n \<le> length p \<and> writes base b b' (p0 + dn) (slice p dn n)
    \<and> (if err = None then n = length p else \<exists>q. \<not> cb_writable b q)"
  using assms
proof (induction "length p - dn" arbitrary: b dn rule: less_induct)
  case less
  show ?case
  proof (cases "dn < length p")
    case False
    then show ?thesis using less.prems by (auto simp: write_blocks.simps [of b] writes_def slice_def)
  next
    case True
    define pos where "pos = p0 + dn"
    define c where "c = chunk_at (int pos) (length p - dn)"
    let ?data = "slice p dn (dn + c)"
    have c: "0 < c" "dn + c \<le> length p" using True by (auto simp: c_def chunk_at_pos chunk_at_nat)
    have len: "length ?data = c" using c by simp
    have "c \<le> 4096 - pos mod 4096" by (simp add: c_def chunk_at_nat)
    then have fits: "pos mod 4096 + length ?data \<le> 4096" unfolding len using mod_less_divisor [of 4096 pos] by linarith
    have room: "pos + length ?data \<le> nat (cb_size b)" unfolding len using less.prems(2) c(2) by (simp add: pos_def)
    have ne: "?data \<noteq> []" using len c(1) by (metis less_irrefl list.size(3))
    obtain b1 e1 where out: "write_block b ?data (int pos) = (b1, e1)" by (meson surj_pair)
    note step = write_block [OF less.prems(1) fits room ne out]
    have pos_int: "int p0 + int dn = int pos" by (simp add: pos_def)
    note run = less.prems(4) [unfolded write_blocks.simps [of b p "int p0" dn] pos_int Let_def c_def [symmetric] out]
    show ?thesis
    proof (cases e1)
      case None
      note w1 = step(1) [OF None]
      have rest: "write_blocks b1 p (int p0) (dn + c) = (b', n, err)" using run True None by simp
      have wf1: "cow_wf base b1" "p0 + length p \<le> nat (cb_size b1)" using w1 less.prems(2) by (simp_all add: writes_def)
      have IH: "dn + c \<le> n \<and> n \<le> length p \<and> writes base b1 b' (p0 + (dn + c)) (slice p (dn + c) n)
          \<and> (if err = None then n = length p else \<exists>q. \<not> cb_writable b1 q)"
        using less.hyps [OF _ wf1 c(2) rest] c True by linarith
      have "writes base b b' pos (?data @ slice p (dn + c) n)"
      proof (rule writes_trans [OF w1])
        show "writes base b1 b' (pos + length ?data) (slice p (dn + c) n)"
          using IH len by (simp add: pos_def add.assoc)
        show "pos + length ?data + length (slice p (dn + c) n) \<le> nat (cb_size b)"
        proof -
          have "length (slice p (dn + c) n) \<le> length p - (dn + c)" by simp
          then show ?thesis unfolding len pos_def using less.prems(2) c(2) by linarith
        qed
      qed
      moreover have "?data @ slice p (dn + c) n = slice p dn n" using IH by (intro slice_split) simp_all
      moreover have "cb_writable b1 = cb_writable b" using w1 by (simp add: writes_def)
      ultimately show ?thesis using IH by (auto simp: pos_def)
    next
      case (Some e)
      then have "b' = b1" "n = dn" "err = Some e" using run True by simp_all
      then show ?thesis using step(2) Some less.prems(3) by (auto simp: pos_def slice_def writes_def)
    qed
  qed
qed

section \<open>The backend is a block device\<close>

text \<open>
  What the block-device queue relies on: reads see the disk, a write replaces the bytes it reports
  as written and nothing else, and reports them all unless it fails.
\<close>

locale block_device =
  fixes read_at :: "'b \<Rightarrow> reader"
    and write_at :: "'b \<Rightarrow> byte list \<Rightarrow> int \<Rightarrow> 'b \<times> nat \<times> go_error option"
    and disk :: "'b \<Rightarrow> byte list" and healthy :: "'b \<Rightarrow> bool"
  assumes reads: "healthy b \<Longrightarrow> 0 \<le> off \<Longrightarrow> read_at b n off = (take n (drop (nat off) (disk b)), None)"
    and writes_prefix: "healthy b \<Longrightarrow> 0 \<le> off \<Longrightarrow> write_at b p off = (b', n, err) \<Longrightarrow>
      healthy b' \<and> n \<le> length p \<and> (n = 0 \<or> nat off + n \<le> length (disk b))
      \<and> disk b' = overwrite (disk b) (nat off) (take n p) \<and> (err = None \<longrightarrow> n = length p)"
begin

lemma read_back:
  assumes "healthy b" "0 \<le> off" "write_at b p off = (b', n, None)" "p \<noteq> []"
  shows "read_at b' (length p) off = (p, None)"
proof -
  have w: "healthy b'" "n = length p" "disk b' = overwrite (disk b) (nat off) p"
    using writes_prefix [OF assms(1-3)] by auto
  have "nat off + length p \<le> length (disk b)"
    using writes_prefix [OF assms(1-3)] w(2) assms(4) by auto
  then show ?thesis using reads [OF w(1) assms(2), of "length p"] by (simp add: w(3) overwrite_def)
qed

lemma read_elsewhere:
  assumes "healthy b" "0 \<le> off" "write_at b p off = (b', n, err)" "n \<noteq> 0"
    and "0 \<le> pos" "nat pos + m \<le> nat off \<or> nat off + n \<le> nat pos"
  shows "read_at b' m pos = read_at b m pos"
proof -
  have w: "healthy b'" "n \<le> length p" "nat off + n \<le> length (disk b)" "disk b' = overwrite (disk b) (nat off) (take n p)"
    using writes_prefix [OF assms(1-3)] assms(4) by auto
  have l: "nat off + length (take n p) \<le> length (disk b)" using w(2,3) by simp
  have "take m (drop (nat pos) (disk b')) = take m (drop (nat pos) (disk b))"
    unfolding w(4) using assms(6) w(2,3) length_overwrite [OF l]
    by (intro nth_equalityI) (auto simp: nth_overwrite [OF l])
  then show ?thesis using reads [OF w(1) assms(5)] reads [OF assms(1,5)] by simp
qed

end

lemma cow_read:
  assumes "cow_wf base b" "0 \<le> off"
  shows "lsmtBackend_ReadAt b n off = (take n (drop (nat off) (cow_disk base b)), None)"
proof (cases "off \<ge> cb_size b")
  case True
  then show ?thesis by (simp add: lsmtBackend_ReadAt_def cow_disk_def)
next
  case False
  define len where "len = (if off + int n > cb_size b then nat (cb_size b - off) else n)"
  have "read_blocks b len (int (nat off)) [] = (map (cow_byte base b) [nat off..<nat off + len], None)"
    by (rule read_blocks [OF assms(1)]) simp_all
  moreover have "map (cow_byte base b) [nat off..<nat off + len] = take n (drop (nat off) (cow_disk base b))"
    using False assms(2) by (intro nth_equalityI) (auto simp: len_def cow_disk_def split: if_splits)
  ultimately show ?thesis using False assms(2) by (simp add: lsmtBackend_ReadAt_def len_def Let_def)
qed

lemma cow_write:
  assumes "cow_wf base b" "0 \<le> off" "lsmtBackend_WriteAt b p off = (b', n, err)"
  shows "cow_wf base b' \<and> n \<le> length p \<and> (n = 0 \<or> nat off + n \<le> length (cow_disk base b))
      \<and> cow_disk base b' = overwrite (cow_disk base b) (nat off) (take n p) \<and> (err = None \<longrightarrow> n = length p)"
    and "off + int (length p) \<le> cb_size b \<Longrightarrow> \<forall>q. cb_writable b q \<Longrightarrow> n = length p \<and> err = None"
proof -
  have "off + int (length p) \<le> cb_size b \<Longrightarrow> n \<le> length p \<and> writes base b b' (nat off) (take n p)
      \<and> (if err = None then n = length p else \<exists>q. \<not> cb_writable b q)"
    using write_blocks [OF assms(1), of "nat off" p 0 b' n err] assms(2,3)
    by (auto simp: lsmtBackend_WriteAt_def slice_def)
  then show "cow_wf base b' \<and> n \<le> length p \<and> (n = 0 \<or> nat off + n \<le> length (cow_disk base b))
      \<and> cow_disk base b' = overwrite (cow_disk base b) (nat off) (take n p) \<and> (err = None \<longrightarrow> n = length p)"
    and "off + int (length p) \<le> cb_size b \<Longrightarrow> \<forall>q. cb_writable b q \<Longrightarrow> n = length p \<and> err = None"
    using assms by (cases "off + int (length p) \<le> cb_size b";
        auto simp: writes_def lsmtBackend_WriteAt_def split: if_splits)+
qed

interpretation cow: block_device lsmtBackend_ReadAt lsmtBackend_WriteAt "cow_disk base" "cow_wf base" for base
proof
  show "cow_wf base b \<Longrightarrow> 0 \<le> off \<Longrightarrow> lsmtBackend_ReadAt b n off = (take n (drop (nat off) (cow_disk base b)), None)"
    for b off n by (rule cow_read)
  show "cow_wf base b' \<and> n \<le> length p \<and> (n = 0 \<or> nat off + n \<le> length (cow_disk base b))
      \<and> cow_disk base b' = overwrite (cow_disk base b) (nat off) (take n p) \<and> (err = None \<longrightarrow> n = length p)"
    if "cow_wf base b" "0 \<le> off" "lsmtBackend_WriteAt b p off = (b', n, err)" for b off p b' n err
    by (rule cow_write(1) [OF that])
qed

lemma stack_eof:
  assumes "stack_ready s files" "0 \<le> off" "snd (lsmtStack_ReadAt s n off) = Some e"
  shows "is_io_EOF e"
  using assms stack_read [OF assms(1,2)] by (cases "off < st_virtualSize s") (auto simp: lsmtStack_ReadAt_def)

lemma cow_wf_new:
  assumes "newLSMTBackendOverStack stack dir path sz w = Inr b" "stack_ready stack files" "sz < 2 ^ 60"
  shows "cow_wf (stack_content files stack) b"
    "cow_disk (stack_content files stack) b = map (file_byte (stack_content files stack)) [0..<nat sz]"
proof -
  have b: "b = \<lparr>cb_stack = stack, cb_overlay = zeros (nat sz), cb_size = sz,
      cb_owned = replicate (nat (((4095 + sz) sdiv 4096 + 63) sdiv 64)) 0, cb_writable = w\<rparr>" and "0 \<le> sz"
    using assms(1) by (auto simp: newLSMTBackendOverStack_def fileBackendBlockSize_def Let_def
        split: if_splits option.splits)
  then obtain n where n: "sz = int n" using nonneg_int_cases by blast
  have words: "nat (((4095 + sz) sdiv 4096 + 63) sdiv 64) = ((n + 4095) div 4096 + 63) div 64"
    using sdiv_nat [of "n + 4095" 4096] sdiv_nat [of "(n + 4095) div 4096 + 63" 64] by (simp add: n add.commute)
  have "n \<le> (n + 4095) div 4096 * 4096" "(n + 4095) div 4096 \<le> ((n + 4095) div 4096 + 63) div 64 * 64"
    using div_mult_mod_eq [of "n + 4095" 4096] mod_less_divisor [of 4096 "n + 4095"]
      div_mult_mod_eq [of "(n + 4095) div 4096 + 63" 64] mod_less_divisor [of 64 "(n + 4095) div 4096 + 63"]
    by linarith+
  then have room: "n \<le> ((n + 4095) div 4096 + 63) div 64 * 64 * 4096"
    by (meson mult_le_mono1 order_trans)
  have "int (length (stack_content files stack)) = max 0 (st_virtualSize stack)" by (simp add: stack_content_def)
  then show "cow_wf (stack_content files stack) b"
    using stack_reader [OF assms(2)] stack_eof [OF assms(2)] assms(3) room words n
    unfolding cow_wf_def b by (simp add: n)
  have "\<not> isOwned b (int j)" for j by (simp add: isOwned_bit b nth_replicate)
  then show "cow_disk (stack_content files stack) b = map (file_byte (stack_content files stack)) [0..<nat sz]"
    by (simp add: cow_disk_def cow_byte_def b)
qed

text \<open>
  C4. The copy-on-write backend refines a flat disk: starting from a fresh overlay the guest sees
  the image followed by zeros; while the overlay accepts writes, a write inside the device succeeds
  in full and is exactly an overwrite of that flat disk, and every read at any offset and length
  returns the disk's bytes, whichever mixture of owned and unowned blocks it crosses.
\<close>

theorem cow_refines_disk:
  assumes "stack_ready stack files" "newLSMTBackendOverStack stack dir path sz w = Inr b0" "sz < 2 ^ 60" "\<forall>q. w q"
  defines "base \<equiv> stack_content files stack"
  shows "cow_wf base b0 \<and> cow_disk base b0 = base @ zeros (nat sz - length base)
    \<and> (\<forall>b off n. cow_wf base b \<longrightarrow> 0 \<le> off \<longrightarrow>
         lsmtBackend_ReadAt b n off = (take n (drop (nat off) (cow_disk base b)), None))
    \<and> (\<forall>b p off. cow_wf base b \<longrightarrow> cb_writable b = w \<longrightarrow> 0 \<le> off \<longrightarrow> off + int (length p) \<le> cb_size b \<longrightarrow>
         (\<exists>b'. lsmtBackend_WriteAt b p off = (b', length p, None) \<and> cow_wf base b'
            \<and> cow_disk base b' = overwrite (cow_disk base b) (nat off) p))"
proof (intro conjI allI impI)
  note new = cow_wf_new [OF assms(2,1,3), folded base_def]
  show "cow_wf base b0" by (rule new(1))
  have "length base \<le> nat sz"
    using assms(2) by (auto simp: newLSMTBackendOverStack_def base_def stack_content_def split: if_splits)
  then show "cow_disk base b0 = base @ zeros (nat sz - length base)"
    unfolding new(2) by (intro nth_equalityI) (auto simp: file_byte_def nth_append)
  show "lsmtBackend_ReadAt b n off = (take n (drop (nat off) (cow_disk base b)), None)"
    if "cow_wf base b" "0 \<le> off" for b off n by (rule cow_read [OF that])
  fix b :: lsmtBackend and p :: "byte list" and off :: int
  assume b: "cow_wf base b" "cb_writable b = w" "0 \<le> off" "off + int (length p) \<le> cb_size b"
  obtain b' n err where out: "lsmtBackend_WriteAt b p off = (b', n, err)" by (meson prod_cases3)
  show "\<exists>b'. lsmtBackend_WriteAt b p off = (b', length p, None) \<and> cow_wf base b'
      \<and> cow_disk base b' = overwrite (cow_disk base b) (nat off) p"
    using cow_write [OF b(1,3) out] b(2,4) assms(4) out by auto
qed

definition example_stack :: lsmtStack where
  "example_stack = chain_stack [example_layer 0 2, example_layer 1 1]
     [file_ReadAt (replicate 1024 7), file_ReadAt (replicate 512 9)] False 2048"

lemma example_stack_ready: "stack_ready example_stack [replicate 1024 7, replicate 512 9]"
proof -
  have "\<forall>l \<in> set [example_layer 0 2, example_layer 1 1]. index_wf (l_mappings l)"
    by (simp add: example_layer_def index_wf_def mapping_fits_def)
  then show ?thesis unfolding example_stack_def
    by (rule chain_stack_ready(1)) (simp_all add: layers_present_def os_file.content_reader_axioms)
qed

theorem cow_refines_disk_witness:
  "\<exists>b0 b'. newLSMTBackendOverStack example_stack Map.empty ''overlay'' 8192 (\<lambda>q. True) = Inr b0
     \<and> lsmtBackend_WriteAt b0 [1, 2, 3] 5000 = (b', 3, None) \<and> lsmtBackend_ReadAt b' 2 5001 = ([2, 3], None)"
proof -
  let ?base = "stack_content [replicate 1024 7, replicate 512 9] example_stack"
  obtain b0 where b0: "newLSMTBackendOverStack example_stack Map.empty ''overlay'' 8192 (\<lambda>q. True) = Inr b0"
    "cb_size b0 = 8192" "cb_writable b0 = (\<lambda>q. True)"
    by (simp add: newLSMTBackendOverStack_def example_stack_def chain_stack_def Let_def)
  note r = cow_refines_disk [OF example_stack_ready b0(1)]
  have wf: "cow_wf ?base b0" using r by simp
  then obtain b' where b': "lsmtBackend_WriteAt b0 [1, 2, 3] 5000 = (b', 3, None)" "cow_wf ?base b'"
    "cow_disk ?base b' = overwrite (cow_disk ?base b0) 5000 [1, 2, 3]"
    using r b0(2,3) by (auto dest!: spec [of _ b0] spec [of _ "[1, 2, 3]"] spec [of _ 5000])
  have "lsmtBackend_ReadAt b' 2 5001 = (take 2 (drop 5001 (cow_disk ?base b')), None)"
    using r b'(2) by simp
  moreover have "take 2 (drop 5001 (cow_disk ?base b')) = [2, 3]"
    unfolding b'(3) using b0(2) by (simp add: overwrite_def)
  ultimately show ?thesis using b0(1) b'(1) by auto
qed

section \<open>The extents the bitmap records\<close>

definition e_fin :: "sealedExtent \<Rightarrow> nat" where
  "e_fin e = unat (e_offset e) + unat (e_length e)"

text \<open>
  The runs found among the first \<open>n\<close> blocks, newest in front. A run's length is a 32-bit number of
  sectors, so this is exact for devices below 2 TiB.
\<close>

definition runs_upto :: "lsmtBackend \<Rightarrow> nat \<Rightarrow> sealedExtent list \<Rightarrow> bool" where
  "runs_upto b n out \<longleftrightarrow>
     sorted_wrt (\<lambda>a c. e_fin c \<le> unat (e_offset a)) out
     \<and> (\<forall>e \<in> set out. e_fin e \<le> 8 * n \<and> 0 < unat (e_length e))
     \<and> (\<forall>k. (\<exists>e \<in> set out. e_inside k e) \<longleftrightarrow> k div 8 < n \<and> isOwned b (int (k div 8)))"

lemma block_sectors: "k div 8 = n \<longleftrightarrow> 8 * n \<le> k \<and> k < 8 * n + 8" for k :: nat
proof
  show "k div 8 = n \<Longrightarrow> 8 * n \<le> k \<and> k < 8 * n + 8"
    using div_mult_mod_eq [of k 8] mod_less_divisor [of 8 k] by linarith
  show "8 * n \<le> k \<and> k < 8 * n + 8 \<Longrightarrow> k div 8 = n" by (intro div_nat_eqI) simp_all
qed

lemma runs_upto_skip: "\<not> isOwned b (int n) \<Longrightarrow> runs_upto b n out \<Longrightarrow> runs_upto b (Suc n) out"
  unfolding runs_upto_def by (auto simp: less_Suc_eq dest: order_trans)

lemma block_word:
  assumes "8 * n < 2 ^ 64"
  shows "unat (word_of_int (int n * 8) :: 64 word) = 8 * n"
proof -
  have "(word_of_int (int n * 8) :: 64 word) = word_of_nat (8 * n)"
    by (metis mult.commute of_int_of_nat_eq of_nat_mult of_nat_numeral)
  then show ?thesis using assms by (simp add: unsigned_of_nat take_bit_nat_eq_self_iff del: of_nat_mult)
qed

lemma runs_upto_push:
  assumes "isOwned b (int n)" "runs_upto b n out"
    and e: "unat (e_offset e) = 8 * n" "unat (e_length e) = 8"
  shows "runs_upto b (Suc n) (e # out)"
proof -
  have i: "e_inside k e \<longleftrightarrow> k div 8 = n" for k by (simp add: e_inside_def e block_sectors)
  have "(\<exists>x \<in> set (e # out). e_inside k x) \<longleftrightarrow> k div 8 < Suc n \<and> isOwned b (int (k div 8))" for k
    using assms(1,2) i unfolding runs_upto_def by (auto simp: less_Suc_eq)
  then show ?thesis using assms(2) unfolding runs_upto_def by (auto simp: e_fin_def e dest: order_trans)
qed

lemma runs_upto_extend:
  assumes "isOwned b (int n)" "runs_upto b n (prev # out)" "8 * n + 8 < 2 ^ 32" "e_fin prev = 8 * n"
  shows "runs_upto b (Suc n) (prev\<lparr>e_length := e_length prev + 8\<rparr> # out)"
proof -
  let ?e = "prev\<lparr>e_length := e_length prev + 8\<rparr>"
  have "unat (e_length prev) + 8 < 2 ^ 32" using assms(3,4) by (simp add: e_fin_def)
  then have l: "unat (e_length ?e) = unat (e_length prev) + 8" by (simp add: unat_word_ariths)
  then have fin: "e_fin ?e = 8 * n + 8" using assms(4) by (simp add: e_fin_def)
  have i: "e_inside k ?e \<longleftrightarrow> e_inside k prev \<or> k div 8 = n" for k
    using assms(4) l by (auto simp: e_inside_def block_sectors e_fin_def)
  have "(\<exists>x \<in> set (?e # out). e_inside k x) \<longleftrightarrow> (\<exists>x \<in> set (prev # out). e_inside k x) \<or> k div 8 = n" for k
    using i by auto
  then have "(\<exists>x \<in> set (?e # out). e_inside k x) \<longleftrightarrow> k div 8 < Suc n \<and> isOwned b (int (k div 8))" for k
    using assms(1,2) unfolding runs_upto_def by (auto simp: less_Suc_eq)
  then show ?thesis using assms(2) fin l unfolding runs_upto_def by (auto dest: order_trans)
qed

lemma add_owned:
  assumes "runs_upto b n out" "8 * n + 8 < 2 ^ 32"
  shows "runs_upto b (Suc n) (add_owned b (int n) out)"
proof (cases "isOwned b (int n)")
  case False
  then show ?thesis using runs_upto_skip [OF False assms(1)] by (cases out) simp_all
next
  case True
  have w: "unat (word_of_int (int n * 8) :: 64 word) = 8 * n" using assms(2) by (intro block_word) simp
  have new: "runs_upto b (Suc n) (\<lparr>e_offset = word_of_int (int n * 8), e_length = 8\<rparr> # out)"
    by (rule runs_upto_push [OF True assms(1)]) (simp_all only: sealedExtent.select_convs w, simp)
  show ?thesis
  proof (cases out)
    case Nil
    then show ?thesis using new True by (simp only: add_owned.simps if_True)
  next
    case (Cons prev rest)
    have "e_fin prev \<le> 8 * n" using assms(1) Cons by (simp add: runs_upto_def)
    then have u: "unat (e_offset prev + ucast (e_length prev)) = e_fin prev"
      using assms(2) unfolding e_fin_def by (intro unat_add_chunk) simp
    have "e_offset prev + ucast (e_length prev) = word_of_int (int n * 8) \<longleftrightarrow> e_fin prev = 8 * n"
      unfolding word_unat_eq_iff u w ..
    then show ?thesis
      using new runs_upto_extend [OF True assms(1) [unfolded Cons] assms(2)] True
      unfolding Cons by (simp only: add_owned.simps if_False if_True simp_thms split: if_split) blast
  qed
qed

lemma bitmap_extents:
  assumes "length (cb_owned b) * 64 * 8 < 2 ^ 32"
  shows "extents_wf (bitmap_extents b)"
    "(\<exists>e \<in> set (bitmap_extents b). e_inside k e) \<longleftrightarrow> isOwned b (int (k div 8))"
proof -
  define m where "m = length (cb_owned b) * 64"
  have runs: "runs_upto b n (fold (\<lambda>block. add_owned b (int block)) [0..<n] [])" if "n \<le> m" for n
    using that
  proof (induction n)
    case 0
    show ?case by (simp add: runs_upto_def)
  next
    case (Suc n)
    then have "8 * n + 8 < 2 ^ 32" using assms by (simp add: m_def)
    then show ?case using Suc add_owned by simp
  qed
  have all: "runs_upto b m (rev (bitmap_extents b))"
    using runs [of m] by (simp add: bitmap_extents_def m_def)
  have "isOwned b (int (k div 8)) \<Longrightarrow> k div 8 < m" for k
    by (simp add: isOwned_bit m_def div_less_iff_less_mult)
  then show "(\<exists>e \<in> set (bitmap_extents b). e_inside k e) \<longleftrightarrow> isOwned b (int (k div 8))"
    using all unfolding runs_upto_def by auto
  have "e_fin e < 2 ^ 32" if "e \<in> set (bitmap_extents b)" for e
    using all that assms unfolding runs_upto_def m_def by auto
  then show "extents_wf (bitmap_extents b)"
    using all unfolding runs_upto_def extents_wf_def e_fin_def sorted_wrt_rev by fastforce
qed

section \<open>The extents the filesystem reports\<close>

text \<open>
  What the walk keeps: runs in order and apart, inside the device, the last of them starting no
  later than the block of \<open>off\<close>, and together holding every allocated byte before \<open>off\<close>.
\<close>

definition walked :: "nat \<Rightarrow> (nat \<Rightarrow> bool) \<Rightarrow> nat \<Rightarrow> sealedExtent list \<Rightarrow> bool" where
  "walked n alloc off out \<longleftrightarrow>
     sorted_wrt (\<lambda>a c. e_fin c \<le> unat (e_offset a)) out
     \<and> (\<forall>e \<in> set out. e_fin e \<le> n div 512 \<and> unat (e_offset e) \<le> off div 4096 * 8)
     \<and> (\<forall>x < off. alloc x \<longrightarrow> (\<exists>e \<in> set out. e_inside (x div 512) e))"

lemma add_run_inside:
  fixes s :: "64 word" and l :: "32 word"
  assumes "\<forall>e \<in> set out. e_fin e \<le> m \<and> unat (e_offset e) \<le> unat s" "unat s + unat l \<le> m" "m < 2 ^ 32"
    "sorted_wrt (\<lambda>a c. e_fin c \<le> unat (e_offset a)) out"
  shows "sorted_wrt (\<lambda>a c. e_fin c \<le> unat (e_offset a)) (add_run s l out)"
    "\<forall>e \<in> set (add_run s l out). e_fin e \<le> m \<and> unat (e_offset e) \<le> unat s"
    "(\<exists>e \<in> set out. e_inside k e) \<or> (unat s \<le> k \<and> k < unat s + unat l) \<Longrightarrow> \<exists>e \<in> set (add_run s l out). e_inside k e"
proof -
  have new: "e_fin \<lparr>e_offset = s, e_length = l\<rparr> = unat s + unat l" by (simp add: e_fin_def)
  have sl: "unat (s + ucast l) = unat s + unat l" using assms(2,3) by (intro unat_add_chunk) simp
  consider (empty) "out = []" | (cons) prev rest where "out = prev # rest" by (cases out)
  then have "sorted_wrt (\<lambda>a c. e_fin c \<le> unat (e_offset a)) (add_run s l out)
    \<and> (\<forall>e \<in> set (add_run s l out). e_fin e \<le> m \<and> unat (e_offset e) \<le> unat s)
    \<and> ((\<exists>e \<in> set out. e_inside k e) \<or> (unat s \<le> k \<and> k < unat s + unat l) \<longrightarrow> (\<exists>e \<in> set (add_run s l out). e_inside k e))"
  proof cases
    case empty
    then show ?thesis using assms(2) new by (simp add: add_run_def e_inside_def)
  next
    case cons
    have p: "e_fin prev \<le> m" "unat (e_offset prev) \<le> unat s" using assms(1) cons by simp_all
    then have u: "unat (e_offset prev + ucast (e_length prev)) = e_fin prev"
      using assms(3) unfolding e_fin_def by (intro unat_add_chunk) simp
    show ?thesis
    proof (cases "e_offset prev + ucast (e_length prev) \<ge> s")
      case False
      then have "e_fin prev < unat s" using u by (simp add: word_le_nat_alt not_le)
      moreover have "e_fin e \<le> unat (e_offset prev) \<and> unat (e_offset prev) \<le> e_fin prev" if "e \<in> set rest" for e
        using assms(4) cons that by (simp add: e_fin_def)
      ultimately have "\<forall>e \<in> set out. e_fin e \<le> unat s" using cons by fastforce
      then show ?thesis using False cons assms(1,2,4) new by (auto simp: add_run_def e_inside_def)
    next
      case True
      define d where "d = (if s + ucast l > e_offset prev + ucast (e_length prev)
        then ucast (s + ucast l - (e_offset prev + ucast (e_length prev))) else 0 :: 32 word)"
      let ?p = "prev\<lparr>e_length := e_length prev + d\<rparr>"
      have r: "add_run s l out = ?p # rest" using True cons by (simp add: add_run_def d_def Let_def)
      have d: "unat d = max (unat s + unat l) (e_fin prev) - e_fin prev"
      proof (cases "s + ucast l > e_offset prev + ucast (e_length prev)")
        case longer: True
        then have "unat (s + ucast l - (e_offset prev + ucast (e_length prev))) = unat s + unat l - e_fin prev"
          by (simp add: unat_diff_64 sl u)
        then have "unat d = unat s + unat l - e_fin prev"
          using longer assms(2,3) by (simp add: d_def unsigned_ucast_eq take_bit_nat_eq_self_iff)
        then show ?thesis using longer by (simp add: word_less_nat_alt sl u max_def)
      qed (simp add: d_def word_less_nat_alt sl u max_def)
      have "unat (e_length prev) + unat d < 2 ^ 32" using d p(1) assms(2,3) unfolding e_fin_def by linarith
      then have fin: "e_fin ?p = max (unat s + unat l) (e_fin prev)"
        using d by (simp add: e_fin_def unat_word_ariths)
      have "e_inside k ?p \<longleftrightarrow> unat (e_offset prev) \<le> k \<and> k < max (unat s + unat l) (e_fin prev)"
        using fin by (simp add: e_inside_def e_fin_def)
      moreover have "e_fin prev \<ge> unat s" using True u by (simp add: word_le_nat_alt)
      ultimately show ?thesis unfolding r using cons assms(1,2,4) fin p by (auto simp: e_inside_def e_fin_def)
    qed
  qed
  then show "sorted_wrt (\<lambda>a c. e_fin c \<le> unat (e_offset a)) (add_run s l out)"
    "\<forall>e \<in> set (add_run s l out). e_fin e \<le> m \<and> unat (e_offset e) \<le> unat s"
    "(\<exists>e \<in> set out. e_inside k e) \<or> (unat s \<le> k \<and> k < unat s + unat l) \<Longrightarrow> \<exists>e \<in> set (add_run s l out). e_inside k e"
    by blast+
qed

text \<open>
  The documented behaviour of \<^verbatim>\<open>SEEK_DATA\<close> and \<^verbatim>\<open>SEEK_HOLE\<close> on a file whose allocated bytes are
  \<open>alloc\<close>: the first allocated offset at or after the one given, and an offset past it where a hole
  (or the end of the file) begins. Either call may fail.
\<close>

definition honest_seek :: "nat \<Rightarrow> (nat \<Rightarrow> bool) \<Rightarrow> seek \<Rightarrow> seek \<Rightarrow> bool" where
  "honest_seek n alloc seek_data seek_hole \<longleftrightarrow>
     (\<forall>off < n. case seek_data (int off) of
        Inl e \<Rightarrow> True
      | Inr None \<Rightarrow> \<forall>x. off \<le> x \<longrightarrow> \<not> alloc x
      | Inr (Some d) \<Rightarrow> \<exists>d'. d = int d' \<and> off \<le> d' \<and> alloc d' \<and> (\<forall>x. off \<le> x \<longrightarrow> x < d' \<longrightarrow> \<not> alloc x))
     \<and> (\<forall>d h. alloc d \<longrightarrow> seek_hole (int d) = Inr (Some h) \<longrightarrow> int d < h)"

lemma region_bounds:
  fixes d h n x :: nat
  assumes "d < h" "h \<le> n" "512 dvd n"
  defines "start \<equiv> d div 4096 * 4096" and "fin \<equiv> min ((h + 4095) div 4096 * 4096) n"
  shows "start \<le> d" "h \<le> fin" "start div 512 = d div 4096 * 8" "start div 512 + (fin - start) div 512 = fin div 512"
    "d \<le> x \<Longrightarrow> x < h \<Longrightarrow> start div 512 \<le> x div 512 \<and> x div 512 < fin div 512"
proof -
  show s: "start \<le> d" by (simp add: start_def)
  have "h \<le> (h + 4095) div 4096 * 4096"
    using div_mult_mod_eq [of "h + 4095" 4096] mod_less_divisor [of 4096 "h + 4095"] by linarith
  then show f: "h \<le> fin" using assms(2) by (simp add: fin_def)
  have sd: "512 dvd start" by (simp add: start_def dvd_mult)
  have fd: "512 dvd fin" using assms(3) by (simp add: fin_def min_def dvd_mult)
  show "start div 512 = d div 4096 * 8" by (simp add: start_def)
  have le: "start \<le> fin" using s f assms(1) by linarith
  have "(fin - start) div 512 = fin div 512 - start div 512" using sd fd by (elim dvdE) (simp add: diff_mult_distrib2 [symmetric])
  moreover have "start div 512 \<le> fin div 512" using le by (rule div_le_mono)
  ultimately show "start div 512 + (fin - start) div 512 = fin div 512" by simp
  assume x: "d \<le> x" "x < h"
  have "x div 512 < fin div 512" using fd x(2) f by (elim dvdE) (simp add: div_less_iff_less_mult)
  moreover have "start div 512 \<le> x div 512" using s x(1) by (intro div_le_mono) linarith
  ultimately show "start div 512 \<le> x div 512 \<and> x div 512 < fin div 512" by blast
qed

lemma unat_word_int: "k < 2 ^ LENGTH('a) \<Longrightarrow> unat (word_of_int (int k) :: 'a::len word) = k"
  by (simp add: unsigned_of_nat take_bit_nat_eq_self_iff)

lemma add_region_run:
  assumes "d < h" "h \<le> n" "512 dvd n" "n < 2 ^ 41"
  defines "start \<equiv> d div 4096 * 4096" and "fin \<equiv> min ((h + 4095) div 4096 * 4096) n"
  obtains s l where "add_region (int n) (int d) (int h) out = add_run s l out"
    "unat s = start div 512" "unat l = (fin - start) div 512"
proof -
  note b = region_bounds [OF assms(1-3), folded start_def fin_def]
  have st: "int d sdiv int fileBackendBlockSize * int fileBackendBlockSize = int start"
    by (simp add: sdiv_nat fileBackendBlockSize_def start_def del: of_nat_numeral)
  have fi: "(int h + int fileBackendBlockSize - 1) sdiv int fileBackendBlockSize * int fileBackendBlockSize
      = int ((h + 4095) div 4096 * 4096)"
    using sdiv_nat [of "h + 4095" 4096] by (simp add: fileBackendBlockSize_def add.commute)
  have run: "round_run (int n) (int d) (int h) = (int start, int fin)"
    by (simp add: round_run_def Let_def st fi fin_def min_def)
  have "start \<le> fin" using b(1,2) assms(1) by linarith
  then have diff: "int fin - int start = int (fin - start)" by simp
  have "fin \<le> n" by (simp add: fin_def)
  then have "fin - start < 2 ^ 41" "start < 2 ^ 41" using assms(4) b(1) assms(1,2) by linarith+
  then have small: "(fin - start) div 512 < 2 ^ 32" "start div 512 < 2 ^ 64"
    by (simp_all add: div_less_iff_less_mult)
  define s :: "64 word" where "s = word_of_int (int start sdiv int lsmtAlignment)"
  define l :: "32 word" where "l = word_of_int ((int fin - int start) sdiv int lsmtAlignment)"
  have s: "unat s = start div 512"
    unfolding s_def sdiv_nat lsmtAlignment_def using small(2) by (intro unat_word_int) simp
  have l: "unat l = (fin - start) div 512"
    unfolding l_def diff sdiv_nat lsmtAlignment_def using small(1) by (intro unat_word_int) simp
  have "start div 512 < fin div 512" using b(5) [of d] assms(1) by simp
  then have "0 < unat l" unfolding l using b(4) by linarith
  then have "l \<noteq> 0" by auto
  then have "add_region (int n) (int d) (int h) out = add_run s l out"
    by (simp add: add_region_def run Let_def s_def l_def)
  then show thesis using that s l by blast
qed

lemma walked_step:
  assumes w: "walked n alloc off out" and d: "off \<le> d" "\<forall>x. off \<le> x \<longrightarrow> x < d \<longrightarrow> \<not> alloc x"
    and h: "d < h" "h \<le> n" "512 dvd n" "n < 2 ^ 41"
  shows "walked n alloc h (add_region (int n) (int d) (int h) out)"
proof -
  let ?start = "d div 4096 * 4096" and ?fin = "min ((h + 4095) div 4096 * 4096) n"
  note b = region_bounds [OF h(1-3)]
  obtain s l where r: "add_region (int n) (int d) (int h) out = add_run s l out"
    "unat s = ?start div 512" "unat l = (?fin - ?start) div 512"
    using add_region_run [OF h] by blast
  have fin: "unat s + unat l = ?fin div 512" unfolding r(2,3) by (rule b(4))
  have "?fin div 512 \<le> n div 512" by (intro div_le_mono) simp
  then have m: "unat s + unat l \<le> n div 512" using fin by simp
  have m32: "n div 512 < 2 ^ 32" using h(4) by (simp add: div_less_iff_less_mult)
  have s: "unat s = d div 4096 * 8" using r(2) b(3) by simp
  have old: "\<forall>e \<in> set out. e_fin e \<le> n div 512 \<and> unat (e_offset e) \<le> unat s"
  proof
    fix e assume "e \<in> set out"
    then have "e_fin e \<le> n div 512" "unat (e_offset e) \<le> off div 4096 * 8" using w by (simp_all add: walked_def)
    moreover have "off div 4096 * 8 \<le> unat s" unfolding s using d(1) by (intro mult_le_mono1 div_le_mono)
    ultimately show "e_fin e \<le> n div 512 \<and> unat (e_offset e) \<le> unat s" by linarith
  qed
  have sorted: "sorted_wrt (\<lambda>a c. e_fin c \<le> unat (e_offset a)) out" using w by (simp add: walked_def)
  note a = add_run_inside [OF old m m32 sorted]
  have "\<exists>e \<in> set (add_run s l out). e_inside (x div 512) e" if x: "x < h" "alloc x" for x
  proof (cases "x < off")
    case True
    then show ?thesis using w x(2) a(3) unfolding walked_def by blast
  next
    case False
    then have "d \<le> x" using d(2) x(2) by (meson not_le)
    then have "unat s \<le> x div 512 \<and> x div 512 < unat s + unat l"
      using b(5) [of x] x(1) r(2) fin by simp
    then show ?thesis using a(3) by blast
  qed
  moreover have "unat s \<le> h div 4096 * 8" unfolding s using h(1) by (intro mult_le_mono1 div_le_mono) simp
  ultimately show ?thesis unfolding walked_def r(1) using a(1,2) by (meson order_trans)
qed

lemma walked_rest:
  assumes "walked n alloc off out" "off \<le> n" "\<And>x. off \<le> x \<Longrightarrow> x < n \<Longrightarrow> \<not> alloc x"
  shows "walked n alloc n out"
proof -
  have "off div 4096 * 8 \<le> n div 4096 * 8" using assms(2) by (intro mult_le_mono1 div_le_mono)
  then show ?thesis using assms(1,3) unfolding walked_def by (meson not_le order_trans)
qed

lemma walk_step_cases:
  assumes seek: "honest_seek n alloc seek_data seek_hole" and w: "walked n alloc off out" "off \<le> n"
  obtains r where "walk_step seek_data seek_hole (int n) (int off) out = Inl r"
      "\<And>ext. r = Inr ext \<Longrightarrow> walked n alloc n (rev ext)"
  | d h where "walk_step seek_data seek_hole (int n) (int off) out = Inr (int h, add_region (int n) (int d) (int h) out)"
      "off \<le> d" "\<forall>x. off \<le> x \<longrightarrow> x < d \<longrightarrow> \<not> alloc x" "d < h" "h \<le> n"
proof (cases "off < n")
  case False
  then show thesis using that(1) [of "Inr (rev out)"] walked_rest [OF w] by (simp add: walk_step_def)
next
  case True
  note law = seek [unfolded honest_seek_def, THEN conjunct1, rule_format, OF True]
  consider (fail) e where "seek_data (int off) = Inl e" | (none) "seek_data (int off) = Inr None"
    | (data) d where "seek_data (int off) = Inr (Some (int d))" "off \<le> d" "alloc d"
        "\<forall>x. off \<le> x \<longrightarrow> x < d \<longrightarrow> \<not> alloc x"
    using law by (auto split: sum.splits option.splits)
  then show thesis
  proof cases
    case fail
    then show thesis using that(1) True by (simp add: walk_step_def)
  next
    case none
    then show thesis using that(1) [of "Inr (rev out)"] walked_rest [OF w] law True by (simp add: walk_step_def)
  next
    case data
    consider (nohole) e where "seek_hole (int d) = Inl e" | (enxio) "seek_hole (int d) = Inr None"
      | (hole) hh where "seek_hole (int d) = Inr (Some hh)"
      by (metis option.exhaust sum.exhaust)
    then show thesis
    proof cases
      case nohole
      then show thesis using that(1) data(1) True by (simp add: walk_step_def)
    next
      case enxio
      then show thesis using that(1) data(1) True by (simp add: walk_step_def)
    next
      case hole
      then have "int d < hh" using seek data(3) unfolding honest_seek_def by blast
      then obtain h where h: "(if hh > int n then int n else hh) = int h"
        by (metis less_imp_le nonneg_int_cases of_nat_0_le_iff order_trans)
      have step: "walk_step seek_data seek_hole (int n) (int off) out =
          (if h \<le> d then Inl (Inr (rev out)) else Inr (int h, add_region (int n) (int d) (int h) out))"
        using data(1) hole True by (simp add: walk_step_def Let_def h)
      show thesis
      proof (cases "h \<le> d")
        case True
        then have "n \<le> d" using \<open>int d < hh\<close> h by (auto split: if_splits)
        then show thesis using that(1) [of "Inr (rev out)"] walked_rest [OF w] data(4) step True by simp
      next
        case False
        then show thesis using that(2) [of h d] step data(2,4) h by (auto split: if_splits)
      qed
    qed
  qed
qed

lemma walk_extents:
  assumes seek: "honest_seek n alloc seek_data seek_hole" and n: "512 dvd n" "n < 2 ^ 41"
    and "walked n alloc off out" "off \<le> n"
  shows "\<exists>r. walk_extents seek_data seek_hole (int n) (int off) out = Some r
    \<and> (\<forall>ext. r = Inr ext \<longrightarrow> walked n alloc n (rev ext))"
  using assms(4,5)
proof (induction "n - off" arbitrary: off out rule: less_induct)
  case less
  show ?case
  proof (cases rule: walk_step_cases [OF seek less.prems])
    case (1 r)
    then show ?thesis by (subst walk_extents.simps) simp
  next
    case (2 d h)
    have "n - h < n - off" using 2(2,4,5) by linarith
    then show ?thesis
      using less.hyps [OF _ walked_step [OF less.prems(1) 2(2-5) n] 2(5)] 2(1) by (subst walk_extents.simps) simp
  qed
qed

lemma owned_extents:
  assumes "honest_seek (nat (cb_size b)) alloc seek_data seek_hole" "512 dvd nat (cb_size b)"
    "0 \<le> cb_size b" "cb_size b < 2 ^ 41" "length (cb_owned b) * 64 * 8 < 2 ^ 32"
    "\<forall>x < nat (cb_size b). isOwned b (int (x div 4096)) \<longrightarrow> alloc x"
  shows "\<exists>ext. OwnedExtents seek_data seek_hole b = Some ext \<and> extents_wf ext
    \<and> (\<forall>x < nat (cb_size b). isOwned b (int (x div 4096)) \<longrightarrow> (\<exists>e \<in> set ext. e_inside (x div 512) e))"
proof -
  let ?n = "nat (cb_size b)"
  have n: "int ?n = cb_size b" "?n < 2 ^ 41" using assms(3,4) by simp_all
  have "walked ?n alloc 0 []" by (simp add: walked_def)
  from walk_extents [OF assms(1,2) n(2) this]
  obtain r where r: "walk_extents seek_data seek_hole (cb_size b) 0 [] = Some r"
    "\<And>ext. r = Inr ext \<Longrightarrow> walked ?n alloc ?n (rev ext)" using n(1) by auto
  have "x div 512 div 8 = x div 4096" for x :: nat by (simp add: div_mult2_eq [symmetric])
  then have bitmap: "extents_wf (bitmap_extents b)"
    "\<forall>x < ?n. isOwned b (int (x div 4096)) \<longrightarrow> (\<exists>e \<in> set (bitmap_extents b). e_inside (x div 512) e)"
    using bitmap_extents [OF assms(5)] by simp_all
  consider (walk) ext where "r = Inr ext" "OwnedExtents seek_data seek_hole b = Some ext"
    | (bitmap) "OwnedExtents seek_data seek_hole b = Some (bitmap_extents b)"
    using r(1) by (cases r; cases "projr r = []") (auto simp: OwnedExtents_def)
  then show ?thesis
  proof cases
    case walk
    note w = r(2) [OF walk(1), unfolded walked_def]
    have "e_fin e < 2 ^ 50" if "e \<in> set ext" for e
    proof -
      have "e_fin e \<le> ?n div 512" using w that by simp
      then have "e_fin e \<le> ?n" using div_le_dividend order_trans by blast
      then show ?thesis using n(2) by simp
    qed
    then have "extents_wf ext" using w by (simp add: extents_wf_def e_fin_def sorted_wrt_rev)
    moreover have "\<forall>x < ?n. isOwned b (int (x div 4096)) \<longrightarrow> (\<exists>e \<in> set ext. e_inside (x div 512) e)"
      using w assms(6) by simp
    ultimately show ?thesis using walk(2) by blast
  next
    case bitmap
    then show ?thesis using \<open>extents_wf (bitmap_extents b)\<close>
        \<open>\<forall>x < ?n. isOwned b (int (x div 4096)) \<longrightarrow> (\<exists>e \<in> set (bitmap_extents b). e_inside (x div 512) e)\<close> by blast
  qed
qed

text \<open>
  C20. Asking a backend which extents its sandbox has written always returns, through the
  filesystem's map or the bitmap when that fails or is empty, and the answer is a list of separate
  runs in order that misses no byte of a block the sandbox owns.
\<close>

theorem owned_extents_complete:
  assumes "honest_seek (nat (cb_size b)) alloc seek_data seek_hole" "512 dvd nat (cb_size b)"
    "0 \<le> cb_size b" "cb_size b < 2 ^ 41" "length (cb_owned b) * 64 * 8 < 2 ^ 32"
    "\<forall>x < nat (cb_size b). isOwned b (int (x div 4096)) \<longrightarrow> alloc x"
  shows "\<exists>ext. OwnedExtents seek_data seek_hole b = Some ext \<and> extents_wf ext
    \<and> (\<forall>x < nat (cb_size b). isOwned b (int (x div 4096)) \<longrightarrow> (\<exists>e \<in> set ext. e_inside (x div 512) e))"
  by (rule owned_extents [OF assms])

definition example_owned :: lsmtBackend where
  "example_owned = \<lparr>cb_stack = example_stack, cb_overlay = zeros 8192, cb_size = 8192, cb_owned = [2],
     cb_writable = (\<lambda>q. True)\<rparr>"

theorem owned_extents_complete_witness:
  "\<exists>ext. OwnedExtents (\<lambda>off. if off \<le> 4096 then Inr (Some 4096) else if off < 8192 then Inr (Some off) else Inr None)
        (\<lambda>off. Inr (Some (if off < 4096 then off else 8192))) example_owned = Some ext
     \<and> extents_wf ext \<and> (\<exists>e \<in> set ext. e_inside 9 e)"
proof -
  let ?alloc = "\<lambda>x. 4096 \<le> x \<and> x < (8192 :: nat)"
  let ?sd = "(\<lambda>off. if off \<le> 4096 then Inr (Some 4096) else if off < 8192 then Inr (Some off) else Inr None) :: seek"
  let ?sh = "(\<lambda>off. Inr (Some (if off < 4096 then off else 8192))) :: seek"
  have size: "nat (cb_size example_owned) = 8192" by (simp add: example_owned_def)
  have "honest_seek 8192 ?alloc ?sd ?sh"
    unfolding honest_seek_def
  proof (intro conjI allI impI)
    show "case ?sd (int off) of Inl e \<Rightarrow> True | Inr None \<Rightarrow> \<forall>x. off \<le> x \<longrightarrow> \<not> ?alloc x
      | Inr (Some d) \<Rightarrow> \<exists>d'. d = int d' \<and> off \<le> d' \<and> ?alloc d' \<and> (\<forall>x. off \<le> x \<longrightarrow> x < d' \<longrightarrow> \<not> ?alloc x)"
      if "off < 8192" for off
      using that by (auto intro: exI [of _ 4096] exI [of _ off])
  qed auto
  moreover have owned: "isOwned example_owned (int j) \<longleftrightarrow> j = 1" for j
  proof -
    have two: "bit (2 :: 64 word) m \<longleftrightarrow> m = 1" for m
      using bit_exp_iff [of 1 m, where ?'a = "64 word"] by auto
    have "isOwned example_owned (int j) \<longleftrightarrow> j < 64 \<and> bit (2 :: 64 word) (j mod 64)"
      by (auto simp: isOwned_bit example_owned_def div_less_iff_less_mult)
    then show ?thesis unfolding two by auto
  qed
  moreover have "\<forall>x < 8192. isOwned example_owned (int (x div 4096)) \<longrightarrow> ?alloc x"
    unfolding owned by (auto simp: block_iff)
  ultimately obtain ext where "OwnedExtents ?sd ?sh example_owned = Some ext" "extents_wf ext"
    "\<forall>x < 8192. x div 4096 = 1 \<longrightarrow> (\<exists>e \<in> set ext. e_inside (x div 512) e)"
    using owned_extents_complete [of example_owned ?alloc ?sd ?sh, unfolded size] by (auto simp: example_owned_def)
  moreover from this(3) have "\<exists>e \<in> set ext. e_inside (4608 div 512) e" by (auto dest!: spec [of _ 4608])
  ultimately show ?thesis by auto
qed

end
