(* ===== verification/SnapshotChain.thy ===== *)
theory SnapshotChain
  imports LsmtCow
begin

text \<open>
  A snapshot of a running sandbox's disk: the sealing of the written extents
  (\<^verbatim>\<open>sealFromBitmap\<close> in \<^verbatim>\<open>src/internal/node/image/overlaybd_linux.go\<close>, up to the publication of the
  sealed file) and the chain that the snapshot is restored from. Flushing and resolving the base
  image are outside the model: their errors are arguments.
\<close>

section \<open>Sealing a sandbox's disk\<close>

definition sealFromBitmap ::
  "go_error option \<Rightarrow> go_error option \<Rightarrow> seek \<Rightarrow> seek \<Rightarrow> lsmtBackend \<Rightarrow> (string \<rightharpoonup> byte list) \<Rightarrow> nat \<Rightarrow> string \<Rightarrow> string
    \<Rightarrow> ((string \<rightharpoonup> byte list) \<times> go_error option) option" where
  "sealFromBitmap flush_err base_err seek_data seek_hole backend dir room sandboxID sealedPath =
     (case flush_err of
        Some e \<Rightarrow> Some (dir, Some (Wrapf ''flush sandbox %s before sealing'' [AStr sandboxID] e))
      | None \<Rightarrow>
          map_option (\<lambda>extents.
            if extents = []
            then (dir, Some (Errorf ''sandbox %s has written nothing, so there is no filesystem to seal'' [AStr sandboxID]))
            else case base_err of
                Some e \<Rightarrow> (dir, Some e)
              | None \<Rightarrow>
                  sealFileTo (dir(sealedPath := None)) room sealedPath (word_of_int (cb_size backend)) extents
                    (lsmtBackend_ReadAt backend))
            (OwnedExtents seek_data seek_hole backend))"

section \<open>A layer on top of a chain\<close>

lemma chain_snoc: "chain (layers @ [l]) = (length layers, l_mappings l) # chain layers"
  by (simp add: chain_def enumerate_append_eq)

lemma newest_at_index: "newest_at (chain layers) x = Some (i, bk) \<Longrightarrow> i < length layers"
proof (induction layers rule: rev_induct)
  case (snoc l layers)
  then show ?case by (auto simp: chain_snoc split: option.splits dest: less_SucI)
qed (simp add: chain_def)

lemma newest_byte_snoc:
  assumes "length files = length layers" "k < 2 ^ 61"
  shows "newest_byte (files @ [f]) (layers @ [l]) k =
    (case layer_byte f (l_mappings l) k of Some y \<Rightarrow> y | None \<Rightarrow> newest_byte files layers k)"
proof -
  have s: "word_of_nat (k div lsmtAlignment) = sector_of k" by (simp add: sector_of_def lsmtAlignment_def)
  show ?thesis
  proof (cases "index_at (l_mappings l) (sector_of k)")
    case None
    moreover have "backing_byte (files @ [f]) (newest_at (chain layers) (sector_of k)) m
        = backing_byte files (newest_at (chain layers) (sector_of k)) m" for m
      using newest_at_index [of layers "sector_of k"] assms(1)
      by (auto simp: backing_byte_def nth_append split: option.split backing.split prod.split)
    ultimately show ?thesis by (simp add: newest_byte_def s chain_snoc layer_byte_def)
  next
    case (Some bk)
    then show ?thesis using assms(1)
      by (cases bk) (simp_all add: newest_byte_def sector_of_def [symmetric] chain_snoc layer_byte_def
          backing_byte_def nth_append lsmtAlignment_def)
  qed
qed

section \<open>A snapshot restores the disk it was taken of\<close>

text \<open>
  The extents to seal are fit for the writer: the sealed file stays below the sizes the format and
  the reader accept, and the device has room for it.
\<close>

definition sealable :: "sealedExtent list \<Rightarrow> nat \<Rightarrow> bool" where
  "sealable ext room \<longleftrightarrow> 0 < total_sectors ext \<and> seal_size ext \<le> room \<and> seal_size ext < 2 ^ 61
     \<and> index_entries ext \<le> 2 ^ 26"

lemma extents_wf_sorted: "extents_wf es \<Longrightarrow> es = sort_slice (\<lambda>a b. e_offset a < e_offset b) es"
proof -
  assume "extents_wf es"
  then have "sorted_wrt (\<lambda>a b. unat (e_offset a) + unat (e_length a) \<le> unat (e_offset b)) es"
    by (simp add: extents_wf_def)
  then have "sorted_wrt (\<lambda>a b. \<not> e_offset b < e_offset a) es"
    by (rule sorted_wrt_mono_rel [rotated]) (auto simp: word_less_nat_alt)
  then show ?thesis by (simp add: sort_slice_sorted)
qed

lemma cow_content_reader:
  assumes "cow_wf base b"
  shows "content_reader (lsmtBackend_ReadAt b) (cow_disk base b)"
  by unfold_locales (simp_all add: cow_read [OF assms])

lemma snapshot_content:
  assumes wf: "cow_wf base b" "base = chain_content files layers vs" "length files = length layers"
    and past: "\<forall>k < 2 ^ 61. vs \<le> k \<longrightarrow> newest_byte files layers k = 0"
    and bytes: "\<forall>k < 2 ^ 61. layer_byte f (l_mappings l) k =
        (if \<exists>e \<in> set ext. e_inside (k div 512) e then Some (file_byte (cow_disk base b) k) else None)"
    and cover: "\<forall>x < nat (cb_size b). isOwned b (int (x div 4096)) \<longrightarrow> (\<exists>e \<in> set ext. e_inside (x div 512) e)"
  shows "chain_content (files @ [f]) (layers @ [l]) (nat (cb_size b)) = cow_disk base b"
proof -
  have "newest_byte (files @ [f]) (layers @ [l]) k = cow_byte base b k" if k: "k < nat (cb_size b)" for k
  proof -
    have "cb_size b < 2 ^ 60" using wf(1) by (simp add: cow_wf_def)
    then have k61: "k < 2 ^ 61" using k by (simp add: zless_nat_eq_int_zless)
    have disk: "file_byte (cow_disk base b) k = cow_byte base b k" using k by (simp add: file_byte_def cow_disk_def)
    have "newest_byte files layers k = file_byte base k"
      using past wf(2) k61 by (auto simp: chain_content_def file_byte_def)
    then have "\<not> isOwned b (int (k div 4096)) \<Longrightarrow> newest_byte files layers k = cow_byte base b k"
      by (simp add: cow_byte_def)
    then show ?thesis
      using newest_byte_snoc [OF wf(3) k61] bytes k61 cover k disk by (auto split: option.split if_splits)
  qed
  then show ?thesis by (simp add: chain_content_def cow_disk_def)
qed

text \<open>
  C5. A snapshot holds what the sandbox saw. For a sandbox over a chain of layers, sealing its
  written extents gives a file that opens as a layer, and the old chain with that layer on top reads,
  at every offset and length within the device, exactly as the sandbox's own disk did.
\<close>

theorem snapshot_restores_disk:
  assumes chain: "\<forall>l \<in> set layers. index_wf (l_mappings l)" "layers_present readers files"
      "length readers = length layers" "cb_stack b = chain_stack layers readers remote (int vs)"
      "\<forall>k < 2 ^ 61. vs \<le> k \<longrightarrow> newest_byte files layers k = 0"
    and wf: "cow_wf (chain_content files layers vs) b" "0 < cb_size b" "cb_size b < 2 ^ 41"
    and ext: "OwnedExtents seek_data seek_hole b = Some ext" "extents_wf ext" "sealable ext room"
      "\<forall>x < nat (cb_size b). isOwned b (int (x div 4096)) \<longrightarrow> (\<exists>e \<in> set ext. e_inside (x div 512) e)"
  shows "\<exists>f l. sealFromBitmap None None seek_data seek_hole b dir room sid path = Some (dir(path \<mapsto> f), None)
    \<and> openLSMTLayer (file_ReadAt f) (int (length f)) = Inr l \<and> uint (l_virtualSize l) = cb_size b
    \<and> (\<forall>n off. 0 \<le> off \<longrightarrow> off < cb_size b \<longrightarrow>
         lsmtStack_ReadAt (chain_stack (layers @ [l]) (readers @ [file_ReadAt f]) remote (cb_size b)) n off
           = lsmtBackend_ReadAt b n off)"
proof -
  let ?base = "chain_content files layers vs" and ?v = "word_of_int (cb_size b) :: 64 word"
  have v: "uint ?v = cb_size b" using wf(2,3) by (simp add: unsigned_of_int take_bit_int_eq_self_iff)
  then have v0: "?v \<noteq> 0" using wf(2) by auto
  note es = extents_wf_sorted [OF ext(2)]
  have s: "0 < total_sectors ext" "seal_size ext \<le> room" "seal_size ext < 2 ^ 61" "index_entries ext \<le> 2 ^ 26"
    using ext(3) by (simp_all add: sealable_def)
  obtain d ms where d: "writeSealedLSMT \<lparr>d_bytes = [], d_pos = 0, d_capacity = room\<rparr> ?v ext (lsmtBackend_ReadAt b) = Inr d"
    "\<forall>src. content_reader src (d_bytes d) \<longrightarrow>
       openLSMTLayer src (int (length (d_bytes d))) = Inr \<lparr>l_src = src, l_mappings = ms, l_virtualSize = ?v\<rparr>"
    "index_wf ms" "layout (cow_disk ?base b) (d_bytes d) ext ms"
    using seal_opens [OF cow_content_reader [OF wf(1)] v0 es ext(2) s] by blast
  define f where "f = d_bytes d"
  define l where "l = \<lparr>l_src = file_ReadAt f, l_mappings = ms, l_virtualSize = ?v\<rparr>"
  have open_l: "openLSMTLayer (file_ReadAt f) (int (length f)) = Inr l"
    using d(2) os_file.content_reader_axioms [of f] by (simp add: f_def l_def)
  have "ext \<noteq> []" using s(1) by (auto simp: total_sectors_def)
  then have sealed: "sealFromBitmap None None seek_data seek_hole b dir room sid path = Some (dir(path \<mapsto> f), None)"
    using ext(1) d(1) by (simp add: sealFromBitmap_def sealFileTo_def f_def)
  have len: "length files = length layers" using chain(2,3) by (auto simp: layers_present_def dest: list_all2_lengthD)
  have bytes: "\<forall>k < 2 ^ 61. layer_byte f (l_mappings l) k =
      (if \<exists>e \<in> set ext. e_inside (k div 512) e then Some (file_byte (cow_disk ?base b) k) else None)"
    using layout_bytes [OF d(4,3)] by (simp add: f_def l_def)
  have content: "chain_content (files @ [f]) (layers @ [l]) (nat (cb_size b)) = cow_disk ?base b"
    by (rule snapshot_content [OF wf(1) refl len chain(5) bytes ext(4)])
  have ready: "\<forall>l \<in> set (layers @ [l]). index_wf (l_mappings l)" "layers_present (readers @ [file_ReadAt f]) (files @ [f])"
    "length (readers @ [file_ReadAt f]) = length (layers @ [l])" "cb_size b < 2 ^ 60"
    using chain(1-3) d(3) wf(3) os_file.content_reader_axioms
    by (simp_all add: l_def layers_present_def list_all2_appendI)
  have "lsmtStack_ReadAt (chain_stack (layers @ [l]) (readers @ [file_ReadAt f]) remote (cb_size b)) n off
      = lsmtBackend_ReadAt b n off" if "0 \<le> off" "off < cb_size b" for n off
    using stack_read [OF chain_stack_ready(1) [OF ready, of remote] that(1), of n] that chain_stack_ready(2) [OF ready]
      cow_read [OF wf(1) that(1)] content by (simp add: chain_stack_def)
  then show ?thesis using sealed open_l v by (auto simp: l_def)
qed

lemma fold_unowned: "\<forall>j \<in> set js. \<not> isOwned b (int j) \<Longrightarrow> fold (\<lambda>block. add_owned b (int block)) js out = out"
proof (induction js)
  case (Cons j js)
  then have "add_owned b (int j) out = out" by (cases out) simp_all
  with Cons show ?case by simp
qed simp

lemma example_bitmap:
  "isOwned example_owned (int j) \<longleftrightarrow> j = 1"
  "bitmap_extents example_owned = [\<lparr>e_offset = 8, e_length = 8\<rparr>]"
proof -
  show o: "isOwned example_owned (int j) \<longleftrightarrow> j = 1" for j
  proof -
    have two: "bit (2 :: 64 word) m \<longleftrightarrow> m = 1" for m
      using bit_exp_iff [of 1 m, where ?'a = "64 word"] by auto
    have "isOwned example_owned (int j) \<longleftrightarrow> j < 64 \<and> bit (2 :: 64 word) (j mod 64)"
      by (auto simp: isOwned_bit example_owned_def div_less_iff_less_mult)
    then show ?thesis unfolding two by auto
  qed
  have "[0..<64] = [0, 1] @ [2..<64 :: nat]"
    using upt_add_eq_append [of 0 2 62] by (simp add: upt_rec [of _ 2] del: upt_rec_numeral)
  moreover have "length (cb_owned example_owned) * 64 = 64" by (simp add: example_owned_def)
  moreover have "fold (\<lambda>block. add_owned example_owned (int block)) [2..<64] out = out" for out
    by (rule fold_unowned) (simp add: o)
  moreover have "add_owned example_owned (int 0) [] = []"
    "add_owned example_owned (int 1) [] = [\<lparr>e_offset = 8, e_length = 8\<rparr>]"
    using o [of 0] o [of 1] by simp_all
  ultimately show "bitmap_extents example_owned = [\<lparr>e_offset = 8, e_length = 8\<rparr>]"
    by (simp add: bitmap_extents_def del: of_nat_0 of_nat_1 add_owned.simps)
qed

theorem snapshot_restores_disk_witness:
  "\<exists>f l. sealFromBitmap None None (\<lambda>off. Inr None) (\<lambda>off. Inr None) example_owned Map.empty 20000 ''s'' ''snap''
        = Some ([''snap'' \<mapsto> f], None)
     \<and> openLSMTLayer (file_ReadAt f) (int (length f)) = Inr l
     \<and> lsmtStack_ReadAt (chain_stack [example_layer 0 2, example_layer 1 1, l]
          [file_ReadAt (replicate 1024 7), file_ReadAt (replicate 512 9), file_ReadAt f] False 8192) 4 510
       = lsmtBackend_ReadAt example_owned 4 510"
proof -
  let ?layers = "[example_layer 0 2, example_layer 1 1]" and ?files = "[replicate 1024 7, replicate 512 9] :: byte list list"
  let ?readers = "[file_ReadAt (replicate 1024 7), file_ReadAt (replicate 512 9)]"
  have chain: "\<forall>l \<in> set ?layers. index_wf (l_mappings l)" "layers_present ?readers ?files"
    by (simp_all add: example_layer_def index_wf_def mapping_fits_def layers_present_def os_file.content_reader_axioms)
  have stack: "cb_stack example_owned = chain_stack ?layers ?readers False (int 2048)" "cb_size example_owned = 8192"
    by (simp_all add: example_owned_def example_stack_def)
  have past: "\<forall>k < 2 ^ 61. 2048 \<le> k \<longrightarrow> newest_byte ?files ?layers k = 0"
  proof (intro allI impI)
    fix k :: nat assume k: "k < 2 ^ 61" "2048 \<le> k"
    have "unat (sector_of k) \<ge> 4" using unat_sector_of [OF k(1)] k(2) by (simp add: less_eq_div_iff_mult_less_eq)
    then have "\<not> sector_of k < 2" by (simp add: word_less_nat_alt)
    then show "newest_byte ?files ?layers k = 0"
      by (simp add: newest_byte_def sector_of_def [symmetric] lsmtAlignment_def chain_def enumerate_eq_zip example_layer_def
          index_at_def m_covers_def m_end_def backing_byte_def)
  qed
  have base: "stack_content ?files example_stack = chain_content ?files ?layers 2048"
    using chain_stack_ready(2) [OF chain, of "int 2048" False] by (simp add: example_stack_def)
  have wf: "cow_wf (chain_content ?files ?layers 2048) example_owned"
    using stack_reader [OF example_stack_ready] stack_eof [OF example_stack_ready]
    unfolding base cow_wf_def by (simp add: example_owned_def chain_content_def example_stack_def chain_stack_def)
  have own: "OwnedExtents (\<lambda>off. Inr None) (\<lambda>off. Inr None) example_owned = Some [\<lparr>e_offset = 8, e_length = 8\<rparr>]"
    by (simp add: OwnedExtents_def walk_extents.simps walk_step_def example_bitmap(2))
  have ext: "extents_wf [\<lparr>e_offset = 8, e_length = 8\<rparr>]" "sealable [\<lparr>e_offset = 8, e_length = 8\<rparr>] 20000"
    by (simp_all add: extents_wf_def sealable_def total_sectors_def seal_size_def index_entries_def)
  have cover: "\<forall>x < nat (cb_size example_owned). isOwned example_owned (int (x div 4096)) \<longrightarrow>
      (\<exists>e \<in> set [\<lparr>e_offset = 8, e_length = 8\<rparr>]. e_inside (x div 512) e)"
    by (auto simp: example_bitmap(1) block_iff e_inside_def less_eq_div_iff_mult_less_eq div_less_iff_less_mult)
  show ?thesis
    using snapshot_restores_disk [OF chain _ stack(1) past wf _ _ own ext cover, where dir = Map.empty and sid = "''s''" and path = "''snap''"]
    by (auto simp: stack(2))
qed

end
