(* ===== verification/ImageChain.thy ===== *)
theory ImageChain
  imports ZfileFormat SnapshotChain
begin

text \<open>
  Opening the layers of an image (\<^verbatim>\<open>src/internal/node/image/obdtar.go\<close> and \<^verbatim>\<open>openLSMTStackFrom\<close> in
  \<^verbatim>\<open>lsmtstack.go\<close>): a layer is a tar member, or a bare file; inside it a compressed container, or plain
  bytes; inside that the index and its extents. What the file system and the tar reader answer are
  arguments: \<open>fopen\<close> gives a file's reader and what its \<^verbatim>\<open>Stat\<close> says, \<open>tar\<close> the members that
  successive calls of \<^verbatim>\<open>Next\<close> return and whether they ended with the end of the archive.
\<close>

section \<open>The tar around a layer\<close>

definition section_ReadAt :: "reader \<Rightarrow> int \<Rightarrow> int \<Rightarrow> reader" where
  "section_ReadAt src base sz n off =
     (if off < 0 then ([], Some (Errorf ''negative offset'' []))
      else if off \<ge> sz then ([], Some EOF)
      else src (if int n > sz - off then nat (sz - off) else n) (base + off))"

record tar_member =
  tm_name :: string
  tm_size :: int
  tm_body :: int

type_synonym tar_walk = "tar_member list \<times> bool"

definition sealedPayloadEntry :: string where "sealedPayloadEntry = ''overlaybd.commit''"

definition errNotTarWrapped :: go_error where
  "errNotTarWrapped = Errorf ''sealed layer is not tar-wrapped'' []"

definition TrimPrefix :: "string \<Rightarrow> string \<Rightarrow> string" where
  "TrimPrefix s p = (if take (length p) s = p then drop (length p) s else s)"

fun find_member :: "tar_member list \<Rightarrow> bool \<Rightarrow> int \<Rightarrow> go_error + int \<times> int" where
  "find_member [] ended fileSize =
     Inl (if ended then Errorf ''sealed layer is a tar with no %q member'' [AStr sealedPayloadEntry]
          else errNotTarWrapped)"
| "find_member (h # hs) ended fileSize =
     (if TrimPrefix (tm_name h) ''./'' \<noteq> sealedPayloadEntry then find_member hs ended fileSize
      else if tm_size h = 0 then Inr (tm_body h, fileSize - tm_body h)
      else Inr (tm_body h, tm_size h))"

definition findSealedPayload :: "(reader \<Rightarrow> int \<Rightarrow> tar_walk) \<Rightarrow> reader \<Rightarrow> int \<Rightarrow> go_error + int \<times> int" where
  "findSealedPayload tar src fileSize = (case tar src fileSize of (hs, ended) \<Rightarrow> find_member hs ended fileSize)"

definition openSealedLayerPayload :: "(reader \<Rightarrow> int \<Rightarrow> tar_walk) \<Rightarrow> reader \<Rightarrow> int \<Rightarrow> go_error + reader \<times> int" where
  "openSealedLayerPayload tar src fileSize =
     (case findSealedPayload tar src fileSize of
        Inl err \<Rightarrow> if err = errNotTarWrapped then Inr (src, fileSize) else Inl err
      | Inr (base, sz) \<Rightarrow> Inr (section_ReadAt src base sz, sz))"

section \<open>Opening a chain\<close>

record layerSource =
  ls_Path :: string
  ls_Remote :: "reader option"
  ls_RemoteSize :: int
  ls_Label :: string

definition ls_label :: "layerSource \<Rightarrow> string" where
  "ls_label s = (if ls_Label s \<noteq> '''' then ls_Label s else ls_Path s)"

text \<open>The file or remote blob of one layer, with the files opened for it and whether it is remote.\<close>

definition open_base ::
  "(string \<Rightarrow> go_error + reader \<times> (go_error + int)) \<Rightarrow> layerSource \<Rightarrow> string list \<times> (go_error + reader \<times> int \<times> bool)" where
  "open_base fopen src =
     (if ls_Path src \<noteq> '''' then
        (case fopen (ls_Path src) of
           Inl e \<Rightarrow> ([], Inl (Wrapf ''open layer %s'' [AStr (ls_Path src)] e))
         | Inr (f, Inl e) \<Rightarrow> ([ls_Path src], Inl (Wrapf ''stat layer %s'' [AStr (ls_Path src)] e))
         | Inr (f, Inr sz) \<Rightarrow> ([ls_Path src], Inr (f, sz, False)))
      else case ls_Remote src of
          Some r \<Rightarrow>
            if ls_RemoteSize src \<le> 0
            then ([], Inl (Errorf ''remote layer %s has no size'' [AStr (ls_label src)]))
            else ([], Inr (r, ls_RemoteSize src, True))
        | None \<Rightarrow> ([], Inl (Errorf ''layer %s names neither a file nor a remote source'' [AStr (ls_label src)])))"

text \<open>
  The three containers, outermost first. \<open>scratch\<close> is what the buffers that the compressed reader
  borrows hold.
\<close>

definition open_containers ::
  "(reader \<Rightarrow> int \<Rightarrow> tar_walk) \<Rightarrow> (zfileReader \<Rightarrow> byte list) \<Rightarrow> layerSource \<Rightarrow> reader \<Rightarrow> int \<Rightarrow> go_error + reader \<times> lsmtLayer" where
  "open_containers tar scratch src base baseSize =
     (case openSealedLayerPayload tar base baseSize of
        Inl e \<Rightarrow> Inl (Wrapf ''open layer %s'' [AStr (ls_label src)] e)
      | Inr (payload, sz) \<Rightarrow>
          let (payload, sz) = (case openZFile payload sz of
                 Inr z \<Rightarrow> (zfile_ReadAt (scratch z) z, zfile_size z)
               | Inl _ \<Rightarrow> (payload, sz))
          in case openLSMTLayer payload sz of
               Inl e \<Rightarrow> Inl (Wrapf ''open layer %s'' [AStr (ls_label src)] e)
             | Inr layer \<Rightarrow> Inr (payload, layer))"

text \<open>The loop over the sources; the first component collects the files opened so far.\<close>

fun open_layers ::
  "(string \<Rightarrow> go_error + reader \<times> (go_error + int)) \<Rightarrow> (reader \<Rightarrow> int \<Rightarrow> tar_walk) \<Rightarrow> (zfileReader \<Rightarrow> byte list)
    \<Rightarrow> layerSource list \<Rightarrow> string list \<Rightarrow> lsmtLayer list \<Rightarrow> reader list \<Rightarrow> bool
    \<Rightarrow> string list \<times> (go_error + lsmtLayer list \<times> reader list \<times> bool)" where
  "open_layers fopen tar scratch [] files layers readers anyRemote = (files, Inr (layers, readers, anyRemote))"
| "open_layers fopen tar scratch (src # srcs) files layers readers anyRemote =
     (case open_base fopen src of
        (opened, Inl e) \<Rightarrow> (files @ opened, Inl e)
      | (opened, Inr (base, baseSize, remote)) \<Rightarrow>
          (case open_containers tar scratch src base baseSize of
             Inl e \<Rightarrow> (files @ opened, Inl e)
           | Inr (payload, layer) \<Rightarrow>
               open_layers fopen tar scratch srcs (files @ opened) (layers @ [layer]) (readers @ [payload])
                 (anyRemote \<or> remote)))"

definition largest_size :: "lsmtLayer list \<Rightarrow> int" where
  "largest_size layers =
     foldl (\<lambda>sz l. if sint (l_virtualSize l) > sz then sint (l_virtualSize l) else sz) 0 layers"

text \<open>The files closed again, and the error or the stack with the files its \<^verbatim>\<open>closeAll\<close> will close.\<close>

definition openLSMTStackFrom ::
  "(string \<Rightarrow> go_error + reader \<times> (go_error + int)) \<Rightarrow> (reader \<Rightarrow> int \<Rightarrow> tar_walk) \<Rightarrow> (zfileReader \<Rightarrow> byte list)
    \<Rightarrow> layerSource list \<Rightarrow> string list \<times> (go_error + lsmtStack \<times> string list)" where
  "openLSMTStackFrom fopen tar scratch srcs =
     (if srcs = [] then ([], Inl (Errorf ''an lsmt stack needs at least one layer'' []))
      else case open_layers fopen tar scratch srcs [] [] [] False of
          (files, Inl e) \<Rightarrow> (files, Inl e)
        | (files, Inr (layers, readers, anyRemote)) \<Rightarrow>
            let mappings = mergeLSMTLayers layers
            in if mappings = [] then (files, Inl (Errorf ''the layer chain maps no data at all'' []))
               else ([], Inr (\<lparr>st_mappings = mappings, st_layers = readers, st_virtualSize = largest_size layers,
                               st_remote = anyRemote\<rparr>, files)))"

definition openLSMTStack ::
  "(string \<Rightarrow> go_error + reader \<times> (go_error + int)) \<Rightarrow> (reader \<Rightarrow> int \<Rightarrow> tar_walk) \<Rightarrow> (zfileReader \<Rightarrow> byte list)
    \<Rightarrow> string list \<Rightarrow> string list \<times> (go_error + lsmtStack \<times> string list)" where
  "openLSMTStack fopen tar scratch paths =
     openLSMTStackFrom fopen tar scratch
       (map (\<lambda>p. \<lparr>ls_Path = p, ls_Remote = None, ls_RemoteSize = 0, ls_Label = ''''\<rparr>) paths)"

definition newLSMTBackend ::
  "(string \<Rightarrow> go_error + reader \<times> (go_error + int)) \<Rightarrow> (reader \<Rightarrow> int \<Rightarrow> tar_walk) \<Rightarrow> (zfileReader \<Rightarrow> byte list)
    \<Rightarrow> (string \<rightharpoonup> byte list) \<Rightarrow> string list \<Rightarrow> string \<Rightarrow> int \<Rightarrow> (int \<Rightarrow> bool)
    \<Rightarrow> string list \<times> (go_error + lsmtBackend \<times> string list)" where
  "newLSMTBackend fopen tar scratch dir layerPaths overlayPath sz writable =
     (case openLSMTStack fopen tar scratch layerPaths of
        (shut, Inl e) \<Rightarrow> (shut, Inl e)
      | (shut, Inr (stack, held)) \<Rightarrow>
          (case newLSMTBackendOverStack stack dir overlayPath sz writable of
             Inl e \<Rightarrow> (shut @ held, Inl e)
           | Inr b \<Rightarrow> (shut, Inr (b, held))))"

section \<open>Readers of the same content\<close>

lemma read_full_same:
  assumes "content_reader src c" "0 \<le> off"
  shows "read_full src buf off = read_full (file_ReadAt c) buf off"
  using content_reader.read_full_content [OF assms(1,2)] os_file.read_full_content [OF assms(2)] by simp

lemma read_full_file_neg: "off < 0 \<Longrightarrow> read_full (file_ReadAt c) buf off = Inl (Errorf ''negative offset'' [])"
  by (simp add: read_full_def file_ReadAt_def)

lemma load_index_same:
  assumes "content_reader src c" "loadLSMTIndex (file_ReadAt c) h = Inr ms"
  shows "loadLSMTIndex src h = Inr ms"
proof -
  have "0 \<le> sint (h_indexOffset h)"
    using assms(2) by (rule_tac ccontr) (simp add: loadLSMTIndex_def read_full_file_neg split: if_splits)
  from read_full_same [OF assms(1) this] have "loadLSMTIndex src h = loadLSMTIndex (file_ReadAt c) h"
    unfolding loadLSMTIndex_def by simp
  then show ?thesis using assms(2) by simp
qed

lemma open_layer_same:
  assumes "content_reader src c" "openLSMTLayer (file_ReadAt c) (int (length c)) = Inr l"
  shows "openLSMTLayer src (int (length c)) = Inr (l\<lparr>l_src := src\<rparr>)"
proof -
  have long: "\<not> int (length c) < int lsmtHeaderSpace * 2" using assms(2) by (auto simp: openLSMTLayer_def split: if_splits)
  then have "0 \<le> int (length c) - int lsmtHeaderSpace" by simp
  note rd = read_full_same [OF assms(1) this] read_full_same [OF assms(1) order_refl]
  show ?thesis using assms(2) long unfolding openLSMTLayer_def rd
    by (auto split: sum.splits if_splits dest: load_index_same [OF assms(1)])
qed

text \<open>A layer is never mistaken for a compressed container: its magic number is another.\<close>

lemma layer_not_zfile:
  assumes "content_reader src c" "openLSMTLayer (file_ReadAt c) (int (length c)) = Inr l"
  shows "\<exists>e. openZFile src (int (length c)) = Inl e"
proof -
  have long: "2 * lsmtHeaderSpace \<le> length c" using assms(2) by (auto simp: openLSMTLayer_def split: if_splits)
  have "read_full src (zeros zfileHeaderSpace) (int 0) = Inr (slice c 0 (0 + length (zeros zfileHeaderSpace)))"
    using long by (intro read_full_at [OF assms(1)]) (simp add: lsmt_sizes zfileHeaderSpace_def)
  then have z: "read_full src (zeros zfileHeaderSpace) 0 = Inr (slice c 0 512)" by (simp add: zfileHeaderSpace_def)
  have "read_full (file_ReadAt c) (zeros lsmtHeaderSpace) (int 0) = Inr (slice c 0 (0 + length (zeros lsmtHeaderSpace)))"
    using long by (intro read_full_at [OF os_file.content_reader_axioms]) (simp add: lsmt_sizes)
  then have "read_full (file_ReadAt c) (zeros lsmtHeaderSpace) 0 = Inr (slice c 0 4096)" by (simp add: lsmt_sizes)
  then obtain h where "parseLSMTHeader (slice c 0 4096) = Inr h"
    using assms(2) by (auto simp: openLSMTLayer_def split: sum.splits if_splits)
  then have "Uint64 (slice (slice c 0 4096) 0 8) = lsmtMagic0"
    by (simp add: parseLSMTHeader_def split: if_splits)
  then have "Uint64 (slice (slice c 0 512) 0 8) = lsmtMagic0" by (simp add: slice_def)
  moreover have "lsmtMagic0 \<noteq> zfileMagic0" by (simp add: lsmtMagic0_def zfileMagic0_def)
  ultimately have "Uint64 (slice (slice c 0 512) 0 8) \<noteq> zfileMagic0" by simp
  then have "\<exists>e. select_header src (int (length c)) = Inl e"
    by (simp add: select_header_def z parseZFileHeader_def)
  then show ?thesis by (auto simp: openZFile_def)
qed

lemma section_reader:
  assumes "content_reader src c" "p + m \<le> length c"
  shows "content_reader (section_ReadAt src (int p) (int m)) (take m (drop p c))"
proof
  fix off :: int and n e assume off: "0 \<le> off"
  show "fst (section_ReadAt src (int p) (int m) n off) = take n (drop (nat off) (take m (drop p c)))"
  proof (cases "off < int m")
    case True
    define len where "len = (if int n > int m - off then nat (int m - off) else n)"
    have "fst (src len (int p + off)) = take len (drop (nat (int p + off)) c)"
      using off by (intro content_reader.read_content [OF assms(1)]) simp
    moreover have "nat (int p + off) = nat off + p" using off by simp
    moreover have "len = min n (m - nat off)" using off True by (auto simp: len_def)
    ultimately show ?thesis using off True
      by (simp add: section_ReadAt_def len_def [symmetric] drop_take drop_drop)
  qed (use off in \<open>simp add: section_ReadAt_def\<close>)
  show "isEOF e" if "snd (section_ReadAt src (int p) (int m) n off) = Some e"
    using that content_reader.read_error [OF assms(1), of "int p + off"] off
    by (auto simp: section_ReadAt_def split: if_splits)
qed

section \<open>Whatever it is wrapped in\<close>

text \<open>
  A layer file as bean seals it: the layer's bytes plain or compressed, bare or as a tar member that
  the tar reader locates.
\<close>

datatype wrapping = Plain | Compressed nat "byte list list"

fun inner :: "wrapping \<Rightarrow> byte list \<Rightarrow> byte list" where
  "inner Plain content = content"
| "inner (Compressed bs cs) content = zimage bs cs (length content)"

fun inner_ok :: "wrapping \<Rightarrow> byte list \<Rightarrow> bool" where
  "inner_ok Plain content = True"
| "inner_ok (Compressed bs cs) content = packs bs cs content"

definition wraps :: "(reader \<Rightarrow> int \<Rightarrow> tar_walk) \<Rightarrow> reader \<Rightarrow> byte list \<Rightarrow> wrapping \<Rightarrow> byte list \<Rightarrow> bool" where
  "wraps tar base raw w content \<longleftrightarrow> content_reader base raw \<and> inner_ok w content
     \<and> (case findSealedPayload tar base (int (length raw)) of
          Inl e \<Rightarrow> e = errNotTarWrapped \<and> raw = inner w content
        | Inr (p, m) \<Rightarrow> 0 \<le> p \<and> 0 \<le> m \<and> p + m \<le> int (length raw) \<and> take (nat m) (drop (nat p) raw) = inner w content)"

definition scratch_fits :: "(zfileReader \<Rightarrow> byte list) \<Rightarrow> bool" where
  "scratch_fits scratch \<longleftrightarrow> (\<forall>z. length (scratch z) = 2 * unat (z_blockSize (zr_header z)) + 64)"

lemma payload_reader:
  assumes "wraps tar base raw w content"
  shows "\<exists>rd. openSealedLayerPayload tar base (int (length raw)) = Inr (rd, int (length (inner w content)))
    \<and> content_reader rd (inner w content)"
proof (cases "findSealedPayload tar base (int (length raw))")
  case (Inl e)
  then show ?thesis using assms by (auto simp: wraps_def openSealedLayerPayload_def)
next
  case (Inr pm)
  then obtain p m where pm: "findSealedPayload tar base (int (length raw)) = Inr (p, m)" by (cases pm) auto
  then have b: "0 \<le> p" "0 \<le> m" "p + m \<le> int (length raw)" "take (nat m) (drop (nat p) raw) = inner w content"
    "content_reader base raw" using assms by (simp_all add: wraps_def)
  have le: "nat p + nat m \<le> length raw" using b(1-3) by linarith
  then have "int (length (take (nat m) (drop (nat p) raw))) = m" using b(2) by simp
  then have "int (length (inner w content)) = m" using b(4) by simp
  moreover have "content_reader (section_ReadAt base p m) (inner w content)"
    using section_reader [OF b(5) le] b(1,2,4) by simp
  ultimately show ?thesis using pm by (simp add: openSealedLayerPayload_def)
qed

lemma open_wrapped:
  assumes "wraps tar base raw w content" "scratch_fits scratch"
    and layer: "openLSMTLayer (file_ReadAt content) (int (length content)) = Inr l"
  shows "\<exists>rd. open_containers tar scratch src base (int (length raw)) = Inr (rd, l\<lparr>l_src := rd\<rparr>) \<and> content_reader rd content"
proof -
  obtain rd where rd: "openSealedLayerPayload tar base (int (length raw)) = Inr (rd, int (length (inner w content)))"
    "content_reader rd (inner w content)" using payload_reader [OF assms(1)] by blast
  show ?thesis
  proof (cases w)
    case Plain
    then have c: "content_reader rd content" using rd(2) by simp
    obtain e where "openZFile rd (int (length content)) = Inl e" using layer_not_zfile [OF c layer] by blast
    then show ?thesis using rd(1) c open_layer_same [OF c layer] Plain by (simp add: open_containers_def)
  next
    case (Compressed bs cs)
    then have p: "packs bs cs content" "content_reader rd (zimage bs cs (length content))"
      using rd(2) assms(1) by (simp_all add: wraps_def)
    let ?z = "zopened rd bs cs (length content)"
    have z: "unat (z_blockSize (zr_header ?z)) = bs" "zfile_size ?z = int (length content)"
      using zheader_fields_packed [OF p(1)] by (simp_all add: zopened_def zfile_size_def)
    have "length (scratch ?z) = 2 * bs + 64" using assms(2) z(1) by (simp add: scratch_fits_def)
    from zopened_reader [OF p this] have c: "content_reader (zfile_ReadAt (scratch ?z) ?z) content" .
    show ?thesis using rd(1) c open_layer_same [OF c layer] Compressed zimage_opens [OF p] z(2)
      by (simp add: open_containers_def)
  qed
qed

text \<open>A source whose file or blob holds the layer \<open>l\<close> with the given bytes, in some wrapping.\<close>

definition source_holds ::
  "(string \<Rightarrow> go_error + reader \<times> (go_error + int)) \<Rightarrow> (reader \<Rightarrow> int \<Rightarrow> tar_walk) \<Rightarrow> layerSource \<Rightarrow> byte list \<times> lsmtLayer \<Rightarrow> bool" where
  "source_holds fopen tar src cl \<longleftrightarrow>
     (\<exists>base raw w remote. open_base fopen src = (if ls_Path src \<noteq> '''' then [ls_Path src] else [], Inr (base, int (length raw), remote))
        \<and> wraps tar base raw w (fst cl)) \<and> openLSMTLayer (file_ReadAt (fst cl)) (int (length (fst cl))) = Inr (snd cl)"

lemma open_layers:
  assumes "scratch_fits scratch" "list_all2 (source_holds fopen tar) srcs cls"
  shows "\<exists>rds rem. open_layers fopen tar scratch srcs files layers readers anyRemote
      = (files @ filter (\<lambda>p. p \<noteq> '''') (map ls_Path srcs),
         Inr (layers @ map2 (\<lambda>cl rd. (snd cl)\<lparr>l_src := rd\<rparr>) cls rds, readers @ rds, rem))
    \<and> list_all2 content_reader rds (map fst cls)"
  using assms(2)
proof (induction arbitrary: files layers readers anyRemote rule: list_all2_induct)
  case Nil
  then show ?case by simp
next
  case (Cons src srcs cl cls)
  obtain base raw w remote where b: "open_base fopen src
      = (if ls_Path src \<noteq> '''' then [ls_Path src] else [], Inr (base, int (length raw), remote))"
    "wraps tar base raw w (fst cl)" "openLSMTLayer (file_ReadAt (fst cl)) (int (length (fst cl))) = Inr (snd cl)"
    using Cons.hyps(1) unfolding source_holds_def by blast
  obtain rd where rd: "open_containers tar scratch src base (int (length raw)) = Inr (rd, (snd cl)\<lparr>l_src := rd\<rparr>)"
    "content_reader rd (fst cl)" using open_wrapped [OF b(2) assms(1) b(3)] by blast
  let ?f = "files @ (if ls_Path src \<noteq> '''' then [ls_Path src] else [])"
  obtain rds rem where r: "open_layers fopen tar scratch srcs ?f (layers @ [(snd cl)\<lparr>l_src := rd\<rparr>]) (readers @ [rd])
        (anyRemote \<or> remote)
      = (?f @ filter (\<lambda>p. p \<noteq> '''') (map ls_Path srcs),
         Inr ((layers @ [(snd cl)\<lparr>l_src := rd\<rparr>]) @ map2 (\<lambda>cl rd. (snd cl)\<lparr>l_src := rd\<rparr>) cls rds, (readers @ [rd]) @ rds, rem))"
    "list_all2 content_reader rds (map fst cls)" using Cons.IH by blast
  show ?case using b(1) rd r
    by (intro exI [of _ "rd # rds"] exI [of _ rem]) (auto split: if_splits)
qed

lemma newest_at_any: "(i, ms) \<in> set ch \<Longrightarrow> index_at ms x \<noteq> None \<Longrightarrow> newest_at ch x \<noteq> None"
  by (induction ch x rule: newest_at.induct) (auto split: option.splits)

text \<open>A chain of well-formed layers, one of which maps something, has a merged index.\<close>

lemma merge_nonempty:
  assumes "\<forall>l \<in> set layers. index_wf (l_mappings l)" "l \<in> set layers" "l_mappings l \<noteq> []"
  shows "mergeLSMTLayers layers \<noteq> []"
proof -
  obtain m where m: "m \<in> set (l_mappings l)" using assms(3) by (meson hd_in_set)
  then have "mapping_fits m" "0 < m_length m" using assms(1,2) by (auto simp: index_wf_def)
  then have "unat (m_offset m) < unat (m_end m)" by (simp add: unat_m_end unat_gt_0 word_less_nat_alt)
  then have "m_covers (m_offset m) m" by (simp add: m_covers_def word_less_nat_alt)
  then have "index_at (l_mappings l) (m_offset m) \<noteq> None" using m by (auto simp: index_at_def find_None_iff)
  moreover obtain i where "i < length layers" "layers ! i = l" using assms(2) by (auto simp: in_set_conv_nth)
  then have "(i, l_mappings l) \<in> set (chain layers)" by (simp add: chain_def in_set_enumerate_eq)
  ultimately have "stack_at (mergeLSMTLayers layers) (m_offset m) \<noteq> None"
    using newest_at_any merge_newest [OF assms(1)] by metis
  then show ?thesis by (auto simp: stack_at_def)
qed

lemma sort_slice_empty: "sort_slice lt xs = [] \<longleftrightarrow> xs = []"
  using length_sort_slice [of lt xs] by (cases xs; cases "sort_slice lt xs") simp_all

lemma open_layer_mappings: "openLSMTLayer src n = Inr l \<Longrightarrow> l_mappings l \<noteq> []"
proof -
  assume "openLSMTLayer src n = Inr l"
  then obtain h where "loadLSMTIndex src h = Inr (l_mappings l)"
    by (auto simp: openLSMTLayer_def split: sum.splits if_splits)
  then show ?thesis by (auto simp: loadLSMTIndex_def Let_def sort_slice_empty split: sum.splits if_splits)
qed

lemma relabel:
  assumes "length rds = length cls"
  defines "ls \<equiv> map2 (\<lambda>cl rd. (snd cl)\<lparr>l_src := rd\<rparr>) cls rds"
  shows "map l_mappings ls = map (l_mappings \<circ> snd) cls" "map l_virtualSize ls = map (l_virtualSize \<circ> snd) cls"
  using assms(1) unfolding ls_def by (induction rule: list_induct2) simp_all

lemma largest_size_map: "largest_size layers = foldl (\<lambda>sz v. if sint v > sz then sint v else sz) 0 (map l_virtualSize layers)"
  by (simp add: largest_size_def foldl_map)

text \<open>
  C6. An image opens to the disk its layers stand for, whatever they come in. Each source of the chain
  is a local file or a remote blob, each layer bare or inside a tar, plain or compressed; opening the
  chain succeeds, holds open exactly the local files, gives the disk the largest size among the layers,
  and a read at any offset and of any length returns the bytes of the newest layer that maps them.
\<close>

theorem image_opens:
  assumes "cls \<noteq> []" "scratch_fits scratch" "list_all2 (source_holds fopen tar) srcs cls"
    and "\<forall>cl \<in> set cls. index_wf (l_mappings (snd cl))" "largest_size (map snd cls) < 2 ^ 60"
  shows "\<exists>stack. openLSMTStackFrom fopen tar scratch srcs = ([], Inr (stack, filter (\<lambda>p. p \<noteq> '''') (map ls_Path srcs)))
    \<and> st_virtualSize stack = largest_size (map snd cls)
    \<and> (\<forall>n off. 0 \<le> off \<and> off < st_virtualSize stack \<longrightarrow> lsmtStack_ReadAt stack n off
         = (take n (drop (nat off) (chain_content (map fst cls) (map snd cls) (nat (st_virtualSize stack)))), None))"
proof -
  obtain rds rem where r: "open_layers fopen tar scratch srcs [] [] [] False
      = (filter (\<lambda>p. p \<noteq> '''') (map ls_Path srcs), Inr (map2 (\<lambda>cl rd. (snd cl)\<lparr>l_src := rd\<rparr>) cls rds, rds, rem))"
    "list_all2 content_reader rds (map fst cls)" using open_layers [OF assms(2,3), of "[]" "[]" "[]" False] by auto
  define ls where "ls = map2 (\<lambda>cl rd. (snd cl)\<lparr>l_src := rd\<rparr>) cls rds"
  have len: "length rds = length cls" using r(2) by (simp add: list_all2_lengthD)
  note maps = relabel [OF len, folded ls_def]
  have img: "l_mappings ` set ls = (\<lambda>cl. l_mappings (snd cl)) ` set cls"
    using arg_cong [OF maps(1), of set] by (simp add: comp_def)
  have "\<forall>ms \<in> l_mappings ` set ls. index_wf ms" unfolding img using assms(4) by simp
  then have wf: "\<forall>l \<in> set ls. index_wf (l_mappings l)" by simp
  have size: "largest_size ls = largest_size (map snd cls)" by (simp add: largest_size_map maps(2))
  have content: "chain_content (map fst cls) ls v = chain_content (map fst cls) (map snd cls) v" for v
    by (simp add: chain_content_def newest_byte_def chain_def maps(1))
  obtain src cl where "source_holds fopen tar src cl" "cl \<in> set cls"
    using assms(1,3) by (cases cls) (auto simp: list_all2_Cons2)
  then have cl: "l_mappings (snd cl) \<noteq> []" "l_mappings (snd cl) \<in> l_mappings ` set ls"
    unfolding source_holds_def img by (blast dest: open_layer_mappings)+
  then obtain l where l: "l \<in> set ls" "l_mappings l = l_mappings (snd cl)" by (auto elim: imageE)
  with cl(1)
  have nonempty: "mergeLSMTLayers ls \<noteq> []" using merge_nonempty [OF wf l(1)] by simp
  have srcs: "srcs \<noteq> []" using assms(1,3) by auto
  let ?stack = "chain_stack ls rds rem (largest_size ls)"
  have opens: "openLSMTStackFrom fopen tar scratch srcs = ([], Inr (?stack, filter (\<lambda>p. p \<noteq> '''') (map ls_Path srcs)))"
    using srcs nonempty by (simp add: openLSMTStackFrom_def r(1) ls_def [symmetric] chain_stack_def)
  have pres: "layers_present rds (map fst cls)" and lens: "length rds = length ls"
    using r(2) len by (simp_all add: layers_present_def ls_def)
  have small: "largest_size ls < 2 ^ 60" using assms(5) by (simp only: size)
  note ready = chain_stack_ready [OF wf pres lens small, of rem]
  have "st_virtualSize ?stack = largest_size (map snd cls)" by (simp add: chain_stack_def size)
  then show ?thesis using opens stack_read [OF ready(1)] ready(2) content by (intro exI [of _ ?stack]) (simp add: size)
qed

lemma example_sealed:
  "\<exists>f l. openLSMTLayer (file_ReadAt f) (int (length f)) = Inr l \<and> index_wf (l_mappings l) \<and> l_virtualSize l = 2048"
proof -
  let ?es = "[\<lparr>e_offset = 0, e_length = 2\<rparr>, \<lparr>e_offset = 3, e_length = 1\<rparr>] :: sealedExtent list"
  have s: "?es = sort_slice (\<lambda>a b. e_offset a < e_offset b) example_extents" by (simp add: example_extents_def)
  have c: "total_sectors ?es = 3" "index_entries ?es = 2" "seal_size ?es = 9760" "extents_wf ?es"
    by (simp_all add: total_sectors_def index_entries_def seal_size_def extents_wf_def)
  show ?thesis
    using seal_opens [OF os_file.content_reader_axioms [of "replicate 2048 7"] _ s c(4), of 2048 20000] c
      os_file.content_reader_axioms by fastforce
qed

theorem image_opens_witness:
  "\<exists>f stack. openLSMTStackFrom (\<lambda>p. Inr (file_ReadAt f, Inr (int (length f))))
       (\<lambda>rd n. if n = int (length f) then ([], False)
                else ([\<lparr>tm_name = ''./overlaybd.commit'', tm_size = 0, tm_body = 1536\<rparr>], True))
       (\<lambda>z. zeros (2 * unat (z_blockSize (zr_header z)) + 64))
       [\<lparr>ls_Path = ''base'', ls_Remote = None, ls_RemoteSize = 0, ls_Label = ''''\<rparr>,
        \<lparr>ls_Path = '''', ls_Remote = Some (file_ReadAt (zeros 1536 @ f)), ls_RemoteSize = int (1536 + length f), ls_Label = ''leaf''\<rparr>]
     = ([], Inr (stack, [''base''])) \<and> st_virtualSize stack = 2048"
proof -
  obtain f l where f: "openLSMTLayer (file_ReadAt f) (int (length f)) = Inr l" "index_wf (l_mappings l)" "l_virtualSize l = 2048"
    using example_sealed by blast
  let ?tar = "\<lambda>rd n. if n = int (length f) then ([], False)
                else ([\<lparr>tm_name = ''./overlaybd.commit'', tm_size = 0, tm_body = 1536\<rparr>], True)"
  let ?fopen = "\<lambda>p. Inr (file_ReadAt f, Inr (int (length f)))"
  let ?scratch = "\<lambda>z. zeros (2 * unat (z_blockSize (zr_header z)) + 64)"
  let ?local = "\<lparr>ls_Path = ''base'', ls_Remote = None, ls_RemoteSize = 0, ls_Label = ''''\<rparr>"
  let ?leaf = "\<lparr>ls_Path = '''', ls_Remote = Some (file_ReadAt (zeros 1536 @ f)), ls_RemoteSize = int (1536 + length f), ls_Label = ''leaf''\<rparr>"
  have "wraps ?tar (file_ReadAt f) f Plain f"
    by (simp add: wraps_def findSealedPayload_def os_file.content_reader_axioms)
  then have a: "source_holds ?fopen ?tar ?local (f, l)"
    using f(1) unfolding source_holds_def by (force simp: open_base_def)
  have "wraps ?tar (file_ReadAt (zeros 1536 @ f)) (zeros 1536 @ f) Plain f"
    by (simp add: wraps_def findSealedPayload_def os_file.content_reader_axioms TrimPrefix_def sealedPayloadEntry_def)
  then have b: "source_holds ?fopen ?tar ?leaf (f, l)"
    using f(1) unfolding source_holds_def by (force simp: open_base_def)
  have "largest_size (map snd [(f, l), (f, l)]) = 2048" by (simp add: largest_size_def f(3))
  moreover have "scratch_fits ?scratch" by (simp add: scratch_fits_def)
  moreover have "list_all2 (source_holds ?fopen ?tar) [?local, ?leaf] [(f, l), (f, l)]" using a b by simp
  ultimately show ?thesis
    using image_opens [of "[(f, l), (f, l)]" ?scratch ?fopen ?tar "[?local, ?leaf]"] f(2)
    by (intro exI [of _ f]) (auto simp del: zeros_def)
qed

text \<open>The files opened before the loop stops are those of a prefix of the sources.\<close>

definition local_files :: "(string \<Rightarrow> go_error + reader \<times> (go_error + int)) \<Rightarrow> layerSource list \<Rightarrow> string list" where
  "local_files fopen srcs = map ls_Path (filter (\<lambda>s. ls_Path s \<noteq> '''' \<and> \<not> isl (fopen (ls_Path s))) srcs)"

lemma open_base_files: "fst (open_base fopen src) = local_files fopen [src]"
  by (auto simp: open_base_def local_files_def split: sum.splits option.splits)

lemma open_layers_files:
  "\<exists>k \<le> length srcs. fst (open_layers fopen tar scratch srcs files layers readers anyRemote)
      = files @ local_files fopen (take k srcs)
    \<and> (\<not> isl (snd (open_layers fopen tar scratch srcs files layers readers anyRemote)) \<longrightarrow> k = length srcs)"
proof (induction srcs arbitrary: files layers readers anyRemote)
  case Nil
  then show ?case by (simp add: local_files_def)
next
  case (Cons src srcs)
  obtain opened r where o: "open_base fopen src = (opened, r)" by (meson surj_pair)
  then have op: "opened = local_files fopen [src]" using open_base_files [of fopen src] by simp
  have stop: ?case if "open_layers fopen tar scratch (src # srcs) files layers readers anyRemote = (files @ opened, Inl e)" for e
    using that op by (intro exI [of _ "Suc 0"]) (simp add: local_files_def)
  have go: "local_files fopen (take (Suc k) (src # srcs)) = local_files fopen [src] @ local_files fopen (take k srcs)" for k
    by (simp add: local_files_def)
  show ?case
  proof (cases r)
    case (Inl e)
    then show ?thesis using stop o by simp
  next
    case (Inr b)
    then obtain base bsize rem where b: "r = Inr (base, bsize, rem)" by (cases b) auto
    show ?thesis
    proof (cases "open_containers tar scratch src base bsize")
      case (Inl e)
      then show ?thesis using stop o b by simp
    next
      case (Inr pl)
      then obtain rd l where "open_containers tar scratch src base bsize = Inr (rd, l)" by (cases pl) auto
      then have step: "open_layers fopen tar scratch (src # srcs) files layers readers anyRemote
          = open_layers fopen tar scratch srcs (files @ opened) (layers @ [l]) (readers @ [rd]) (anyRemote \<or> rem)"
        using o b by simp
      obtain k where k: "k \<le> length srcs"
        "fst (open_layers fopen tar scratch srcs (files @ opened) (layers @ [l]) (readers @ [rd]) (anyRemote \<or> rem))
           = (files @ opened) @ local_files fopen (take k srcs)"
        "\<not> isl (snd (open_layers fopen tar scratch srcs (files @ opened) (layers @ [l]) (readers @ [rd]) (anyRemote \<or> rem)))
           \<longrightarrow> k = length srcs"
        using Cons.IH by blast
      show ?thesis unfolding step using k op by (intro exI [of _ "Suc k"]) (simp only: go, simp)
    qed
  qed
qed

lemma open_stack_files:
  "case openLSMTStackFrom fopen tar scratch srcs of
     (shut, Inr (stack, held)) \<Rightarrow> shut = [] \<and> held = local_files fopen srcs
   | (shut, Inl e) \<Rightarrow> \<exists>k \<le> length srcs. shut = local_files fopen (take k srcs)"
proof -
  obtain k where k: "k \<le> length srcs" "fst (open_layers fopen tar scratch srcs [] [] [] False) = local_files fopen (take k srcs)"
    "\<not> isl (snd (open_layers fopen tar scratch srcs [] [] [] False)) \<longrightarrow> k = length srcs"
    using open_layers_files [of srcs fopen tar scratch "[]" "[]" "[]" False] by auto
  show ?thesis
  proof (cases "srcs = []")
    case True
    then show ?thesis by (simp add: openLSMTStackFrom_def local_files_def)
  next
    case False
    obtain files r where r: "open_layers fopen tar scratch srcs [] [] [] False = (files, r)" by (meson surj_pair)
    show ?thesis
    proof (cases r)
      case (Inl e)
      then show ?thesis using False r k by (auto simp: openLSMTStackFrom_def)
    next
      case (Inr x)
      then show ?thesis using False r k by (cases x) (auto simp: openLSMTStackFrom_def Let_def)
    qed
  qed
qed


end
