(* ===== verification/Format.thy ===== *)
theory Format
  imports Prelude
begin

text \<open>
  Numbers in text, as \<^verbatim>\<open>fmt.Sprintf("%d")\<close> prints and \<^verbatim>\<open>strconv.Atoi\<close> reads them: decimal digits
  without leading zeros. Printing is injective, so names built from numbers do not collide. Also the parts of
  \<^verbatim>\<open>strings\<close> that cut text apart at white space and at a separator.
\<close>

definition digit :: "nat \<Rightarrow> char" where
  "digit d = char_of (48 + d)"

definition digit_val :: "char \<Rightarrow> nat" where
  "digit_val c = of_char c - 48"

definition is_digit :: "char \<Rightarrow> bool" where
  "is_digit c \<longleftrightarrow> 48 \<le> (of_char c :: nat) \<and> (of_char c :: nat) \<le> 57"

fun dec :: "nat \<Rightarrow> string" where
  "dec n = (if n < 10 then [digit n] else dec (n div 10) @ [digit (n mod 10)])"

declare dec.simps [simp del]

definition dec_val :: "string \<Rightarrow> nat" where
  "dec_val s = foldl (\<lambda>a c. 10 * a + digit_val c) 0 s"

lemma digit_val_digit [simp]: "d < 10 \<Longrightarrow> digit_val (digit d) = d"
  by (simp add: digit_val_def digit_def of_char_of)

lemma is_digit_digit [simp]: "d < 10 \<Longrightarrow> is_digit (digit d)"
  by (simp add: is_digit_def digit_def of_char_of)

lemma dec_val_dec [simp]: "dec_val (dec n) = n"
proof (induction n rule: dec.induct)
  case (1 n)
  then show ?case by (subst dec.simps) (simp add: dec_val_def)
qed

lemma dec_inj: "dec m = dec n \<longleftrightarrow> m = n"
  by (metis dec_val_dec)

lemma dec_digits: "c \<in> set (dec n) \<Longrightarrow> is_digit c"
proof (induction n rule: dec.induct)
  case (1 n)
  then show ?case by (subst (asm) (2) dec.simps) (auto split: if_splits)
qed

lemma dec_nonempty [simp]: "dec n \<noteq> []"
  by (subst dec.simps) simp

text \<open>A printed number after a separator that is not a digit can be taken apart again.\<close>

lemma sep_digits_inj:
  assumes "xs @ c # ds = ys @ c # es" "\<not> is_digit c" "\<forall>d \<in> set ds. is_digit d" "\<forall>d \<in> set es. is_digit d"
  shows "xs = ys \<and> ds = es"
proof -
  have split: "takeWhile is_digit (rev (zs @ c # us)) = rev us \<and> dropWhile is_digit (rev (zs @ c # us)) = c # rev zs"
    if "\<forall>d \<in> set us. is_digit d" for zs us
  proof -
    have "takeWhile is_digit (rev us @ c # rev zs) = rev us @ takeWhile is_digit (c # rev zs)"
      "dropWhile is_digit (rev us @ c # rev zs) = dropWhile is_digit (c # rev zs)"
      by (rule takeWhile_append2 dropWhile_append2, use that in simp)+
    then show ?thesis using assms(2) by simp
  qed
  have "rev ds = rev es" "c # rev xs = c # rev ys" using split [OF assms(3), of xs] split [OF assms(4), of ys] assms(1) by metis+
  then show ?thesis by simp
qed

lemma sep_dec_inj: "xs @ c # dec m = ys @ c # dec n \<Longrightarrow> \<not> is_digit c \<Longrightarrow> xs = ys \<and> m = n"
  using sep_digits_inj [of xs c "dec m" ys "dec n"] dec_digits by (auto simp: dec_inj)

section \<open>Reading text\<close>

text \<open>\<^verbatim>\<open>strconv.Atoi\<close>: an optional sign and decimal digits whose value fits an \<^verbatim>\<open>int\<close>.\<close>

definition Atoi :: "string \<Rightarrow> int option" where
  "Atoi s =
     (let neg = (s \<noteq> [] \<and> hd s = CHR ''-''); signed = (s \<noteq> [] \<and> (hd s = CHR ''-'' \<or> hd s = CHR ''+''));
          ds = (if signed then tl s else s);
          v = (if neg then - int (dec_val ds) else int (dec_val ds))
      in if ds = [] \<or> \<not> list_all is_digit ds \<or> v < - (2 ^ 63) \<or> v \<ge> 2 ^ 63 then None else Some v)"

text \<open>White space, \<^verbatim>\<open>strings.TrimSpace\<close>.\<close>

definition is_space :: "char \<Rightarrow> bool" where
  "is_space c \<longleftrightarrow> c \<in> {CHR '' '', CHR 0x09, CHR 0x0A, CHR 0x0B, CHR 0x0C, CHR 0x0D}"

definition TrimSpace :: "string \<Rightarrow> string" where
  "TrimSpace s = rev (dropWhile is_space (rev (dropWhile is_space s)))"

text \<open>\<^verbatim>\<open>strings.Split(s, "\n")\<close> and \<^verbatim>\<open>strings.Fields\<close>.\<close>

fun split_on :: "char \<Rightarrow> string \<Rightarrow> string list" where
  "split_on c [] = ['''']"
| "split_on c (x # s) =
     (if x = c then '''' # split_on c s
      else case split_on c s of [] \<Rightarrow> [[x]] | t # ts \<Rightarrow> (x # t) # ts)"

fun add_fields :: "string \<Rightarrow> string \<Rightarrow> string list" where
  "add_fields cur [] = (if cur = '''' then [] else [cur])"
| "add_fields cur (c # s) =
     (if is_space c then (if cur = '''' then add_fields '''' s else cur # add_fields '''' s) else add_fields (cur @ [c]) s)"

definition Fields :: "string \<Rightarrow> string list" where
  "Fields s = add_fields '''' s"

end
