(* ===== verification/BlobReader.thy ===== *)
theory BlobReader
  imports Bytes Format
begin

text \<open>
  Reading a layer over the network (\<^verbatim>\<open>src/internal/node/image/blobreader.go\<close>): a remote blob as an
  \<^verbatim>\<open>io.ReaderAt\<close> that fetches fixed-size chunks through a cache shared by every reader of the node.
  What the registry or object store answers is an argument (\<open>rf_FetchRange\<close>, \<open>rf_Size\<close>); its
  contract, as the interface documents it, is \<open>honest\<close>. Cache and reader are passed as state; a
  reader's \<^verbatim>\<open>sizeOnce\<close> is the optional result it has stored.
\<close>

section \<open>The chunk cache\<close>

record rangeFetcher =
  rf_CacheKey :: "string option"
  rf_FetchRange :: "nat \<Rightarrow> int \<Rightarrow> go_error + byte list"
  rf_Size :: "go_error + int"

record chunkCache =
  cc_maxSize :: int
  cc_size :: int
  cc_entries :: "(string, byte list) gomap"
  cc_order :: "string list"

definition newChunkCache :: "int \<Rightarrow> chunkCache" where
  "newChunkCache maxBytes =
     \<lparr>cc_maxSize = (if maxBytes \<le> 0 then 256 * 2 ^ 20 else maxBytes), cc_size = 0, cc_entries = [], cc_order = []\<rparr>"

definition sprint_int :: "int \<Rightarrow> string" where
  "sprint_int i = (if i < 0 then CHR ''-'' # dec (nat (- i)) else dec (nat i))"

definition cacheKey :: "rangeFetcher \<Rightarrow> int \<Rightarrow> string" where
  "cacheKey f idx = (case rf_CacheKey f of Some k \<Rightarrow> k @ CHR ''#'' # sprint_int idx | None \<Rightarrow> '''')"

definition cache_get :: "chunkCache \<Rightarrow> rangeFetcher \<Rightarrow> int \<Rightarrow> byte list option" where
  "cache_get c f idx = (if cacheKey f idx = '''' then None else map_of (cc_entries c) (cacheKey f idx))"

text \<open>The eviction loop of \<^verbatim>\<open>put\<close>, oldest first, until \<open>need\<close> more bytes fit or nothing is left.\<close>

fun evict :: "int \<Rightarrow> int \<Rightarrow> int \<Rightarrow> (string, byte list) gomap \<Rightarrow> string list \<Rightarrow> int \<times> (string, byte list) gomap \<times> string list" where
  "evict maxSize need sz entries [] = (sz, entries, [])"
| "evict maxSize need sz entries (oldest # order) =
     (if sz + need > maxSize
      then evict maxSize need (sz - int (length (go_get [] entries oldest))) (filter (\<lambda>(k, b). k \<noteq> oldest) entries) order
      else (sz, entries, oldest # order))"

definition cache_put :: "chunkCache \<Rightarrow> rangeFetcher \<Rightarrow> int \<Rightarrow> byte list \<Rightarrow> chunkCache" where
  "cache_put c f idx b =
     (let key = cacheKey f idx in
      if key = '''' then c
      else if map_of (cc_entries c) key \<noteq> None then c
      else case evict (cc_maxSize c) (int (length b)) (cc_size c) (cc_entries c) (cc_order c) of
          (sz, entries, order) \<Rightarrow>
            if int (length b) > cc_maxSize c
            then c\<lparr>cc_size := sz, cc_entries := entries, cc_order := order\<rparr>
            else c\<lparr>cc_size := sz + int (length b), cc_entries := (key, b) # entries, cc_order := order @ [key]\<rparr>)"

definition cache_stats :: "chunkCache \<Rightarrow> nat \<times> int" where
  "cache_stats c = (length (cc_entries c), cc_size c)"

section \<open>The reader\<close>

record remoteBlobReader =
  rr_fetch :: rangeFetcher
  rr_chunkSize :: nat
  rr_sizeOnce :: "(go_error + int) option"

definition defaultRemoteChunkSize :: nat where "defaultRemoteChunkSize = 2 ^ 20"

definition newRemoteBlobReader :: "rangeFetcher \<Rightarrow> remoteBlobReader" where
  "newRemoteBlobReader fetch = \<lparr>rr_fetch = fetch, rr_chunkSize = defaultRemoteChunkSize, rr_sizeOnce = None\<rparr>"

definition blobSize :: "remoteBlobReader \<Rightarrow> remoteBlobReader \<times> (go_error + int)" where
  "blobSize r = (case rr_sizeOnce r of
     Some s \<Rightarrow> (r, s)
   | None \<Rightarrow> (r\<lparr>rr_sizeOnce := Some (rf_Size (rr_fetch r))\<rparr>, rf_Size (rr_fetch r)))"

definition fetch_chunk :: "remoteBlobReader \<Rightarrow> chunkCache \<Rightarrow> int \<Rightarrow> int \<Rightarrow> chunkCache \<times> (go_error + byte list)" where
  "fetch_chunk r c idx sz =
     (case cache_get c (rr_fetch r) idx of
        Some b \<Rightarrow> (c, Inr b)
      | None \<Rightarrow>
          let start = idx * int (rr_chunkSize r);
              fin = (if start + int (rr_chunkSize r) > sz then sz else start + int (rr_chunkSize r))
          in case rf_FetchRange (rr_fetch r) (nat (fin - start)) start of
               Inl e \<Rightarrow> (c, Inl (Wrapf ''fetch bytes %d-%d'' [AInt start, AInt (fin - 1)] e))
             | Inr buf \<Rightarrow> (cache_put c (rr_fetch r) idx buf, Inr buf))"

function remote_loop :: "remoteBlobReader \<Rightarrow> int \<Rightarrow> nat \<Rightarrow> nat \<Rightarrow> chunkCache \<Rightarrow> byte list \<Rightarrow> chunkCache \<times> byte list \<times> go_error option" where
  "remote_loop r sz len off c acc =
     (if \<not> length acc < len then (c, acc, None)
      else let pos = off + length acc; idx = pos div rr_chunkSize r
           in case fetch_chunk r c (int idx) sz of
                (c', Inl e) \<Rightarrow> (c', acc, Some e)
              | (c', Inr chunk) \<Rightarrow>
                  let inChunk = pos - idx * rr_chunkSize r
                  in if inChunk \<ge> length chunk
                     then (c', acc, Some (Errorf ''remote chunk %d is %d bytes, short of offset %d''
                                            [AInt (int idx), AInt (int (length chunk)), AInt (int inChunk)]))
                     else remote_loop r sz len off c' (acc @ take (len - length acc) (drop inChunk chunk)))"
  by pat_completeness auto
termination
  by (relation "measure (\<lambda>(r, sz, len, off, c, acc). len - length acc)") auto

declare remote_loop.simps [simp del]

definition remote_ReadAt ::
  "remoteBlobReader \<Rightarrow> chunkCache \<Rightarrow> nat \<Rightarrow> int \<Rightarrow> remoteBlobReader \<times> chunkCache \<times> byte list \<times> go_error option" where
  "remote_ReadAt r c n off =
     (if off < 0 then (r, c, [], Some (Errorf ''remote blob read at a negative offset'' []))
      else if n = 0 then (r, c, [], None)
      else case blobSize r of
          (r', Inl e) \<Rightarrow> (r', c, [], Some e)
        | (r', Inr sz) \<Rightarrow>
            if off \<ge> sz then (r', c, [], Some EOF)
            else (r', remote_loop r' sz (if int n > sz - off then nat (sz - off) else n) (nat off) c []))"

section \<open>The cache stays within its budget\<close>

definition held :: "(string, byte list) gomap \<Rightarrow> int" where
  "held es = sum_list (map (\<lambda>e. int (length (snd e))) es)"

lemma held_simps [simp]: "held [] = 0" "held (e # es) = int (length (snd e)) + held es" "held (es @ es') = held es + held es'"
  by (simp_all add: held_def)

definition cache_ok :: "chunkCache \<Rightarrow> bool" where
  "cache_ok c \<longleftrightarrow> distinct (map fst (cc_entries c)) \<and> mset (cc_order c) = mset (map fst (cc_entries c))
     \<and> cc_size c = held (cc_entries c) \<and> cc_size c \<le> cc_maxSize c"

lemma filter_key:
  fixes es :: "(string, byte list) gomap"
  assumes "distinct (map fst es)" "(k, b) \<in> set es"
  shows "held (filter (\<lambda>(k', b). k' \<noteq> k) es)
      = held es - int (length b)"
    and "mset (map fst (filter (\<lambda>(k', b). k' \<noteq> k) es)) = mset (map fst es) - {#k#}"
proof -
  have keep: "filter (\<lambda>(k', b). k' \<noteq> k) xs = xs" if "k \<notin> fst ` set xs" for xs :: "(string \<times> byte list) list"
    using that by (auto simp: filter_id_conv image_iff)
  obtain xs ys where es: "es = xs @ (k, b) # ys" using assms(2) by (meson split_list)
  then have "k \<notin> fst ` set xs" "k \<notin> fst ` set ys" using assms(1) by auto
  then show "held (filter (\<lambda>(k', b). k' \<noteq> k) es)
      = held es - int (length b)"
    and "mset (map fst (filter (\<lambda>(k', b). k' \<noteq> k) es)) = mset (map fst es) - {#k#}"
    unfolding es by (simp_all add: keep)
qed

lemma evict_ok:
  assumes "evict mx need sz es order = (sz', es', order')" "distinct (map fst es)"
    "mset order = mset (map fst es)" "sz = held es" "sz \<le> mx"
  shows "distinct (map fst es') \<and> mset order' = mset (map fst es')
    \<and> sz' = held es' \<and> sz' \<le> mx \<and> (sz' + need \<le> mx \<or> es' = [])
    \<and> set es' \<subseteq> set es"
  using assms
proof (induction mx need sz es order arbitrary: sz' es' order' rule: evict.induct)
  case (1 mx need sz es)
  then show ?case by auto
next
  case (2 mx need sz es k order)
  show ?case
  proof (cases "sz + need > mx")
    case False
    then show ?thesis using 2 by auto
  next
    case True
    have "k \<in> set_mset (mset (map fst es))" using 2 by (metis list.set_intros(1) set_mset_mset)
    then obtain b where kb: "(k, b) \<in> set es" by auto
    let ?es = "filter (\<lambda>(k', b). k' \<noteq> k) es"
    have b: "go_get [] es k = b" using kb 2 by (simp add: go_get_def map_of_is_SomeI)
    note f = filter_key [OF 2(3) kb]
    have "distinct (map fst ?es)" using 2 by (simp add: distinct_map_filter)
    moreover have "mset order = mset (map fst ?es)" unfolding f(2) using 2 by (metis add_mset_diff_bothsides diff_empty mset.simps(2))
    moreover have "sz - int (length b) \<le> mx" using 2 by simp
    ultimately have "distinct (map fst es') \<and> mset order' = mset (map fst es')
        \<and> sz' = held es' \<and> sz' \<le> mx \<and> (sz' + need \<le> mx \<or> es' = [])
        \<and> set es' \<subseteq> set ?es"
      using 2(1) [OF True] 2(2) True b f(1) 2(5) by auto
    then show ?thesis by auto
  qed
qed

lemma new_cache_ok: "cache_ok (newChunkCache n)"
  by (simp add: cache_ok_def newChunkCache_def)

lemma put_ok:
  assumes "cache_ok c"
  shows "cache_ok (cache_put c f idx b)"
    and "set (cc_entries (cache_put c f idx b)) \<subseteq> insert (cacheKey f idx, b) (set (cc_entries c))"
proof -
  obtain sz es order where e: "evict (cc_maxSize c) (int (length b)) (cc_size c) (cc_entries c) (cc_order c) = (sz, es, order)"
    by (metis prod_cases3)
  have ok: "distinct (map fst es) \<and> mset order = mset (map fst es)
    \<and> sz = held es \<and> sz \<le> cc_maxSize c \<and> (sz + int (length b) \<le> cc_maxSize c \<or> es = [])
    \<and> set es \<subseteq> set (cc_entries c)" using assms by (intro evict_ok [OF e]) (simp_all add: cache_ok_def)
  have fresh: "cacheKey f idx \<notin> fst ` set es" if "map_of (cc_entries c) (cacheKey f idx) = None"
    using that ok by (auto simp: map_of_eq_None_iff)
  have new: "cache_put c f idx b = (if cacheKey f idx = '''' \<or> map_of (cc_entries c) (cacheKey f idx) \<noteq> None then c
      else if int (length b) > cc_maxSize c then c\<lparr>cc_size := sz, cc_entries := es, cc_order := order\<rparr>
      else c\<lparr>cc_size := sz + int (length b), cc_entries := (cacheKey f idx, b) # es, cc_order := order @ [cacheKey f idx]\<rparr>)"
    by (simp add: cache_put_def Let_def e)
  show "cache_ok (cache_put c f idx b)"
    using ok fresh assms unfolding new cache_ok_def by auto
  show "set (cc_entries (cache_put c f idx b)) \<subseteq> insert (cacheKey f idx, b) (set (cc_entries c))"
    using ok unfolding new by auto
qed

section \<open>The cache never mixes blobs\<close>

text \<open>What the interface promises of a fetcher: its answers, when it answers, are the blob's.\<close>

definition honest :: "rangeFetcher \<Rightarrow> byte list \<Rightarrow> bool" where
  "honest f blob \<longleftrightarrow> (\<forall>s. rf_Size f = Inr s \<longrightarrow> s = int (length blob))
     \<and> (\<forall>n off b. 0 \<le> off \<and> off + int n \<le> int (length blob) \<and> rf_FetchRange f n off = Inr b \<longrightarrow> b = take n (drop (nat off) blob))"

text \<open>A fetcher's cache key names its blob; a fetcher without a key is not cached.\<close>

definition named :: "(string \<rightharpoonup> byte list) \<Rightarrow> rangeFetcher \<Rightarrow> byte list \<Rightarrow> bool" where
  "named blobs f blob \<longleftrightarrow> (case rf_CacheKey f of Some k \<Rightarrow> blobs k = Some blob | None \<Rightarrow> True)"

definition blob_chunk :: "byte list \<Rightarrow> nat \<Rightarrow> byte list" where
  "blob_chunk blob i = take defaultRemoteChunkSize (drop (i * defaultRemoteChunkSize) blob)"

definition consistent :: "(string \<rightharpoonup> byte list) \<Rightarrow> chunkCache \<Rightarrow> bool" where
  "consistent blobs c \<longleftrightarrow> (\<forall>(key, b) \<in> set (cc_entries c).
     \<exists>k i blob. key = k @ CHR ''#'' # dec i \<and> blobs k = Some blob \<and> b = blob_chunk blob i)"

lemma hash_no_digit [simp]: "\<not> is_digit CHR ''#''"
  by (simp add: is_digit_def)

lemma cacheKey_nat: "cacheKey f (int i) = (case rf_CacheKey f of Some k \<Rightarrow> k @ CHR ''#'' # dec i | None \<Rightarrow> '''')"
  by (cases "rf_CacheKey f") (simp_all add: cacheKey_def sprint_int_def)

lemma get_right:
  assumes "consistent blobs c" "named blobs f blob" "cache_get c f (int i) = Some b"
  shows "b = blob_chunk blob i"
proof -
  obtain k where k: "rf_CacheKey f = Some k" "map_of (cc_entries c) (k @ CHR ''#'' # dec i) = Some b"
    using assms(3) by (auto simp: cache_get_def cacheKey_nat split: if_splits option.splits)
  then have "(k @ CHR ''#'' # dec i, b) \<in> set (cc_entries c)" by (simp add: map_of_SomeD)
  then obtain k' i' blob' where k': "k @ CHR ''#'' # dec i = k' @ CHR ''#'' # dec i'" "blobs k' = Some blob'"
    "b = blob_chunk blob' i'" using assms(1) by (auto simp: consistent_def)
  have "k = k' \<and> i = i'" using sep_dec_inj [OF k'(1)] by simp
  then show ?thesis using k(1) k'(2,3) assms(2) by (simp add: named_def)
qed

lemma put_consistent:
  assumes "cache_ok c" "consistent blobs c" "named blobs f blob"
  shows "consistent blobs (cache_put c f (int i) (blob_chunk blob i))"
proof (cases "rf_CacheKey f")
  case None
  then show ?thesis using assms(2) by (simp add: cache_put_def cacheKey_nat)
next
  case (Some k)
  have "set (cc_entries (cache_put c f (int i) (blob_chunk blob i)))
      \<subseteq> insert (k @ CHR ''#'' # dec i, blob_chunk blob i) (set (cc_entries c))"
    using put_ok(2) [OF assms(1), of f "int i" "blob_chunk blob i"] Some by (simp add: cacheKey_nat)
  moreover have "blobs k = Some blob" using assms(3) Some by (simp add: named_def)
  ultimately show ?thesis using assms(2) unfolding consistent_def by blast
qed

text \<open>
  The cache over the life of a node: any sequence of \<^verbatim>\<open>put\<close>s, of whichever readers, each storing a
  chunk that its fetcher answered. (\<^verbatim>\<open>get\<close> changes nothing, and both run under the cache's lock.)
\<close>

inductive cache_run :: "(string \<rightharpoonup> byte list) \<Rightarrow> int \<Rightarrow> chunkCache \<Rightarrow> bool" for blobs mx where
  start: "cache_run blobs mx (newChunkCache mx)"
| fetched: "cache_run blobs mx c \<Longrightarrow> honest f blob \<Longrightarrow> named blobs f blob \<Longrightarrow> i * defaultRemoteChunkSize < length blob
    \<Longrightarrow> rf_FetchRange f (min defaultRemoteChunkSize (length blob - i * defaultRemoteChunkSize)) (int (i * defaultRemoteChunkSize)) = Inr b
    \<Longrightarrow> cache_run blobs mx (cache_put c f (int i) b)"

lemma honest_chunk:
  assumes "honest f blob" "i * defaultRemoteChunkSize < length blob"
    "rf_FetchRange f (min defaultRemoteChunkSize (length blob - i * defaultRemoteChunkSize)) (int (i * defaultRemoteChunkSize)) = Inr b"
  shows "b = blob_chunk blob i"
proof -
  let ?o = "i * defaultRemoteChunkSize" and ?n = "min defaultRemoteChunkSize (length blob - i * defaultRemoteChunkSize)"
  have "int ?o + int ?n \<le> int (length blob)" using assms(2) by (simp only: of_nat_add [symmetric] of_nat_le_iff)
  then have "b = take ?n (drop (nat (int ?o)) blob)" using assms(1,3) unfolding honest_def by (metis of_nat_0_le_iff)
  then show ?thesis by (simp only: nat_int blob_chunk_def) (simp add: min_def)
qed

lemma cache_run_inv: "cache_run blobs mx c \<Longrightarrow> cache_ok c \<and> consistent blobs c"
proof (induction rule: cache_run.induct)
  case start
  then show ?case using new_cache_ok [of mx] by (simp add: consistent_def) (simp add: newChunkCache_def)
next
  case (fetched c f blob i b)
  then show ?case using honest_chunk [of f blob i b] put_ok(1) put_consistent by blast
qed

text \<open>
  C14. One node-wide cache never serves one layer's bytes for another and never outgrows its budget. In
  every state that any interleaving of readers can bring the cache to, a chunk it returns to a reader is
  that reader's own blob's chunk at that index, the recorded size is the sum of the chunks held, and it is
  at most the configured maximum.
\<close>

theorem cache_never_mixes:
  assumes "cache_run blobs mx c" "named blobs f blob"
  shows "(cache_get c f (int i) = Some b \<longrightarrow> b = blob_chunk blob i)
    \<and> cc_size c = held (cc_entries c) \<and> cc_size c \<le> cc_maxSize c
    \<and> cache_stats c = (length (cc_order c), held (cc_entries c))"
proof -
  have ok: "cache_ok c" "consistent blobs c" using cache_run_inv [OF assms(1)] by simp_all
  then have "length (cc_order c) = length (cc_entries c)" unfolding cache_ok_def by (metis length_map size_mset)
  then show ?thesis using ok get_right [OF ok(2) assms(2)] by (simp add: cache_ok_def cache_stats_def)
qed

definition example_fetcher :: "string \<Rightarrow> byte list \<Rightarrow> rangeFetcher" where
  "example_fetcher k blob = \<lparr>rf_CacheKey = Some k, rf_FetchRange = (\<lambda>n off. Inr (take n (drop (nat off) blob))),
     rf_Size = Inr (int (length blob))\<rparr>"

lemma example_honest: "honest (example_fetcher k blob) blob"
  by (simp add: honest_def example_fetcher_def)

lemma example_cached:
  "cache_run [''a'' \<mapsto> [1, 2, 3]] 10 (cache_put (newChunkCache 10) (example_fetcher ''a'' [1, 2, 3]) (int 0) [1, 2, 3])"
  by (rule cache_run.fetched [OF cache_run.start example_honest])
    (simp_all add: named_def example_fetcher_def defaultRemoteChunkSize_def)

theorem cache_never_mixes_witness:
  "cache_get (cache_put (newChunkCache 10) (example_fetcher ''a'' [1, 2, 3]) (int 0) [1, 2, 3]) (example_fetcher ''a'' [1, 2, 3]) (int 0)
     = Some (blob_chunk [1, 2, 3] 0)
   \<and> cc_size (cache_put (newChunkCache 10) (example_fetcher ''a'' [1, 2, 3]) (int 0) [1, 2, 3]) \<le> 10"
proof -
  have n: "named [''a'' \<mapsto> [1, 2, 3]] (example_fetcher ''a'' [1, 2, 3]) [1, 2, 3]"
    by (simp add: named_def example_fetcher_def)
  show ?thesis using cache_never_mixes [OF example_cached n, of 0 "[1, 2, 3]"]
    by (simp add: cache_get_def cache_put_def cacheKey_nat [of _ 0, simplified] example_fetcher_def newChunkCache_def Let_def)
qed

section \<open>Reading through the cache\<close>

text \<open>A reader of the blob: made by \<^verbatim>\<open>newRemoteBlobReader\<close>, its size asked for or not yet.\<close>

definition reads_blob :: "remoteBlobReader \<Rightarrow> rangeFetcher \<Rightarrow> bool" where
  "reads_blob r f \<longleftrightarrow> rr_fetch r = f \<and> rr_chunkSize r = defaultRemoteChunkSize \<and> (rr_sizeOnce r = None \<or> rr_sizeOnce r = Some (rf_Size f))"

text \<open>The fetcher answers every request within the blob.\<close>

definition answers :: "rangeFetcher \<Rightarrow> byte list \<Rightarrow> bool" where
  "answers f blob \<longleftrightarrow> \<not> isl (rf_Size f) \<and> (\<forall>n off. 0 \<le> off \<and> off + int n \<le> int (length blob) \<longrightarrow> \<not> isl (rf_FetchRange f n off))"

lemma chunk_length:
  fixes a cs L :: nat
  shows "a < L \<Longrightarrow> nat ((if int a + int cs > int L then int L else int a + int cs) - int a) = min cs (L - a)"
  by auto

lemma fetch_chunk_miss:
  assumes "reads_blob r f" "cache_get c f (int i) = None" "i * defaultRemoteChunkSize < L"
  shows "fetch_chunk r c (int i) (int L) =
    (case rf_FetchRange f (min defaultRemoteChunkSize (L - i * defaultRemoteChunkSize)) (int (i * defaultRemoteChunkSize)) of
       Inl e \<Rightarrow> (c, Inl (Wrapf ''fetch bytes %d-%d'' [AInt (int (i * defaultRemoteChunkSize)),
          AInt ((if int (i * defaultRemoteChunkSize) + int defaultRemoteChunkSize > int L then int L
                 else int (i * defaultRemoteChunkSize) + int defaultRemoteChunkSize) - 1)] e))
     | Inr b \<Rightarrow> (cache_put c f (int i) b, Inr b))"
proof -
  have r: "rr_fetch r = f" "rr_chunkSize r = defaultRemoteChunkSize" using assms(1) by (simp_all add: reads_blob_def)
  show ?thesis
    unfolding fetch_chunk_def r assms(2) option.case Let_def of_nat_mult [symmetric] chunk_length [OF assms(3)] ..
qed

lemma fetch_chunk_right:
  assumes run: "cache_run blobs mx c" and f: "honest f blob" "named blobs f blob" "reads_blob r f"
    and i: "i * defaultRemoteChunkSize < length blob"
  shows "\<exists>c' x. fetch_chunk r c (int i) (int (length blob)) = (c', x) \<and> cache_run blobs mx c'
    \<and> (\<forall>b. x = Inr b \<longrightarrow> b = blob_chunk blob i) \<and> (answers f blob \<longrightarrow> \<not> isl x)"
proof (cases "cache_get c f (int i)")
  case (Some b)
  have "consistent blobs c" using cache_run_inv [OF run] by simp
  from get_right [OF this f(2) Some] have "b = blob_chunk blob i" .
  moreover have "fetch_chunk r c (int i) (int (length blob)) = (c, Inr b)"
    using f(3) Some by (simp add: fetch_chunk_def reads_blob_def)
  ultimately show ?thesis using run by (intro exI [of _ c] exI [of _ "Inr b"]) simp
next
  case None
  let ?o = "int (i * defaultRemoteChunkSize)"
  let ?n = "min defaultRemoteChunkSize (length blob - i * defaultRemoteChunkSize)"
  have le: "0 \<le> ?o" "?o + int ?n \<le> int (length blob)"
    using i by (simp_all only: of_nat_0_le_iff of_nat_add [symmetric] of_nat_le_iff)
  note miss = fetch_chunk_miss [OF f(3) None i]
  show ?thesis
  proof (cases "rf_FetchRange f ?n ?o")
    case (Inl e)
    have "answers f blob \<Longrightarrow> \<not> isl (rf_FetchRange f ?n ?o)" using le unfolding answers_def by blast
    then have "\<not> answers f blob" unfolding Inl by auto
    then show ?thesis using run miss unfolding Inl sum.case by blast
  next
    case (Inr b)
    have "fetch_chunk r c (int i) (int (length blob)) = (cache_put c f (int i) b, Inr b)"
      using miss unfolding Inr sum.case .
    then show ?thesis using cache_run.fetched [OF run f(1,2) i Inr] honest_chunk [OF f(1) i Inr]
      by (intro exI [of _ "cache_put c f (int i) b"] exI [of _ "Inr b"]) simp
  qed
qed

lemma remote_loop_right:
  assumes f: "honest f blob" "named blobs f blob" "reads_blob r f"
    and "cache_run blobs mx c" "p0 + len \<le> length blob" "length acc \<le> len" "acc = take (length acc) (drop p0 blob)"
  shows "\<exists>c' bs err. remote_loop r (int (length blob)) len p0 c acc = (c', bs, err) \<and> cache_run blobs mx c'
    \<and> bs = take (length bs) (drop p0 blob) \<and> (err = None \<longrightarrow> length bs = len) \<and> (\<forall>e. err = Some e \<longrightarrow> length bs < len \<and> \<not> answers f blob)"
  using assms(4-)
proof (induction "len - length acc" arbitrary: acc c rule: less_induct)
  case less
  show ?case
  proof (cases "length acc < len")
    case False
    then have "length acc = len" using less.prems(3) by simp
    then show ?thesis using less.prems(1,4) by (simp add: remote_loop.simps)
  next
    case True
    let ?bs = defaultRemoteChunkSize
    define pos where "pos = p0 + length acc"
    define i where "i = pos div ?bs"
    have bs: "0 < ?bs" by (simp add: defaultRemoteChunkSize_def)
    have rbs: "rr_chunkSize r = ?bs" using f(3) by (simp add: reads_blob_def)
    have pos: "pos < length blob" using True less.prems(2) by (simp add: pos_def)
    have ipos: "i * ?bs + pos mod ?bs = pos" by (simp add: i_def)
    have inb: "pos - i * ?bs = pos mod ?bs" using ipos by linarith
    have modlt: "pos mod ?bs < ?bs" using bs by simp
    have "i * ?bs < length blob" using ipos pos by linarith
    from fetch_chunk_right [OF less.prems(1) f this] obtain c' x where
      x: "fetch_chunk r c (int i) (int (length blob)) = (c', x)" "cache_run blobs mx c'"
      "\<And>b. x = Inr b \<Longrightarrow> b = blob_chunk blob i" "answers f blob \<Longrightarrow> \<not> isl x" by blast
    show ?thesis
    proof (cases x)
      case (Inl e)
      have "remote_loop r (int (length blob)) len p0 c acc = (c', acc, Some e)"
        using True x(1) by (subst remote_loop.simps) (simp add: Let_def rbs pos_def [symmetric] i_def [symmetric] Inl)
      then show ?thesis using x(2,4) Inl less.prems(4) True by auto
    next
      case (Inr b)
      let ?new = "take (len - length acc) (drop (pos mod ?bs) b)"
      have b: "b = take ?bs (drop (i * ?bs) blob)" using x(3) [OF Inr] by (simp add: blob_chunk_def)
      have new: "?new = take (min (len - length acc) (?bs - pos mod ?bs)) (drop pos blob)"
        unfolding b i_def by (rule block_piece)
      have short: "\<not> pos mod ?bs \<ge> length b" unfolding b using modlt ipos pos by simp
      have newlen: "length ?new = min (len - length acc) (?bs - pos mod ?bs)"
        unfolding new using less.prems(2) by (simp add: pos_def)
      have "acc @ ?new = take (length acc) (drop p0 blob) @ take (length ?new) (drop (length acc) (drop p0 blob))"
        unfolding newlen using less.prems(4) new by (simp add: pos_def add.commute)
      then have "acc @ ?new = take (length acc + length ?new) (drop p0 blob)" by (simp only: take_add)
      then have acc': "acc @ ?new = take (length (acc @ ?new)) (drop p0 blob)" by (metis length_append)
      have pos_new: "0 < length ?new" "length ?new \<le> len - length acc" unfolding newlen using True modlt by simp_all
      have len': "length (acc @ ?new) \<le> len" using pos_new(2) True unfolding length_append by linarith
      have dec: "len - length (acc @ ?new) < len - length acc" using pos_new True unfolding length_append by linarith
      have "remote_loop r (int (length blob)) len p0 c acc = remote_loop r (int (length blob)) len p0 c' (acc @ ?new)"
        using True x(1) short
        by (subst remote_loop.simps) (simp add: Let_def rbs pos_def [symmetric] i_def [symmetric] Inr inb del: take_drop drop_take)
      then show ?thesis using less.hyps [OF dec x(2) less.prems(2) len' acc'] by simp
    qed
  qed
qed

lemma remote_read_right_aux:
  assumes "honest f blob" "named blobs f blob" "reads_blob r f" "cache_run blobs mx c" "0 \<le> off"
  shows "\<exists>r' c' bs err. remote_ReadAt r c n off = (r', c', bs, err) \<and> reads_blob r' f \<and> cache_run blobs mx c'
    \<and> bs = take (length bs) (drop (nat off) blob)
    \<and> (err = None \<longrightarrow> bs = take n (drop (nat off) blob))
    \<and> (answers f blob \<longrightarrow> bs = take n (drop (nat off) blob) \<and> err = (if 0 < n \<and> int (length blob) \<le> off then Some EOF else None))"
proof -
  obtain r' s where s: "blobSize r = (r', s)" by (meson surj_pair)
  have r': "reads_blob r' f" "s = rf_Size f" using s assms(3) by (auto simp: blobSize_def reads_blob_def split: option.splits)
  show ?thesis
  proof (cases "n = 0 \<or> isl s")
    case True
    have "answers f blob \<Longrightarrow> \<not> isl s" using r'(2) by (simp add: answers_def)
    then show ?thesis using True s r'(1) assms(3-5) by (cases s) (auto simp: remote_ReadAt_def)
  next
    case False
    then obtain v where v: "rf_Size f = Inr v" using r'(2) by (cases "rf_Size f") auto
    then have size: "s = Inr (int (length blob))" using assms(1) r'(2) by (simp add: honest_def)
    show ?thesis
    proof (cases "off \<ge> int (length blob)")
      case True
      then show ?thesis using False s size r'(1) assms(4,5) by (auto simp: remote_ReadAt_def)
    next
      case short: False
      define len where "len = (if int n > int (length blob) - off then nat (int (length blob) - off) else n)"
      have len: "nat off + len \<le> length blob" "take len (drop (nat off) blob) = take n (drop (nat off) blob)"
        using short assms(5) by (auto simp: len_def nat_diff_distrib)
      from remote_loop_right [OF assms(1,2) r'(1) assms(4) len(1), of "[]"] obtain c' bs err where
        l: "remote_loop r' (int (length blob)) len (nat off) c [] = (c', bs, err)" "cache_run blobs mx c'"
        "bs = take (length bs) (drop (nat off) blob)" "err = None \<Longrightarrow> length bs = len"
        "\<And>e. err = Some e \<Longrightarrow> \<not> answers f blob" by auto
      have "remote_ReadAt r c n off = (r', c', bs, err)"
        using False short s size assms(5) l(1) by (simp add: remote_ReadAt_def len_def)
      moreover have "bs = take n (drop (nat off) blob)" if "err = None" using l(3) l(4) [OF that] len(2) by metis
      ultimately show ?thesis using r'(1) l(2,3,5) short by (cases err) auto
    qed
  qed
qed

text \<open>
  C16. A remote layer reads as the blob it is. Whatever other readers have left in the shared cache, a read
  returns the blob's bytes at that offset: all of them that exist when there is no error, a prefix of them
  when a fetch fails, and no error but the end of the blob while the fetcher answers. The cache it leaves
  behind is again one that only right chunks have been put into.
\<close>

theorem remote_read_right:
  assumes "honest f blob" "named blobs f blob" "reads_blob r f" "cache_run blobs mx c" "0 \<le> off"
  shows "\<exists>r' c' bs err. remote_ReadAt r c n off = (r', c', bs, err) \<and> reads_blob r' f \<and> cache_run blobs mx c'
    \<and> bs = take (length bs) (drop (nat off) blob)
    \<and> (err = None \<longrightarrow> bs = take n (drop (nat off) blob))
    \<and> (answers f blob \<longrightarrow> bs = take n (drop (nat off) blob) \<and> err = (if 0 < n \<and> int (length blob) \<le> off then Some EOF else None))"
  by (rule remote_read_right_aux [OF assms])

theorem remote_read_right_witness:
  "\<exists>r' c' err. remote_ReadAt (newRemoteBlobReader (example_fetcher ''a'' [1, 2, 3]))
      (cache_put (newChunkCache 10) (example_fetcher ''a'' [1, 2, 3]) (int 0) [1, 2, 3]) 5 1 = (r', c', [2, 3], err) \<and> err = None"
proof -
  let ?f = "example_fetcher ''a'' [1, 2, 3]"
  have "named [''a'' \<mapsto> [1, 2, 3]] ?f [1, 2, 3]" "reads_blob (newRemoteBlobReader ?f) ?f" "answers ?f [1, 2, 3]"
    by (simp_all add: named_def example_fetcher_def reads_blob_def newRemoteBlobReader_def answers_def)
  then show ?thesis
    using remote_read_right [OF example_honest [of "''a''" "[1, 2, 3]"] _ _ example_cached, of "newRemoteBlobReader ?f" 1 5] by auto
qed

text \<open>So a remote layer is, to the containers above it, a reader of the blob's content.\<close>

definition remote_reader :: "remoteBlobReader \<Rightarrow> chunkCache \<Rightarrow> reader" where
  "remote_reader r c n off = snd (snd (remote_ReadAt r c n off))"

lemma remote_content_reader:
  assumes "honest f blob" "answers f blob" "named blobs f blob" "reads_blob r f" "cache_run blobs mx c"
  shows "content_reader (remote_reader r c) blob"
proof
  fix off :: int and n e assume "0 \<le> off"
  from remote_read_right_aux [OF assms(1,3-5) this, of n] assms(2)
  show "fst (remote_reader r c n off) = take n (drop (nat off) blob)"
    and "snd (remote_reader r c n off) = Some e \<Longrightarrow> isEOF e"
    by (auto simp: remote_reader_def split: if_splits)
qed

end
