(* ===== verification/NetAlloc.thy ===== *)
theory NetAlloc
  imports Bytes Format
begin

text \<open>
  Addresses for sandboxes: the layout derived from a slot (\<^verbatim>\<open>src/internal/node/network/pool.go\<close>), the
  allocation of slots against the namespaces the host has (\<^verbatim>\<open>alloc.go\<close>), their provisioning
  (\<^verbatim>\<open>provision.go\<close>) and the start-up check of the guest subnet (\<^verbatim>\<open>collision.go\<close>). What the host lists and
  what \<^verbatim>\<open>net.ParseCIDR\<close> returns for a text are arguments. An IP address is its list of bytes; a prefix
  carries the number of ones and the length of its mask.
\<close>

unbundle bit_operations_syntax

section \<open>Addresses\<close>

type_synonym ip = "byte list"

record IPNet =
  n_IP :: ip
  n_ones :: nat
  n_bits :: nat

type_synonym parse_cidr = "string \<Rightarrow> go_error + IPNet"

definition To4 :: "ip \<Rightarrow> ip option" where
  "To4 a = (if length a = 4 then Some a
            else if length a = 16 \<and> take 10 a = replicate 10 0 \<and> a ! 10 = 0xff \<and> a ! 11 = 0xff then Some (drop 12 a)
            else None)"

text \<open>\<^verbatim>\<open>net.CIDRMask\<close>.\<close>

definition mask_byte :: "nat \<Rightarrow> byte" where
  "mask_byte k = (if 8 \<le> k then 0xff else NOT (drop_bit k 0xff))"

definition CIDRMask :: "nat \<Rightarrow> nat \<Rightarrow> byte list" where
  "CIDRMask ones bits = map (\<lambda>i. mask_byte (ones - 8 * i)) [0..<bits div 8]"

definition ip_string :: "ip \<Rightarrow> string" where
  "ip_string a = dec (unat (a ! 0)) @ ''.'' @ dec (unat (a ! 1)) @ ''.'' @ dec (unat (a ! 2)) @ ''.'' @ dec (unat (a ! 3))"

definition ipnet_string :: "IPNet \<Rightarrow> string" where
  "ipnet_string n = ip_string (n_IP n) @ ''/'' @ dec (n_ones n)"

section \<open>Layouts\<close>

record Layout =
  l_Index :: int
  l_Netns :: string
  l_TapName :: string
  l_GuestIP :: ip
  l_GuestGateway :: ip
  l_GuestSubnet :: IPNet
  l_HostVeth :: string
  l_NetnsVeth :: string
  l_HostLinkIP :: ip
  l_NetnsLinkIP :: ip
  l_LinkSubnet :: IPNet

definition tapName :: string where "tapName = ''beantap0''"
definition netnsPrefix :: string where "netnsPrefix = ''bean-''"
definition vethHostPrefix :: string where "vethHostPrefix = ''bnv''"
definition vethNetnsPrefix :: string where "vethNetnsPrefix = ''bnp''"
definition MaxIndex :: int where "MaxIndex = 4095"

definition LayoutFor :: "parse_cidr \<Rightarrow> int \<Rightarrow> string \<Rightarrow> go_error + Layout" where
  "LayoutFor parse index guestCIDR =
     (if index < 0 \<or> index > MaxIndex
      then Inl (Errorf ''index %d out of range [0,%d]'' [AInt index, AInt MaxIndex])
      else case parse guestCIDR of
          Inl e \<Rightarrow> Inl (Wrapf ''parse guest subnet %q'' [AStr guestCIDR] e)
        | Inr guestNet \<Rightarrow>
            if n_bits guestNet \<noteq> 32 then Inl (Errorf ''guest subnet %q must be IPv4'' [AStr guestCIDR])
            else if n_ones guestNet \<noteq> 30 then Inl (Errorf ''guest subnet %q must be a /30'' [AStr guestCIDR])
            else case To4 (n_IP guestNet) of
                None \<Rightarrow> Inl (Errorf ''guest subnet %q must be IPv4'' [AStr guestCIDR])
              | Some base \<Rightarrow>
                  let a = word_of_int (index div 64); b = word_of_int ((index mod 64) * 4)
                  in Inr \<lparr>l_Index = index, l_Netns = netnsPrefix @ dec (nat index), l_TapName = tapName,
                          l_GuestIP = [base ! 0, base ! 1, base ! 2, base ! 3 + 2],
                          l_GuestGateway = [base ! 0, base ! 1, base ! 2, base ! 3 + 1],
                          l_GuestSubnet = guestNet,
                          l_HostVeth = vethHostPrefix @ dec (nat index), l_NetnsVeth = vethNetnsPrefix @ dec (nat index),
                          l_HostLinkIP = [10, a, b, 1], l_NetnsLinkIP = [10, a, b, 2],
                          l_LinkSubnet = \<lparr>n_IP = [10, a, b, 0], n_ones = 30, n_bits = 32\<rparr>\<rparr>)"

definition Layout_GuestCIDR :: "Layout \<Rightarrow> string" where
  "Layout_GuestCIDR l = ip_string (l_GuestIP l) @ ''/'' @ dec (n_ones (l_GuestSubnet l))"

definition Layout_GatewayCIDR :: "Layout \<Rightarrow> string" where
  "Layout_GatewayCIDR l = ip_string (l_GuestGateway l) @ ''/'' @ dec (n_ones (l_GuestSubnet l))"

definition Layout_HostLinkCIDR :: "Layout \<Rightarrow> string" where "Layout_HostLinkCIDR l = ip_string (l_HostLinkIP l) @ ''/30''"
definition Layout_NetnsLinkCIDR :: "Layout \<Rightarrow> string" where "Layout_NetnsLinkCIDR l = ip_string (l_NetnsLinkIP l) @ ''/30''"
definition Layout_LinkCIDR :: "Layout \<Rightarrow> string" where "Layout_LinkCIDR l = ipnet_string (l_LinkSubnet l)"
definition Layout_GuestSubnetCIDR :: "Layout \<Rightarrow> string" where "Layout_GuestSubnetCIDR l = ipnet_string (l_GuestSubnet l)"

section \<open>Allocating slots\<close>

definition indexOfNetns :: "string \<Rightarrow> int option" where
  "indexOfNetns name =
     (case CutPrefix name netnsPrefix of
        None \<Rightarrow> None
      | Some rest \<Rightarrow> (case Atoi rest of None \<Rightarrow> None
          | Some idx \<Rightarrow> if idx < 0 \<or> idx > MaxIndex then None else Some idx))"

record Allocator =
  al_GuestCIDR :: string
  al_taken :: "(int, string) gomap"

definition NewAllocator :: "string \<Rightarrow> Allocator" where
  "NewAllocator guestCIDR = \<lparr>al_GuestCIDR = guestCIDR, al_taken = []\<rparr>"

text \<open>The slots that exist on the host; \<open>None\<close> is an allocator without a host to ask.\<close>

definition hostIndices :: "(go_error + string list) option \<Rightarrow> go_error + int set" where
  "hostIndices host = (case host of
     None \<Rightarrow> Inr {}
   | Some (Inl e) \<Rightarrow> Inl (Wrapf ''cannot list namespaces, so an index cannot be assigned safely'' [] e)
   | Some (Inr names) \<Rightarrow> Inr (set (List.map_filter indexOfNetns names)))"

definition owner_index :: "Allocator \<Rightarrow> string \<Rightarrow> int option" where
  "owner_index a sandboxID = map_option fst (find (\<lambda>(idx, owner). owner = sandboxID) (al_taken a))"

text \<open>The search of \<^verbatim>\<open>Reserve\<close> through the slots; an unknown one that the host has is adopted on the way.\<close>

fun reserve_scan :: "parse_cidr \<Rightarrow> string \<Rightarrow> int set \<Rightarrow> Allocator \<Rightarrow> int list \<Rightarrow> Allocator \<times> (go_error + Layout)" where
  "reserve_scan parse sandboxID onHost a [] = (a, Inl (Errorf ''no free slot below %d'' [AInt MaxIndex]))"
| "reserve_scan parse sandboxID onHost a (idx # idxs) =
     (if map_of (al_taken a) idx \<noteq> None then reserve_scan parse sandboxID onHost a idxs
      else if idx \<in> onHost then reserve_scan parse sandboxID onHost (a\<lparr>al_taken := (idx, '''') # al_taken a\<rparr>) idxs
      else case LayoutFor parse idx (al_GuestCIDR a) of
          Inl e \<Rightarrow> (a, Inl e)
        | Inr layout \<Rightarrow> (a\<lparr>al_taken := (idx, sandboxID) # al_taken a\<rparr>, Inr layout))"

definition Allocator_Reserve ::
  "parse_cidr \<Rightarrow> (go_error + string list) option \<Rightarrow> Allocator \<Rightarrow> string \<Rightarrow> Allocator \<times> (go_error + Layout)" where
  "Allocator_Reserve parse host a sandboxID =
     (if sandboxID = '''' then (a, Inl (Errorf ''sandbox id required'' []))
      else case owner_index a sandboxID of
          Some idx \<Rightarrow> (a, LayoutFor parse idx (al_GuestCIDR a))
        | None \<Rightarrow>
            (case hostIndices host of
               Inl e \<Rightarrow> (a, Inl e)
             | Inr onHost \<Rightarrow> reserve_scan parse sandboxID onHost a [0..MaxIndex]))"

definition Allocator_Release :: "Allocator \<Rightarrow> string \<Rightarrow> Allocator" where
  "Allocator_Release a sandboxID =
     (if sandboxID = '''' then a
      else case owner_index a sandboxID of
          None \<Rightarrow> a
        | Some idx \<Rightarrow> a\<lparr>al_taken := filter (\<lambda>(i, owner). i \<noteq> idx) (al_taken a)\<rparr>)"

definition Allocator_LayoutOf :: "parse_cidr \<Rightarrow> Allocator \<Rightarrow> string \<Rightarrow> Layout option" where
  "Allocator_LayoutOf parse a sandboxID =
     (if sandboxID = '''' then None
      else case owner_index a sandboxID of
          None \<Rightarrow> None
        | Some idx \<Rightarrow> (case LayoutFor parse idx (al_GuestCIDR a) of Inl e \<Rightarrow> None | Inr layout \<Rightarrow> Some layout))"

section \<open>Provisioning\<close>

text \<open>
  The host behind the \<^verbatim>\<open>Host\<close> interface is a state with three operations; a provisioner is an
  allocator and that state.
\<close>

record 'h host_ops =
  h_List :: "'h \<Rightarrow> go_error + string list"
  h_Setup :: "Layout \<Rightarrow> 'h \<Rightarrow> 'h \<times> go_error option"
  h_Teardown :: "Layout \<Rightarrow> 'h \<Rightarrow> 'h \<times> go_error option"

definition NewProvisioner :: "parse_cidr \<Rightarrow> string \<Rightarrow> 'h host_ops option \<Rightarrow> go_error + Allocator" where
  "NewProvisioner parse guestCIDR ops =
     (case ops of
        None \<Rightarrow> Inl (Errorf ''a host is required to provision'' [])
      | Some _ \<Rightarrow> (case LayoutFor parse 0 guestCIDR of Inl e \<Rightarrow> Inl e | Inr _ \<Rightarrow> Inr (NewAllocator guestCIDR)))"

definition Provision ::
  "parse_cidr \<Rightarrow> 'h host_ops \<Rightarrow> Allocator \<Rightarrow> 'h \<Rightarrow> string \<Rightarrow> Allocator \<times> 'h \<times> (go_error + Layout)" where
  "Provision parse ops a h sandboxID =
     (case Allocator_Reserve parse (Some (h_List ops h)) a sandboxID of
        (a, Inl e) \<Rightarrow> (a, h, Inl e)
      | (a, Inr layout) \<Rightarrow>
          (case h_Setup ops layout h of
             (h, Some e) \<Rightarrow> (Allocator_Release a sandboxID, h, Inl e)
           | (h, None) \<Rightarrow> (a, h, Inr layout)))"

definition Deprovision ::
  "parse_cidr \<Rightarrow> 'h host_ops \<Rightarrow> Allocator \<Rightarrow> 'h \<Rightarrow> string \<Rightarrow> Allocator \<times> 'h \<times> go_error option" where
  "Deprovision parse ops a h sandboxID =
     (case Allocator_LayoutOf parse a sandboxID of
        None \<Rightarrow> (a, h, None)
      | Some layout \<Rightarrow>
          (case h_Teardown ops layout h of
             (h, err) \<Rightarrow> (Allocator_Release a sandboxID, h,
                map_option (Wrapf ''deprovision %s'' [AStr sandboxID]) err)))"

section \<open>The guest subnet\<close>

definition networkNumberAndMask :: "IPNet \<Rightarrow> (ip \<times> byte list) option" where
  "networkNumberAndMask n =
     (case (case To4 (n_IP n) of Some a \<Rightarrow> Some a | None \<Rightarrow> if length (n_IP n) = 16 then Some (n_IP n) else None) of
        None \<Rightarrow> None
      | Some a \<Rightarrow>
          let m = CIDRMask (n_ones n) (n_bits n)
          in if length m = 4 then (if length a \<noteq> 4 then None else Some (a, m))
             else if length m = 16 then Some (a, if length a = 4 then drop 12 m else m)
             else None)"

definition Contains :: "IPNet \<Rightarrow> ip \<Rightarrow> bool" where
  "Contains n a =
     (let nnm = (case networkNumberAndMask n of None \<Rightarrow> ([], []) | Some x \<Rightarrow> x);
          a = (case To4 a of Some x \<Rightarrow> x | None \<Rightarrow> a)
      in length a = length (fst nnm)
         \<and> list_all (\<lambda>i. fst nnm ! i AND snd nnm ! i = a ! i AND snd nnm ! i) [0..<length a])"

definition netsOverlap :: "IPNet \<Rightarrow> IPNet \<Rightarrow> bool" where
  "netsOverlap a b \<longleftrightarrow> Contains a (n_IP b) \<or> Contains b (n_IP a)"

fun check_routes :: "parse_cidr \<Rightarrow> string \<Rightarrow> IPNet \<Rightarrow> string list \<Rightarrow> go_error option" where
  "check_routes parse guestCIDR guestNet [] = None"
| "check_routes parse guestCIDR guestNet (d # ds) =
     (let dst = TrimSpace d
      in if dst = '''' \<or> dst = ''default'' \<or> dst = ''0.0.0.0/0'' \<or> dst = ''::/0''
         then check_routes parse guestCIDR guestNet ds
         else case parse dst of
             Inl e \<Rightarrow> check_routes parse guestCIDR guestNet ds
           | Inr dstNet \<Rightarrow>
               if netsOverlap guestNet dstNet
               then Some (Errorf ''guest subnet %s overlaps the existing host route %s'' [AStr guestCIDR, AStr dst])
               else check_routes parse guestCIDR guestNet ds)"

definition CheckSubnetFree :: "parse_cidr \<Rightarrow> string \<Rightarrow> (go_error + string list) option \<Rightarrow> go_error option" where
  "CheckSubnetFree parse guestCIDR routes =
     (case parse guestCIDR of
        Inl e \<Rightarrow> Some (Wrapf ''parse guest subnet %q'' [AStr guestCIDR] e)
      | Inr guestNet \<Rightarrow>
          (case routes of
             None \<Rightarrow> Some (Errorf ''cannot check whether %s is already routed'' [AStr guestCIDR])
           | Some (Inl e) \<Rightarrow> Some (Wrapf ''cannot list host routes, so it is unknown whether %s collides with an existing one''
                                   [AStr guestCIDR] e)
           | Some (Inr ds) \<Rightarrow> check_routes parse guestCIDR guestNet ds))"

section \<open>Names and addresses identify a slot\<close>

lemma LayoutFor_Inr:
  assumes "LayoutFor parse idx cidr = Inr l"
  shows "0 \<le> idx" "idx \<le> MaxIndex" "l_Index l = idx" "l_Netns l = netnsPrefix @ dec (nat idx)"
    "l_HostVeth l = vethHostPrefix @ dec (nat idx)" "l_NetnsVeth l = vethNetnsPrefix @ dec (nat idx)"
    "l_HostLinkIP l = [10, word_of_int (idx div 64), word_of_int ((idx mod 64) * 4), 1]"
    "l_NetnsLinkIP l = [10, word_of_int (idx div 64), word_of_int ((idx mod 64) * 4), 2]"
    "l_LinkSubnet l = \<lparr>n_IP = [10, word_of_int (idx div 64), word_of_int ((idx mod 64) * 4), 0], n_ones = 30, n_bits = 32\<rparr>"
  using assms by (auto simp: LayoutFor_def Let_def split: if_splits sum.splits option.splits)

lemma LayoutFor_other:
  assumes "LayoutFor parse i cidr = Inr l" "0 \<le> j" "j \<le> MaxIndex"
  shows "\<exists>l'. LayoutFor parse j cidr = Inr l'"
  using assms by (auto simp: LayoutFor_def Let_def split: if_splits sum.splits option.splits)

lemma byte_of_int_inj:
  assumes "0 \<le> x" "x < 256" "0 \<le> y" "y < 256" "(word_of_int x :: byte) = word_of_int y"
  shows "x = y"
proof -
  have "uint (word_of_int z :: byte) = z" if "0 \<le> z" "z < 256" for z
    using that by (simp add: unsigned_of_int take_bit_int_eq_self)
  then show ?thesis using assms by metis
qed

lemma slot_octets_inj:
  assumes "0 \<le> i" "i \<le> MaxIndex" "0 \<le> j" "j \<le> MaxIndex"
    and "(word_of_int (i div 64) :: byte) = word_of_int (j div 64)"
    and "(word_of_int ((i mod 64) * 4) :: byte) = word_of_int ((j mod 64) * 4)"
  shows "i = j"
proof -
  have "i div 64 < 256" "j div 64 < 256" "0 \<le> i div 64" "0 \<le> j div 64"
    using assms(1-4) by (simp_all add: MaxIndex_def pos_imp_zdiv_nonneg_iff)
  with assms(5) have "i div 64 = j div 64" by (intro byte_of_int_inj)
  moreover have "(i mod 64) * 4 = (j mod 64) * 4"
    using assms(6) pos_mod_bound [of 64 i] pos_mod_bound [of 64 j] pos_mod_sign [of 64 i] pos_mod_sign [of 64 j]
    by (intro byte_of_int_inj) linarith+
  ultimately show ?thesis by (metis div_mult_mod_eq mult_cancel_right zero_neq_numeral)
qed

lemma layouts_differ:
  assumes "LayoutFor parse i cidr = Inr l" "LayoutFor parse j cidr = Inr l'" "i \<noteq> j"
  shows "l_Netns l \<noteq> l_Netns l'" "l_HostVeth l \<noteq> l_HostVeth l'" "l_NetnsVeth l \<noteq> l_NetnsVeth l'"
    "l_HostLinkIP l \<noteq> l_HostLinkIP l'" "l_NetnsLinkIP l \<noteq> l_NetnsLinkIP l'" "l_LinkSubnet l \<noteq> l_LinkSubnet l'"
proof -
  note a = LayoutFor_Inr [OF assms(1)] and b = LayoutFor_Inr [OF assms(2)]
  have "nat i \<noteq> nat j" using a(1) b(1) assms(3) by simp
  then show "l_Netns l \<noteq> l_Netns l'" "l_HostVeth l \<noteq> l_HostVeth l'" "l_NetnsVeth l \<noteq> l_NetnsVeth l'"
    unfolding a b by (simp_all add: dec_inj)
  show "l_HostLinkIP l \<noteq> l_HostLinkIP l'" "l_NetnsLinkIP l \<noteq> l_NetnsLinkIP l'" "l_LinkSubnet l \<noteq> l_LinkSubnet l'"
    unfolding a(7-9) b(7-9) using slot_octets_inj [OF a(1,2) b(1,2)] assms(3) by auto
qed

text \<open>A slot is recovered from the name of its namespace.\<close>

lemma Atoi_dec: "int n < 2 ^ 63 \<Longrightarrow> Atoi (dec n) = Some (int n)"
proof -
  assume n: "int n < 2 ^ 63"
  have d: "list_all is_digit (dec n)" using dec_digits by (auto simp: list_all_iff)
  then have "is_digit (hd (dec n))" by (cases "dec n") simp_all
  then have "hd (dec n) \<noteq> CHR ''-''" "hd (dec n) \<noteq> CHR ''+''" by (auto simp: is_digit_def)
  then show ?thesis using d n by (simp add: Atoi_def Let_def)
qed

lemma indexOfNetns_layout: "LayoutFor parse i cidr = Inr l \<Longrightarrow> indexOfNetns (l_Netns l) = Some i"
  using LayoutFor_Inr [of parse i cidr l] by (simp add: indexOfNetns_def Atoi_dec MaxIndex_def)

section \<open>No two sandboxes share a slot\<close>

definition alloc_ok :: "Allocator \<Rightarrow> bool" where
  "alloc_ok a \<longleftrightarrow> distinct (map fst (al_taken a)) \<and> (\<forall>(i, o1) \<in> set (al_taken a). 0 \<le> i \<and> i \<le> MaxIndex
     \<and> (\<forall>(j, o2) \<in> set (al_taken a). o1 = o2 \<and> o1 \<noteq> '''' \<longrightarrow> i = j))"

lemma owner_index_Some: "owner_index a s = Some i \<Longrightarrow> (i, s) \<in> set (al_taken a)"
  by (auto simp: owner_index_def find_Some_iff dest: nth_mem)

lemma owner_index_None: "owner_index a s = None \<longleftrightarrow> (\<forall>(i, u) \<in> set (al_taken a). u \<noteq> s)"
  by (auto simp: owner_index_def find_None_iff)

lemma owner_index_iff:
  assumes "alloc_ok a" "s \<noteq> ''''"
  shows "owner_index a s = Some i \<longleftrightarrow> (i, s) \<in> set (al_taken a)"
proof
  assume i: "(i, s) \<in> set (al_taken a)"
  then obtain j where j: "owner_index a s = Some j" using owner_index_None [of a s] by (cases "owner_index a s") auto
  have "\<forall>(i, o1) \<in> set (al_taken a). \<forall>(j, o2) \<in> set (al_taken a). o1 = o2 \<and> o1 \<noteq> '''' \<longrightarrow> i = j"
    using assms(1) by (auto simp: alloc_ok_def)
  then show "owner_index a s = Some i" using i j owner_index_Some [OF j] assms(2) by fastforce
qed (rule owner_index_Some)

lemma take_slot_ok:
  assumes "alloc_ok a" "map_of (al_taken a) i = None" "0 \<le> i" "i \<le> MaxIndex" "s = '''' \<or> owner_index a s = None"
  shows "alloc_ok (a\<lparr>al_taken := (i, s) # al_taken a\<rparr>)"
  using assms by (auto simp: alloc_ok_def owner_index_None map_of_eq_None_iff)

text \<open>
  What a scan changes: slots that the host has are adopted, and at most the slot handed out is new. The
  slot is free in memory and on the host, and no earlier one of the scan is.
\<close>

lemma reserve_scan:
  assumes "alloc_ok a" "s \<noteq> ''''" "owner_index a s = None" "\<forall>i \<in> set idxs. 0 \<le> i \<and> i \<le> MaxIndex"
    and "reserve_scan parse s onHost a idxs = (a', r)" "sorted idxs" "distinct idxs"
  shows "alloc_ok a' \<and> al_GuestCIDR a' = al_GuestCIDR a
    \<and> (\<exists>adopted. al_taken a' = (case r of Inl e \<Rightarrow> [] | Inr l \<Rightarrow> [(l_Index l, s)]) @ map (\<lambda>i. (i, '''')) adopted @ al_taken a)
    \<and> (\<forall>l. r = Inr l \<longrightarrow> LayoutFor parse (l_Index l) (al_GuestCIDR a) = Inr l \<and> l_Index l \<in> set idxs
         \<and> l_Index l \<notin> onHost \<and> l_Index l \<notin> fst ` set (al_taken a)
         \<and> (\<forall>j \<in> set idxs. j < l_Index l \<longrightarrow> j \<in> onHost \<or> j \<in> fst ` set (al_taken a)))"
  using assms
proof (induction parse s onHost a idxs arbitrary: a' r rule: reserve_scan.induct)
  case (1 parse s onHost a)
  then show ?case by auto
next
  case (2 parse s onHost a i idxs)
  have srt: "sorted idxs" "distinct idxs" "\<forall>j \<in> set idxs. i < j" "\<forall>j \<in> set idxs. 0 \<le> j \<and> j \<le> MaxIndex"
    using "2.prems"(4,6,7) by (auto simp: less_le)
  show ?case
  proof (cases "map_of (al_taken a) i = None")
    case False
    then have "i \<in> fst ` set (al_taken a)" by (auto simp: map_of_eq_None_iff)
    then show ?thesis using "2.IH"(1) [OF False "2.prems"(1-3) srt(4) _ srt(1,2)] "2.prems"(5) False by auto
  next
    case None: True
    show ?thesis
    proof (cases "i \<in> onHost")
      case True
      let ?a = "a\<lparr>al_taken := (i, '''') # al_taken a\<rparr>"
      have ok: "alloc_ok ?a" using take_slot_ok [OF "2.prems"(1) None, of "''''"] "2.prems"(4) by simp
      have own: "owner_index ?a s = None" using "2.prems"(2,3) by (simp add: owner_index_None)
      have step: "reserve_scan parse s onHost ?a idxs = (a', r)" using "2.prems"(5) None True by simp
      note IH = "2.IH"(2) [OF _ True ok "2.prems"(2) own srt(4) step srt(1,2)]
      then obtain adopted where "al_taken a' = (case r of Inl e \<Rightarrow> [] | Inr l \<Rightarrow> [(l_Index l, s)]) @ map (\<lambda>i. (i, '''')) adopted @ al_taken ?a"
        using None by blast
      then have "al_taken a' = (case r of Inl e \<Rightarrow> [] | Inr l \<Rightarrow> [(l_Index l, s)]) @ map (\<lambda>i. (i, '''')) (adopted @ [i]) @ al_taken a"
        by simp
      moreover have "alloc_ok a' \<and> al_GuestCIDR a' = al_GuestCIDR a" using IH None by simp
      moreover have "\<forall>l. r = Inr l \<longrightarrow> LayoutFor parse (l_Index l) (al_GuestCIDR a) = Inr l \<and> l_Index l \<in> set (i # idxs)
         \<and> l_Index l \<notin> onHost \<and> l_Index l \<notin> fst ` set (al_taken a)
         \<and> (\<forall>j \<in> set (i # idxs). j < l_Index l \<longrightarrow> j \<in> onHost \<or> j \<in> fst ` set (al_taken a))"
        using IH None True by auto
      ultimately show ?thesis by blast
    next
      case False
      then show ?thesis
      proof (cases "LayoutFor parse i (al_GuestCIDR a)")
        case (Inl e)
        then have "a' = a" "r = Inl e" using "2.prems"(5) None False by auto
        then show ?thesis using "2.prems"(1) by simp
      next
        case (Inr l)
        have l: "l_Index l = i" using LayoutFor_Inr(3) [OF Inr] .
        have "alloc_ok (a\<lparr>al_taken := (i, s) # al_taken a\<rparr>)" using take_slot_ok [OF "2.prems"(1) None] "2.prems"(3,4) by simp
        moreover have "a' = a\<lparr>al_taken := (i, s) # al_taken a\<rparr>" "r = Inr l" using "2.prems"(5) None False Inr by auto
        moreover have "i \<notin> fst ` set (al_taken a)" using None by (simp add: map_of_eq_None_iff)
        ultimately show ?thesis using False Inr srt(3) l by (simp add: exI [of _ "[]"]) (auto intro: exI [of _ "[]"])
      qed
    qed
  qed
qed

definition listed :: "string list \<Rightarrow> int set" where
  "listed names = set (List.map_filter indexOfNetns names)"

lemma listed_layout: "LayoutFor parse i cidr = Inr l \<Longrightarrow> i \<notin> listed names \<Longrightarrow> l_Netns l \<notin> set names"
proof
  assume "LayoutFor parse i cidr = Inr l" "i \<notin> listed names" "l_Netns l \<in> set names"
  then show False using indexOfNetns_layout [of parse i cidr l] by (auto simp: listed_def List.map_filter_def image_iff)
qed

lemma slot_range: "set [0..MaxIndex] = {0..MaxIndex}" "sorted [0..MaxIndex]" "distinct [0..MaxIndex]"
  by simp_all

text \<open>A reservation for a sandbox without a slot, when the host lists its namespaces.\<close>

lemma Reserve_new:
  assumes "alloc_ok a" "s \<noteq> ''''" "owner_index a s = None" "Allocator_Reserve parse (Some (Inr names)) a s = (a', r)"
  shows "alloc_ok a' \<and> al_GuestCIDR a' = al_GuestCIDR a
    \<and> (\<exists>adopted. al_taken a' = (case r of Inl e \<Rightarrow> [] | Inr l \<Rightarrow> [(l_Index l, s)]) @ map (\<lambda>i. (i, '''')) adopted @ al_taken a)
    \<and> (\<forall>l. r = Inr l \<longrightarrow> LayoutFor parse (l_Index l) (al_GuestCIDR a) = Inr l \<and> l_Index l \<in> {0..MaxIndex}
         \<and> l_Index l \<notin> listed names \<and> l_Index l \<notin> fst ` set (al_taken a)
         \<and> (\<forall>j \<in> {0..MaxIndex}. j < l_Index l \<longrightarrow> j \<in> listed names \<or> j \<in> fst ` set (al_taken a)))"
proof -
  have "reserve_scan parse s (listed names) a [0..MaxIndex] = (a', r)"
    using assms(2-4) by (simp add: Allocator_Reserve_def hostIndices_def listed_def)
  from reserve_scan [OF assms(1-3) _ this slot_range(2,3)] show ?thesis unfolding slot_range(1) by simp
qed

text \<open>Any reservation: the invariant stays, adopted and held slots stay, and only this sandbox may gain one.\<close>

lemma Reserve_keeps:
  assumes "alloc_ok a" "Allocator_Reserve parse host a s = (a', r)"
  shows "alloc_ok a' \<and> al_GuestCIDR a' = al_GuestCIDR a \<and> set (al_taken a) \<subseteq> set (al_taken a')
    \<and> (\<forall>i t. (i, t) \<in> set (al_taken a') \<and> t \<noteq> '''' \<and> t \<noteq> s \<longrightarrow> (i, t) \<in> set (al_taken a))"
proof (cases "s = '''' \<or> owner_index a s \<noteq> None \<or> isl (hostIndices host)")
  case True
  then have "a' = a" using assms(2) by (auto simp: Allocator_Reserve_def split: if_splits option.splits sum.splits)
  then show ?thesis using assms(1) by simp
next
  case False
  then obtain onHost where h: "hostIndices host = Inr onHost" by (cases "hostIndices host") auto
  have "reserve_scan parse s onHost a [0..MaxIndex] = (a', r)"
    using False h assms(2) by (simp add: Allocator_Reserve_def)
  from reserve_scan [OF assms(1) _ _ _ this slot_range(2,3)] False show ?thesis
    by (auto split: sum.splits)
qed

lemma Release_keeps:
  assumes "alloc_ok a"
  shows "alloc_ok (Allocator_Release a s)" "al_GuestCIDR (Allocator_Release a s) = al_GuestCIDR a"
    "set (al_taken (Allocator_Release a s)) = {(i, t) \<in> set (al_taken a). t \<noteq> s \<or> s = ''''}"
proof -
  have "set (al_taken (Allocator_Release a s)) = {(i, t) \<in> set (al_taken a). t \<noteq> s \<or> s = ''''}
    \<and> distinct (map fst (al_taken (Allocator_Release a s))) \<and> al_GuestCIDR (Allocator_Release a s) = al_GuestCIDR a"
  proof (cases "s = '''' \<or> owner_index a s = None")
    case True
    moreover from this have "Allocator_Release a s = a" by (auto simp: Allocator_Release_def)
    ultimately show ?thesis using assms by (auto simp: alloc_ok_def owner_index_None)
  next
    case False
    then obtain i where i: "owner_index a s = Some i" by auto
    have mem: "(i, s) \<in> set (al_taken a)" by (rule owner_index_Some [OF i])
    have "t = s" if "(i, t) \<in> set (al_taken a)" for t
      using that mem assms by (meson alloc_ok_def eq_key_imp_eq_value)
    moreover have "j = i" if "(j, s) \<in> set (al_taken a)" for j
      using that owner_index_iff [OF assms, of s j] i False by simp
    moreover have "Allocator_Release a s = a\<lparr>al_taken := filter (\<lambda>(j, t). j \<noteq> i) (al_taken a)\<rparr>"
      using False i by (simp add: Allocator_Release_def)
    ultimately show ?thesis using assms False by (auto simp: alloc_ok_def distinct_map_filter)
  qed
  then show "alloc_ok (Allocator_Release a s)" "al_GuestCIDR (Allocator_Release a s) = al_GuestCIDR a"
    "set (al_taken (Allocator_Release a s)) = {(i, t) \<in> set (al_taken a). t \<noteq> s \<or> s = ''''}"
    using assms by (auto simp: alloc_ok_def)
qed

text \<open>
  The life of a node's network: any sequence of provisionings and deprovisionings, whatever the host
  answers, with the host also changing on its own in between.
\<close>

inductive net_steps :: "parse_cidr \<Rightarrow> 'h host_ops \<Rightarrow> Allocator \<Rightarrow> 'h \<Rightarrow> Allocator \<Rightarrow> 'h \<Rightarrow> bool" for parse ops a0 h0 where
  start: "net_steps parse ops a0 h0 a0 h0"
| host: "net_steps parse ops a0 h0 a h \<Longrightarrow> net_steps parse ops a0 h0 a h'"
| provision: "net_steps parse ops a0 h0 a h \<Longrightarrow> Provision parse ops a h s = (a', h', r) \<Longrightarrow> net_steps parse ops a0 h0 a' h'"
| deprovision: "net_steps parse ops a0 h0 a h \<Longrightarrow> Deprovision parse ops a h s = (a', h', e) \<Longrightarrow> net_steps parse ops a0 h0 a' h'"

lemma Provision_keeps:
  assumes "alloc_ok a" "Provision parse ops a h s = (a', h', r)"
  shows "alloc_ok a' \<and> al_GuestCIDR a' = al_GuestCIDR a \<and> (\<forall>i t. t \<noteq> s \<and> (i, t) \<in> set (al_taken a) \<longrightarrow> (i, t) \<in> set (al_taken a'))
    \<and> (\<forall>i t. t \<noteq> s \<and> t \<noteq> '''' \<and> (i, t) \<in> set (al_taken a') \<longrightarrow> (i, t) \<in> set (al_taken a))"
proof -
  obtain a1 r1 where r: "Allocator_Reserve parse (Some (h_List ops h)) a s = (a1, r1)" by (meson surj_pair)
  note k = Reserve_keeps [OF assms(1) r]
  have "a' = a1 \<or> a' = Allocator_Release a1 s" using assms(2) r
    by (auto simp: Provision_def split: sum.splits prod.splits option.splits)
  then show ?thesis using k Release_keeps [of a1 s] by auto
qed

lemma Deprovision_keeps:
  assumes "alloc_ok a" "Deprovision parse ops a h s = (a', h', e)"
  shows "alloc_ok a' \<and> al_GuestCIDR a' = al_GuestCIDR a \<and> (\<forall>i. (i, '''') \<in> set (al_taken a) \<longrightarrow> (i, '''') \<in> set (al_taken a'))"
proof -
  have "a' = a \<or> a' = Allocator_Release a s" using assms(2)
    by (auto simp: Deprovision_def split: prod.splits option.splits)
  then show ?thesis using assms(1) Release_keeps [OF assms(1), of s] by (auto simp: Allocator_Release_def)
qed

lemma net_steps_ok:
  "net_steps parse ops a0 h0 a h \<Longrightarrow> alloc_ok a0 \<Longrightarrow> alloc_ok a \<and> al_GuestCIDR a = al_GuestCIDR a0
     \<and> (\<forall>i. (i, '''') \<in> set (al_taken a0) \<longrightarrow> (i, '''') \<in> set (al_taken a))"
proof (induction rule: net_steps.induct)
  case (provision a h s a' h' r)
  then have ok: "alloc_ok a" by simp
  show ?case
  proof (cases "s = ''''")
    case True
    then have "a' = a" using provision.hyps(2) by (auto simp: Provision_def Allocator_Reserve_def split: prod.splits sum.splits)
    then show ?thesis using provision by simp
  next
    case False
    then show ?thesis using provision Provision_keeps [OF ok provision.hyps(2)] by auto
  qed
next
  case (deprovision a h s a' h' e)
  then show ?case using Deprovision_keeps [of a parse ops h s a' h' e] by auto
qed auto

lemma new_alloc_ok: "alloc_ok (NewAllocator cidr)"
  by (simp add: NewAllocator_def alloc_ok_def)

lemma LayoutOf_owner:
  assumes "Allocator_LayoutOf parse a s = Some l"
  shows "s \<noteq> ''''" "(l_Index l, s) \<in> set (al_taken a)" "LayoutFor parse (l_Index l) (al_GuestCIDR a) = Inr l"
proof -
  obtain i where i: "s \<noteq> ''''" "owner_index a s = Some i" "LayoutFor parse i (al_GuestCIDR a) = Inr l"
    using assms by (auto simp: Allocator_LayoutOf_def split: if_splits option.splits sum.splits)
  then show "s \<noteq> ''''" "(l_Index l, s) \<in> set (al_taken a)" "LayoutFor parse (l_Index l) (al_GuestCIDR a) = Inr l"
    using owner_index_Some [OF i(2)] LayoutFor_Inr(3) [OF i(3)] by simp_all
qed

text \<open>
  C9. No two sandboxes ever share network identity. In every state that a node's network can reach, by any
  sequence of provisionings and deprovisionings, with set-ups and tear-downs failing and the host changing
  as they may: two sandboxes that hold a slot have different namespaces, veth names, link addresses and
  link subnets; and a sandbox that gets a new slot gets one whose namespace the host did not have.
\<close>

theorem slots_exclusive:
  assumes "net_steps parse ops (NewAllocator cidr) h0 a h"
  shows "(s \<noteq> t \<and> Allocator_LayoutOf parse a s = Some ls \<and> Allocator_LayoutOf parse a t = Some lt \<longrightarrow>
       l_Netns ls \<noteq> l_Netns lt \<and> l_HostVeth ls \<noteq> l_HostVeth lt \<and> l_NetnsVeth ls \<noteq> l_NetnsVeth lt
       \<and> l_HostLinkIP ls \<noteq> l_HostLinkIP lt \<and> l_NetnsLinkIP ls \<noteq> l_NetnsLinkIP lt \<and> l_LinkSubnet ls \<noteq> l_LinkSubnet lt)
    \<and> (Allocator_LayoutOf parse a s = None \<and> Provision parse ops a h s = (a', h', Inr l) \<longrightarrow>
       (\<exists>names. h_List ops h = Inr names \<and> l_Netns l \<notin> set names))"
proof (intro conjI [OF impI impI])
  have ok: "alloc_ok a" using net_steps_ok [OF assms new_alloc_ok] by simp
  {
    assume *: "s \<noteq> t \<and> Allocator_LayoutOf parse a s = Some ls \<and> Allocator_LayoutOf parse a t = Some lt"
    then have ls: "(l_Index ls, s) \<in> set (al_taken a)" "LayoutFor parse (l_Index ls) (al_GuestCIDR a) = Inr ls"
      and lt: "(l_Index lt, t) \<in> set (al_taken a)" "LayoutFor parse (l_Index lt) (al_GuestCIDR a) = Inr lt"
      using LayoutOf_owner by blast+
    have "l_Index ls \<noteq> l_Index lt" using ls(1) lt(1) * ok by (metis alloc_ok_def eq_key_imp_eq_value)
    then show "l_Netns ls \<noteq> l_Netns lt \<and> l_HostVeth ls \<noteq> l_HostVeth lt \<and> l_NetnsVeth ls \<noteq> l_NetnsVeth lt
       \<and> l_HostLinkIP ls \<noteq> l_HostLinkIP lt \<and> l_NetnsLinkIP ls \<noteq> l_NetnsLinkIP lt \<and> l_LinkSubnet ls \<noteq> l_LinkSubnet lt"
      using layouts_differ [OF ls(2) lt(2)] by simp
  next
    assume *: "Allocator_LayoutOf parse a s = None \<and> Provision parse ops a h s = (a', h', Inr l)"
    then obtain a1 where r: "Allocator_Reserve parse (Some (h_List ops h)) a s = (a1, Inr l)"
      by (auto simp: Provision_def split: prod.splits sum.splits option.splits)
    have "s \<noteq> ''''" using r by (auto simp: Allocator_Reserve_def)
    moreover have "owner_index a s = None"
      using * r \<open>s \<noteq> ''''\<close> by (auto simp: Allocator_LayoutOf_def Allocator_Reserve_def split: option.splits sum.splits)
    moreover obtain names where n: "h_List ops h = Inr names"
      using r calculation by (cases "h_List ops h") (auto simp: Allocator_Reserve_def hostIndices_def)
    ultimately have "l_Index l \<notin> listed names" "LayoutFor parse (l_Index l) (al_GuestCIDR a) = Inr l"
      using Reserve_new [OF ok _ _ r [unfolded n]] by auto
    then show "\<exists>names. h_List ops h = Inr names \<and> l_Netns l \<notin> set names" using n listed_layout by blast
  }
qed

lemma scan_succeeds:
  "\<forall>k \<in> set idxs. \<exists>l. LayoutFor parse k (al_GuestCIDR a) = Inr l \<Longrightarrow> i \<in> set idxs \<Longrightarrow> distinct idxs
    \<Longrightarrow> i \<notin> fst ` set (al_taken a) \<Longrightarrow> i \<notin> onHost \<Longrightarrow> \<exists>a' l. reserve_scan parse s onHost a idxs = (a', Inr l)"
proof (induction parse s onHost a idxs rule: reserve_scan.induct)
  case (2 parse s onHost a k idxs)
  then obtain l where l: "LayoutFor parse k (al_GuestCIDR a) = Inr l" by auto
  show ?case
  proof (cases "map_of (al_taken a) k = None")
    case False
    then have "k \<in> fst ` set (al_taken a)" by (auto simp: map_of_eq_None_iff)
    then have "i \<in> set idxs" using "2.prems" by auto
    then show ?thesis using "2.IH"(1) [OF False] "2.prems" False by auto
  next
    case None: True
    show ?thesis
    proof (cases "k \<in> onHost")
      case True
      then have "i \<in> set idxs" "i \<noteq> k" using "2.prems" by auto
      then show ?thesis using "2.IH"(2) [OF _ True] "2.prems" None True by auto
    next
      case False
      then show ?thesis using None l by simp
    qed
  qed
qed simp

text \<open>
  C21. A create is refused an address only when there is none. For a sandbox without a slot, on a node whose
  host lists its namespaces and whose guest subnet is usable, reserving succeeds whenever some slot is
  neither taken nor on the host, and hands out the lowest such slot.
\<close>

theorem reserve_lowest_free:
  assumes "net_steps parse ops (NewAllocator cidr) h0 a h" "h_List ops h = Inr names"
    and "s \<noteq> ''''" "Allocator_LayoutOf parse a s = None" "LayoutFor parse 0 cidr = Inr l0"
    and "0 \<le> i" "i \<le> MaxIndex" "i \<notin> listed names" "i \<notin> fst ` set (al_taken a)"
  shows "\<exists>a' l. Allocator_Reserve parse (Some (h_List ops h)) a s = (a', Inr l) \<and> Allocator_LayoutOf parse a' s = Some l
    \<and> l_Index l \<le> i \<and> (\<forall>j. 0 \<le> j \<and> j < l_Index l \<longrightarrow> j \<in> listed names \<or> j \<in> fst ` set (al_taken a))"
proof -
  have ok: "alloc_ok a" and cidr: "al_GuestCIDR a = cidr"
    using net_steps_ok [OF assms(1) new_alloc_ok] by (simp_all add: NewAllocator_def)
  have valid: "\<exists>l. LayoutFor parse k cidr = Inr l" if "0 \<le> k" "k \<le> MaxIndex" for k
    using LayoutFor_other [OF assms(5) that] .
  have own: "owner_index a s = None"
  proof (rule ccontr)
    assume "owner_index a s \<noteq> None"
    then obtain k where k: "owner_index a s = Some k" by auto
    then have "0 \<le> k \<and> k \<le> MaxIndex" using owner_index_Some [OF k] ok by (auto simp: alloc_ok_def)
    with valid [of k] k assms(3,4) cidr show False by (auto simp: Allocator_LayoutOf_def)
  qed
  obtain a' r where r: "Allocator_Reserve parse (Some (Inr names)) a s = (a', r)" by (meson surj_pair)
  have "\<exists>b l. reserve_scan parse s (listed names) a [0..MaxIndex] = (b, Inr l)"
    using valid cidr assms(6-9) by (intro scan_succeeds [where i = i]) simp_all
  then obtain l where l: "r = Inr l"
    using r assms(3) own by (auto simp: Allocator_Reserve_def hostIndices_def listed_def)
  note new = Reserve_new [OF ok assms(3) own r]
  have le: "l_Index l \<le> i" using new l assms(6-9) by force
  have "owner_index a' s = Some (l_Index l)" using new l by (auto simp: owner_index_def)
  then have "Allocator_LayoutOf parse a' s = Some l" using new l assms(3) by (simp add: Allocator_LayoutOf_def)
  moreover have "\<forall>j. 0 \<le> j \<and> j < l_Index l \<longrightarrow> j \<in> listed names \<or> j \<in> fst ` set (al_taken a)"
    using new l by auto
  ultimately show ?thesis using r l le assms(2) by auto
qed

section \<open>A small host\<close>

text \<open>A host that is just its list of namespaces, and a guest subnet, for the examples.\<close>

definition example_parse :: parse_cidr where
  "example_parse s = Inr \<lparr>n_IP = [172, 31, 0, 0], n_ones = 30, n_bits = 32\<rparr>"

definition example_ops :: "string list host_ops" where
  "example_ops = \<lparr>h_List = Inr, h_Setup = (\<lambda>l h. (l_Netns l # h, None)), h_Teardown = (\<lambda>l h. (removeAll (l_Netns l) h, None))\<rparr>"

lemma slots_head: "[0..MaxIndex] = 0 # 1 # 2 # [3..MaxIndex]"
proof -
  have "[0..MaxIndex] = 0 # [1..MaxIndex]" "[1..MaxIndex] = 1 # [2..MaxIndex]" "[2..MaxIndex] = 2 # [3..MaxIndex]"
    by (subst upto.simps, simp add: MaxIndex_def)+
  then show ?thesis by simp
qed

lemma example_layout: "0 \<le> i \<Longrightarrow> i \<le> MaxIndex \<Longrightarrow> \<exists>l. LayoutFor example_parse i cidr = Inr l \<and> l_Index l = i \<and> l_Netns l = ''bean-'' @ dec (nat i)"
  by (simp add: LayoutFor_def example_parse_def To4_def Let_def netnsPrefix_def)


lemma example_index: "indexOfNetns ''bean-0'' = Some 0" "indexOfNetns ''bean-1'' = Some 1"
  by code_simp+

text \<open>A sandbox's namespace is left on the host; the next one adopts slot 0 and gets slot 1.\<close>

lemma example_provisioned:
  "\<exists>a. net_steps example_parse example_ops (NewAllocator c) [''bean-0''] a [''bean-1'', ''bean-0''] \<and> al_GuestCIDR a = c
     \<and> al_taken a = [(1, ''sb1''), (0, '''')]"
proof -
  let ?a = "\<lparr>al_GuestCIDR = c, al_taken = [(1, ''sb1''), (0, '''')]\<rparr>"
  have "dec (nat 1) = ''1''" by code_simp
  then obtain l where l: "LayoutFor example_parse 1 c = Inr l" "l_Netns l = ''bean-1''"
    using example_layout [of 1 c] by (auto simp: MaxIndex_def)
  have "Provision example_parse example_ops (NewAllocator c) [''bean-0''] ''sb1'' = (?a, [''bean-1'', ''bean-0''], Inr l)"
    using l by (simp add: Provision_def Allocator_Reserve_def owner_index_def NewAllocator_def example_ops_def hostIndices_def
        List.map_filter_def example_index slots_head)
  then have "net_steps example_parse example_ops (NewAllocator c) [''bean-0''] ?a [''bean-1'', ''bean-0'']"
    by (rule net_steps.provision [OF net_steps.start])
  then show ?thesis by auto
qed

theorem slots_exclusive_witness:
  "\<exists>a ls lt. Allocator_LayoutOf example_parse a ''sb1'' = Some ls \<and> Allocator_LayoutOf example_parse a ''sb2'' = Some lt
     \<and> l_Netns ls \<noteq> l_Netns lt \<and> l_HostLinkIP ls \<noteq> l_HostLinkIP lt"
proof -
  obtain a where a: "net_steps example_parse example_ops (NewAllocator ''g'') [''bean-0''] a [''bean-1'', ''bean-0'']"
    "al_GuestCIDR a = ''g''" "al_taken a = [(1, ''sb1''), (0, '''')]" using example_provisioned by blast
  obtain l1 l2 where l: "LayoutFor example_parse 1 ''g'' = Inr l1" "LayoutFor example_parse 2 ''g'' = Inr l2"
    using example_layout [of 1 "''g''"] example_layout [of 2 "''g''"] by (auto simp: MaxIndex_def)
  let ?b = "a\<lparr>al_taken := (2, ''sb2'') # al_taken a\<rparr>"
  have p: "Provision example_parse example_ops a [''bean-1'', ''bean-0''] ''sb2'' = (?b, l_Netns l2 # [''bean-1'', ''bean-0''], Inr l2)"
    using a(2,3) l by (simp add: Provision_def Allocator_Reserve_def owner_index_def example_ops_def hostIndices_def
        List.map_filter_def example_index slots_head)
  have "net_steps example_parse example_ops (NewAllocator ''g'') [''bean-0''] ?b (l_Netns l2 # [''bean-1'', ''bean-0''])"
    by (rule net_steps.provision [OF a(1) p])
  moreover have "Allocator_LayoutOf example_parse ?b ''sb1'' = Some l1" "Allocator_LayoutOf example_parse ?b ''sb2'' = Some l2"
    using a(2,3) l by (simp_all add: Allocator_LayoutOf_def owner_index_def)
  ultimately show ?thesis
    using slots_exclusive [of example_parse example_ops "''g''" "[''bean-0'']" ?b "l_Netns l2 # [''bean-1'', ''bean-0'']" "''sb1''" "''sb2''" l1 l2]
    by auto
qed

theorem reserve_lowest_free_witness:
  "\<exists>a a' l. al_taken a = [(1, ''sb1''), (0, '''')] \<and> Allocator_Reserve example_parse (Some (Inr [''bean-1'', ''bean-0''])) a ''sb2'' = (a', Inr l)
     \<and> l_Index l \<le> 5"
proof -
  obtain a where a: "net_steps example_parse example_ops (NewAllocator ''g'') [''bean-0''] a [''bean-1'', ''bean-0'']"
    "al_GuestCIDR a = ''g''" "al_taken a = [(1, ''sb1''), (0, '''')]" using example_provisioned by blast
  have h: "h_List example_ops [''bean-1'', ''bean-0''] = Inr [''bean-1'', ''bean-0'']" by (simp add: example_ops_def)
  obtain l0 where "LayoutFor example_parse 0 ''g'' = Inr l0" using example_layout [of 0 "''g''"] by (auto simp: MaxIndex_def)
  from reserve_lowest_free [OF a(1) h _ _ this, of "''sb2''" 5] a(2,3) show ?thesis
    by (auto simp: Allocator_LayoutOf_def owner_index_def listed_def List.map_filter_def example_index MaxIndex_def h)
qed

text \<open>
  C39. A slot that is adopted is lost for good. Once a reservation has found a slot's namespace on the host
  and adopted it, no later provisioning ever hands that slot out again, even after the namespace is gone
  from the host: nothing releases a slot without an owner.
\<close>

theorem adopted_slot_lost:
  assumes "net_steps parse ops (NewAllocator cidr) h0 a1 h1" "(i, '''') \<in> set (al_taken a1)" "net_steps parse ops a1 h1 a h"
  shows "Provision parse ops a h s = (a', h', Inr l) \<longrightarrow> l_Index l \<noteq> i"
proof
  assume p: "Provision parse ops a h s = (a', h', Inr l)"
  have ok1: "alloc_ok a1" using net_steps_ok [OF assms(1) new_alloc_ok] by simp
  have ok: "alloc_ok a" "(i, '''') \<in> set (al_taken a)" using net_steps_ok [OF assms(3) ok1] assms(2) by auto
  obtain a2 where r: "Allocator_Reserve parse (Some (h_List ops h)) a s = (a2, Inr l)"
    using p by (auto simp: Provision_def split: prod.splits sum.splits option.splits)
  have s: "s \<noteq> ''''" using r by (auto simp: Allocator_Reserve_def)
  have "(l_Index l, s) \<in> set (al_taken a2)"
  proof (cases "owner_index a s")
    case (Some k)
    then have "LayoutFor parse k (al_GuestCIDR a) = Inr l" "a2 = a" using r s by (auto simp: Allocator_Reserve_def)
    then show ?thesis using owner_index_Some [OF Some] LayoutFor_Inr(3) by metis
  next
    case None
    obtain names where n: "h_List ops h = Inr names"
      using r s None by (cases "h_List ops h") (auto simp: Allocator_Reserve_def hostIndices_def)
    show ?thesis using Reserve_new [OF ok(1) s None r [unfolded n]] by auto
  qed
  moreover have "(i, '''') \<in> set (al_taken a2)" "alloc_ok a2" using Reserve_keeps [OF ok(1) r] ok(2) by auto
  ultimately show "l_Index l \<noteq> i" using s by (metis alloc_ok_def eq_key_imp_eq_value)
qed

theorem adopted_slot_lost_witness:
  "\<exists>a a' h' l. (0, '''') \<in> set (al_taken a) \<and> Provision example_parse example_ops a [] ''sb2'' = (a', h', Inr l) \<and> l_Index l \<noteq> 0"
proof -
  obtain a where a: "net_steps example_parse example_ops (NewAllocator ''g'') [''bean-0''] a [''bean-1'', ''bean-0'']"
    "al_GuestCIDR a = ''g''" "al_taken a = [(1, ''sb1''), (0, '''')]" using example_provisioned by blast
  obtain l2 where l: "LayoutFor example_parse 2 ''g'' = Inr l2" using example_layout [of 2 "''g''"] by (auto simp: MaxIndex_def)
  have p: "Provision example_parse example_ops a [] ''sb2'' = (a\<lparr>al_taken := (2, ''sb2'') # al_taken a\<rparr>, [l_Netns l2], Inr l2)"
    using a(2,3) l by (simp add: Provision_def Allocator_Reserve_def owner_index_def example_ops_def hostIndices_def
        List.map_filter_def slots_head)
  have "net_steps example_parse example_ops a [''bean-1'', ''bean-0''] a []" by (rule net_steps.host [OF net_steps.start])
  from adopted_slot_lost [OF a(1) _ this, of 0] a(3) p have "l_Index l2 \<noteq> 0" by simp
  moreover have "(0, '''') \<in> set (al_taken a)" using a(3) by simp
  ultimately show ?thesis using p by blast
qed

section \<open>The guest subnet is free\<close>

definition v4_net :: "IPNet \<Rightarrow> bool" where
  "v4_net n \<longleftrightarrow> length (n_IP n) = 4 \<and> n_bits n = 32 \<and> n_ones n \<le> 32"

definition net_mask :: "IPNet \<Rightarrow> byte list" where
  "net_mask n = CIDRMask (n_ones n) 32"

lemma Contains_v4:
  assumes "v4_net n" "length a = 4"
  shows "Contains n a \<longleftrightarrow> (\<forall>i < 4. n_IP n ! i AND net_mask n ! i = a ! i AND net_mask n ! i)"
proof -
  have "networkNumberAndMask n = Some (n_IP n, net_mask n)"
    using assms(1) by (simp add: v4_net_def networkNumberAndMask_def To4_def net_mask_def CIDRMask_def)
  then show ?thesis using assms by (auto simp: Contains_def To4_def v4_net_def list_all_iff)
qed

text \<open>The mask of the longer prefix covers that of the shorter one.\<close>

lemma mask_byte_nested: "j \<le> k \<Longrightarrow> mask_byte j AND mask_byte k = mask_byte j"
proof -
  have ones: "(255 :: byte) = - 1" by simp
  show "j \<le> k \<Longrightarrow> ?thesis" unfolding mask_byte_def ones by (intro bit_eqI) (auto simp: bit_simps)
qed

lemma net_mask_nested: "n_ones a \<le> n_ones b \<Longrightarrow> i < 4 \<Longrightarrow> net_mask a ! i AND net_mask b ! i = net_mask a ! i"
  by (simp add: net_mask_def CIDRMask_def mask_byte_nested diff_le_mono)

lemma common_address:
  assumes "v4_net a" "v4_net b" "n_ones a \<le> n_ones b" "length x = 4" "Contains a x" "Contains b x"
  shows "Contains a (n_IP b)"
proof -
  have "n_IP a ! i AND net_mask a ! i = n_IP b ! i AND net_mask a ! i" if i: "i < 4" for i
  proof -
    let ?m = "net_mask a ! i" and ?k = "net_mask b ! i"
    have m: "?m = ?k AND ?m" using net_mask_nested [OF assms(3) i] by (simp add: and.commute)
    have "n_IP a ! i AND ?m = x ! i AND ?m" using assms(1,4,5) i by (simp add: Contains_v4)
    also have "\<dots> = (x ! i AND ?k) AND ?m" using m by (metis and.assoc)
    also have "\<dots> = (n_IP b ! i AND ?k) AND ?m" using assms(2,4,6) i by (simp add: Contains_v4)
    also have "\<dots> = n_IP b ! i AND ?m" using m by (metis and.assoc)
    finally show ?thesis .
  qed
  then show ?thesis using assms(1,2) Contains_v4 by (simp add: v4_net_def)
qed

lemma overlap_common:
  assumes "v4_net a" "v4_net b"
  shows "netsOverlap a b \<longleftrightarrow> (\<exists>x. length x = 4 \<and> Contains a x \<and> Contains b x)"
proof
  have self: "Contains n (n_IP n)" if "v4_net n" for n using that Contains_v4 [of n "n_IP n"] by (simp add: v4_net_def)
  assume "netsOverlap a b"
  then show "\<exists>x. length x = 4 \<and> Contains a x \<and> Contains b x"
    using self [OF assms(1)] self [OF assms(2)] assms by (auto simp: netsOverlap_def v4_net_def)
next
  assume "\<exists>x. length x = 4 \<and> Contains a x \<and> Contains b x"
  then show "netsOverlap a b"
    using common_address [OF assms] common_address [OF assms(2,1)] unfolding netsOverlap_def by (meson linear)
qed

definition default_route :: "string \<Rightarrow> bool" where
  "default_route dst \<longleftrightarrow> dst = '''' \<or> dst = ''default'' \<or> dst = ''0.0.0.0/0'' \<or> dst = ''::/0''"

lemma check_routes_None:
  "check_routes parse cidr g ds = None \<longleftrightarrow>
    (\<forall>d \<in> set ds. \<not> default_route (TrimSpace d) \<longrightarrow> (\<forall>n. parse (TrimSpace d) = Inr n \<longrightarrow> \<not> netsOverlap g n))"
  by (induction parse cidr g ds rule: check_routes.induct) (auto simp: default_route_def Let_def split: sum.splits)


definition example_routes :: parse_cidr where
  "example_routes s =
     (if s = ''172.16.0.0/12'' then Inr \<lparr>n_IP = [172, 16, 0, 0], n_ones = 12, n_bits = 32\<rparr>
      else if s = ''172.31.0.0/30'' then Inr \<lparr>n_IP = [172, 31, 0, 0], n_ones = 30, n_bits = 32\<rparr>
      else Inl (Errorf ''invalid CIDR address'' []))"


end
