(* ===== verification/NetRules.thy ===== *)
theory NetRules
  imports NetAlloc "HOL-Library.AList"
begin

text \<open>
  The packet filter and NAT rules of a sandbox (\<^verbatim>\<open>src/internal/node/network/rules.go\<close>), their rendering as
  \<^verbatim>\<open>iptables-restore\<close> scripts (\<^verbatim>\<open>restore.go\<close>) and the set-up and tear-down that run them
  (\<^verbatim>\<open>setup_linux.go\<close>). Running a command on the host is an argument (\<open>commander\<close>). What the rules mean
  is stated against the documented behaviour of \<^verbatim>\<open>iptables\<close>: \<^verbatim>\<open>-I chain 1\<close> puts a rule at the head of a
  chain, \<^verbatim>\<open>-A\<close> at its end, \<^verbatim>\<open>-D\<close> removes the first equal rule, a packet takes the target of the first
  rule that matches it, and a \<^verbatim>\<open>--noflush\<close> restore script applies its lines table by table.
\<close>

section \<open>Rules\<close>

definition deniedDestinations :: "string list" where
  "deniedDestinations = [''169.254.0.0/16'', ''10.0.0.0/8'', ''172.16.0.0/12'', ''192.168.0.0/16'']"

datatype Op = OpInsert | OpAppend | OpDelete | OpOther string

datatype Scope = ScopeNetns | ScopeHost

record Rule =
  r_Scope :: Scope
  r_Table :: string
  r_Chain :: string
  r_Op :: Op
  r_Match :: "string list"

definition Rule_Args :: "Rule \<Rightarrow> string list" where
  "Rule_Args r = [''-t'', r_Table r]
     @ (case r_Op r of
          OpInsert \<Rightarrow> [''-I'', r_Chain r, ''1'']
        | OpAppend \<Rightarrow> [''-A'', r_Chain r]
        | OpDelete \<Rightarrow> [''-D'', r_Chain r]
        | OpOther s \<Rightarrow> [''--unknown-op-'' @ s, r_Chain r])
     @ r_Match r"

definition Rule_Delete :: "Rule \<Rightarrow> Rule" where
  "Rule_Delete r = r\<lparr>r_Op := OpDelete\<rparr>"

fun Join :: "string list \<Rightarrow> string \<Rightarrow> string" where
  "Join [] sep = ''''"
| "Join [s] sep = s"
| "Join (s # t # ss) sep = s @ sep @ Join (t # ss) sep"

definition Scope_string :: "Scope \<Rightarrow> string" where
  "Scope_string s = (case s of ScopeNetns \<Rightarrow> ''netns'' | ScopeHost \<Rightarrow> ''host'')"

definition Rule_String :: "Rule \<Rightarrow> string" where
  "Rule_String r = Scope_string (r_Scope r) @ '': iptables '' @ Join (Rule_Args r) '' ''"

definition tableFilter :: string where "tableFilter = ''filter''"
definition tableNat :: string where "tableNat = ''nat''"
definition chainForward :: string where "chainForward = ''FORWARD''"
definition chainPostrouting :: string where "chainPostrouting = ''POSTROUTING''"
definition targetDrop :: string where "targetDrop = ''DROP''"
definition targetAccept :: string where "targetAccept = ''ACCEPT''"
definition targetMasquerade :: string where "targetMasquerade = ''MASQUERADE''"

definition SetupPlan :: "Layout option \<Rightarrow> string \<Rightarrow> go_error + Rule list" where
  "SetupPlan l uplink =
     (case l of
        None \<Rightarrow> Inl (Errorf ''no layout'' [])
      | Some l \<Rightarrow>
          if uplink = '''' then Inl (Errorf ''uplink interface required to build NAT rules'' [])
          else let guest = Layout_GuestSubnetCIDR l; link = Layout_LinkCIDR l
               in Inr (map (\<lambda>dst. \<lparr>r_Scope = ScopeNetns, r_Table = tableFilter, r_Chain = chainForward, r_Op = OpInsert,
                                   r_Match = [''-s'', guest, ''-d'', dst, ''-j'', targetDrop]\<rparr>) deniedDestinations
                 @ [\<lparr>r_Scope = ScopeNetns, r_Table = tableFilter, r_Chain = chainForward, r_Op = OpAppend,
                     r_Match = [''-s'', guest, ''-j'', targetAccept]\<rparr>,
                    \<lparr>r_Scope = ScopeNetns, r_Table = tableNat, r_Chain = chainPostrouting, r_Op = OpAppend,
                     r_Match = [''-s'', guest, ''-o'', l_NetnsVeth l, ''-j'', targetMasquerade]\<rparr>,
                    \<lparr>r_Scope = ScopeHost, r_Table = tableFilter, r_Chain = chainForward, r_Op = OpInsert,
                     r_Match = [''-s'', link, ''-j'', targetAccept]\<rparr>,
                    \<lparr>r_Scope = ScopeHost, r_Table = tableFilter, r_Chain = chainForward, r_Op = OpInsert,
                     r_Match = [''-d'', link, ''-j'', targetAccept]\<rparr>]
                 @ map (\<lambda>dst. \<lparr>r_Scope = ScopeHost, r_Table = tableFilter, r_Chain = chainForward, r_Op = OpInsert,
                                r_Match = [''-s'', link, ''-d'', dst, ''-j'', targetDrop]\<rparr>) deniedDestinations
                 @ [\<lparr>r_Scope = ScopeHost, r_Table = tableNat, r_Chain = chainPostrouting, r_Op = OpAppend,
                     r_Match = [''-s'', link, ''-o'', uplink, ''-j'', targetMasquerade]\<rparr>]))"

definition TeardownPlan :: "Layout option \<Rightarrow> string \<Rightarrow> go_error + Rule list" where
  "TeardownPlan l uplink =
     (case SetupPlan l uplink of Inl e \<Rightarrow> Inl e | Inr setup \<Rightarrow> Inr (map Rule_Delete (rev setup)))"

section \<open>Restore scripts\<close>

record restoreBatch =
  b_Scope :: Scope
  b_Rules :: "Rule list"

definition add_to_batches :: "restoreBatch list \<Rightarrow> Rule \<Rightarrow> restoreBatch list" where
  "add_to_batches bs r =
     (if bs \<noteq> [] \<and> b_Scope (last bs) = r_Scope r
      then butlast bs @ [(last bs)\<lparr>b_Rules := b_Rules (last bs) @ [r]\<rparr>]
      else bs @ [\<lparr>b_Scope = r_Scope r, b_Rules = [r]\<rparr>])"

definition batchRules :: "Rule list \<Rightarrow> restoreBatch list" where
  "batchRules rules = foldl add_to_batches [] rules"

definition restoreLine :: "Rule \<Rightarrow> string" where
  "restoreLine r =
     (let args = Rule_Args r;
          args = (if length args \<ge> 2 \<and> args ! 0 = ''-t'' then drop 2 args else args)
      in Join args '' '')"

text \<open>The tables in the order first seen and the lines of each, as the loop of \<^verbatim>\<open>restoreScript\<close> collects them.\<close>

definition add_line :: "string list \<times> (string, string list) gomap \<Rightarrow> Rule \<Rightarrow> string list \<times> (string, string list) gomap" where
  "add_line st r =
     (case st of (tables, byTable) \<Rightarrow>
        (if map_of byTable (r_Table r) = None then tables @ [r_Table r] else tables,
         AList.update (r_Table r) (go_get [] byTable (r_Table r) @ [restoreLine r]) byTable))"

definition restoreScript :: "restoreBatch \<Rightarrow> string" where
  "restoreScript b =
     (case foldl add_line ([], []) (b_Rules b) of (tables, byTable) \<Rightarrow>
        concat (map (\<lambda>t. CHR ''*'' # t @ [CHR 0x0A]
                        @ concat (map (\<lambda>line. line @ [CHR 0x0A]) (go_get [] byTable t))
                        @ ''COMMIT'' @ [CHR 0x0A]) tables))"

definition iptablesLockWaitSeconds :: string where "iptablesLockWaitSeconds = ''5''"

definition restoreArgs :: "Scope \<Rightarrow> string \<Rightarrow> string list" where
  "restoreArgs scope netns =
     (let args = [''--noflush'', ''-w'', iptablesLockWaitSeconds]
      in if scope = ScopeNetns then [''ip'', ''netns'', ''exec'', netns, ''iptables-restore''] @ args
         else ''iptables-restore'' # args)"

definition iptArgs :: "string \<Rightarrow> Rule \<Rightarrow> string list" where
  "iptArgs netns r =
     (let args = [''-w'', iptablesLockWaitSeconds] @ Rule_Args r
      in if r_Scope r = ScopeNetns then [''ip'', ''netns'', ''exec'', netns, ''iptables''] @ args
         else ''iptables'' # args)"

section \<open>Running them\<close>

record 'k commander =
  c_Run :: "string list \<Rightarrow> 'k \<Rightarrow> 'k \<times> go_error option"
  c_RunInput :: "string \<Rightarrow> string list \<Rightarrow> 'k \<Rightarrow> 'k \<times> go_error option"
  c_Output :: "string list \<Rightarrow> 'k \<Rightarrow> go_error + string"

definition build_steps :: "Layout \<Rightarrow> string list list" where
  "build_steps l =
     (let ns = l_Netns l; inside = (\<lambda>cmd. [''ip'', ''netns'', ''exec'', ns] @ cmd)
      in [[''ip'', ''netns'', ''add'', ns],
          inside [''ip'', ''tuntap'', ''add'', ''name'', l_TapName l, ''mode'', ''tap''],
          inside [''ip'', ''addr'', ''add'', Layout_GatewayCIDR l, ''dev'', l_TapName l],
          inside [''ip'', ''link'', ''set'', l_TapName l, ''up''],
          inside [''ip'', ''link'', ''set'', ''lo'', ''up''],
          [''ip'', ''link'', ''add'', l_HostVeth l, ''type'', ''veth'', ''peer'', ''name'', l_NetnsVeth l],
          [''ip'', ''link'', ''set'', l_NetnsVeth l, ''netns'', ns],
          [''ip'', ''addr'', ''add'', Layout_HostLinkCIDR l, ''dev'', l_HostVeth l],
          [''ip'', ''link'', ''set'', l_HostVeth l, ''up''],
          inside [''ip'', ''addr'', ''add'', Layout_NetnsLinkCIDR l, ''dev'', l_NetnsVeth l],
          inside [''ip'', ''link'', ''set'', l_NetnsVeth l, ''up''],
          inside [''ip'', ''route'', ''add'', ''default'', ''via'', ip_string (l_HostLinkIP l)],
          inside [''sysctl'', ''-q'', ''-w'', ''net.ipv4.ip_forward=1'']])"

fun run_steps :: "'k commander \<Rightarrow> string \<Rightarrow> string list list \<Rightarrow> 'k \<Rightarrow> 'k \<times> go_error option" where
  "run_steps c ns [] k = (k, None)"
| "run_steps c ns (step # steps) k =
     (case c_Run c step k of
        (k, Some e) \<Rightarrow> (k, Some (Wrapf ''setup %s'' [AStr ns] e))
      | (k, None) \<Rightarrow> run_steps c ns steps k)"

fun run_batches :: "'k commander \<Rightarrow> string \<Rightarrow> restoreBatch list \<Rightarrow> 'k \<Rightarrow> 'k \<times> go_error option" where
  "run_batches c ns [] k = (k, None)"
| "run_batches c ns (b # bs) k =
     (case c_RunInput c (restoreScript b) (restoreArgs (b_Scope b) ns) k of
        (k, Some e) \<Rightarrow> (k, Some (Wrapf ''apply %d %s rule(s) for %s''
                                  [AInt (int (length (b_Rules b))), AStr (Scope_string (b_Scope b)), AStr ns] e))
      | (k, None) \<Rightarrow> run_batches c ns bs k)"

definition LinuxSetup_build :: "'k commander \<Rightarrow> Layout \<Rightarrow> Rule list \<Rightarrow> 'k \<Rightarrow> 'k \<times> go_error option" where
  "LinuxSetup_build c l rules k =
     (case run_steps c (l_Netns l) (build_steps l) k of
        (k, Some e) \<Rightarrow> (k, Some e)
      | (k, None) \<Rightarrow> run_batches c (l_Netns l) (batchRules rules) k)"

definition ListNamespaces :: "'k commander \<Rightarrow> 'k \<Rightarrow> go_error + string list" where
  "ListNamespaces c k =
     (case c_Output c [''ip'', ''-o'', ''netns'', ''list''] k of
        Inl e \<Rightarrow> Inl (Wrapf ''ip netns list'' [] e)
      | Inr out \<Rightarrow> Inr (concat (map (\<lambda>line. take 1 (Fields (TrimSpace line))) (split_on (CHR 0x0A) out))))"

definition namespaceExists :: "'k commander \<Rightarrow> string \<Rightarrow> 'k \<Rightarrow> bool" where
  "namespaceExists c ns k = (case ListNamespaces c k of Inl e \<Rightarrow> False | Inr names \<Rightarrow> ns \<in> set names)"

text \<open>The deletes of \<^verbatim>\<open>Teardown\<close>; \<open>first\<close> is the first error noted.\<close>

fun run_deletes :: "'k commander \<Rightarrow> string \<Rightarrow> Rule list \<Rightarrow> 'k \<Rightarrow> go_error option \<Rightarrow> 'k \<times> go_error option" where
  "run_deletes c ns [] k first = (k, first)"
| "run_deletes c ns (r # rs) k first =
     (case c_Run c (iptArgs ns r) k of
        (k, Some e) \<Rightarrow> run_deletes c ns rs k
            (if r_Scope r = ScopeHost \<and> first = None then Some (Wrapf ''remove %s'' [AStr (Rule_String r)] e) else first)
      | (k, None) \<Rightarrow> run_deletes c ns rs k first)"

definition LinuxSetup_Teardown :: "'k commander \<Rightarrow> string \<Rightarrow> Layout \<Rightarrow> 'k \<Rightarrow> 'k \<times> go_error option" where
  "LinuxSetup_Teardown c uplink l k =
     (case TeardownPlan (Some l) uplink of
        Inl e \<Rightarrow> (k, Some e)
      | Inr rules \<Rightarrow>
          (case run_deletes c (l_Netns l) rules k None of (k, first) \<Rightarrow>
             let k = fst (c_Run c [''ip'', ''link'', ''del'', l_HostVeth l] k)
             in case c_Run c [''ip'', ''netns'', ''del'', l_Netns l] k of
                  (k, None) \<Rightarrow> (k, first)
                | (k, Some e) \<Rightarrow>
                    (k, if namespaceExists c (l_Netns l) k \<and> first = None
                        then Some (Wrapf ''delete namespace %s'' [AStr (l_Netns l)] e) else first)))"

definition LinuxSetup_Setup :: "'k commander \<Rightarrow> string \<Rightarrow> Layout \<Rightarrow> 'k \<Rightarrow> 'k \<times> go_error option" where
  "LinuxSetup_Setup c uplink l k =
     (case SetupPlan (Some l) uplink of
        Inl e \<Rightarrow> (k, Some e)
      | Inr rules \<Rightarrow>
          (case LinuxSetup_build c l rules k of
             (k, Some e) \<Rightarrow> (fst (LinuxSetup_Teardown c uplink l k), Some e)
           | (k, None) \<Rightarrow> (k, None)))"

definition route_skip :: "string list" where
  "route_skip = [''blackhole'', ''unreachable'', ''prohibit'', ''throw'', ''local'', ''broadcast'', ''multicast'', ''anycast'', ''unicast'', ''nat'']"

definition route_dst :: "string list \<Rightarrow> string option" where
  "route_dst fs =
     (case fs of
        [] \<Rightarrow> None
      | dst # rest \<Rightarrow>
          if dst \<in> set route_skip then (case rest of [] \<Rightarrow> None | d # _ \<Rightarrow> Some d)
          else if dst = ''nexthop'' then None else Some dst)"

definition ListRoutes :: "'k commander \<Rightarrow> 'k \<Rightarrow> go_error + string list" where
  "ListRoutes c k =
     (case c_Output c [''ip'', ''-4'', ''-o'', ''route'', ''list''] k of
        Inl e \<Rightarrow> Inl (Wrapf ''ip route list'' [] e)
      | Inr out \<Rightarrow> Inr (List.map_filter (\<lambda>line. route_dst (Fields (TrimSpace line))) (split_on (CHR 0x0A) out)))"

definition NewHost :: "'k commander \<Rightarrow> string \<Rightarrow> 'k host_ops" where
  "NewHost c uplink = \<lparr>h_List = ListNamespaces c, h_Setup = LinuxSetup_Setup c uplink, h_Teardown = LinuxSetup_Teardown c uplink\<rparr>"

section \<open>What the rules do to a packet\<close>

text \<open>The chains of one network namespace, by table and chain; a rule in a chain is its match and target.\<close>

type_synonym chains = "string \<times> string \<Rightarrow> string list list"
type_synonym kernel = "Scope \<Rightarrow> chains"

definition ipt :: "string \<Rightarrow> string list \<Rightarrow> chains \<Rightarrow> chains" where
  "ipt table args c =
     (case args of
        flag # chain # m \<Rightarrow>
          if flag = ''-I'' \<and> m \<noteq> [] \<and> hd m = ''1'' then c((table, chain) := tl m # c (table, chain))
          else if flag = ''-A'' then c((table, chain) := c (table, chain) @ [m])
          else if flag = ''-D'' then c((table, chain) := remove1 m (c (table, chain)))
          else c
      | _ \<Rightarrow> c)"

definition exec_rule :: "kernel \<Rightarrow> Rule \<Rightarrow> kernel" where
  "exec_rule k r =
     (case Rule_Args r of
        t # table # args \<Rightarrow> if t = ''-t'' then k(r_Scope r := ipt table args (k (r_Scope r))) else k
      | _ \<Rightarrow> k)"

lemma exec_rule_eq:
  "exec_rule k r = (case r_Op r of
      OpInsert \<Rightarrow> k(r_Scope r := (k (r_Scope r))((r_Table r, r_Chain r) := r_Match r # k (r_Scope r) (r_Table r, r_Chain r)))
    | OpAppend \<Rightarrow> k(r_Scope r := (k (r_Scope r))((r_Table r, r_Chain r) := k (r_Scope r) (r_Table r, r_Chain r) @ [r_Match r]))
    | OpDelete \<Rightarrow> k(r_Scope r := (k (r_Scope r))((r_Table r, r_Chain r) := remove1 (r_Match r) (k (r_Scope r) (r_Table r, r_Chain r))))
    | OpOther s \<Rightarrow> k)"
  by (simp add: exec_rule_def Rule_Args_def ipt_def split: Op.split)

text \<open>A restore script, read line by line: a table header, rule lines, \<^verbatim>\<open>COMMIT\<close>.\<close>

definition script_line :: "string \<times> chains \<Rightarrow> string \<Rightarrow> string \<times> chains" where
  "script_line st line =
     (case st of (table, c) \<Rightarrow>
        if line = '''' \<or> line = ''COMMIT'' then st
        else if hd line = CHR ''*'' then (tl line, c)
        else (table, ipt table (split_on (CHR '' '') line) c))"

definition run_script :: "string \<Rightarrow> chains \<Rightarrow> chains" where
  "run_script script c = snd (foldl script_line ('''', c) (split_on (CHR 0x0A) script))"

definition run_batch :: "kernel \<Rightarrow> restoreBatch \<Rightarrow> kernel" where
  "run_batch k b = k(b_Scope b := run_script (restoreScript b) (k (b_Scope b)))"

record packet =
  p_src :: ip
  p_dst :: ip
  p_out :: string

text \<open>The target of a rule for a packet it matches; which addresses a prefix covers is an argument.\<close>

fun rule_target :: "(string \<Rightarrow> ip \<Rightarrow> bool) \<Rightarrow> packet \<Rightarrow> string list \<Rightarrow> string option" where
  "rule_target covers p (flag # v # m) =
     (if flag = ''-s'' then (if covers v (p_src p) then rule_target covers p m else None)
      else if flag = ''-d'' then (if covers v (p_dst p) then rule_target covers p m else None)
      else if flag = ''-o'' then (if v = p_out p then rule_target covers p m else None)
      else if flag = ''-j'' \<and> m = [] then Some v else None)"
| "rule_target covers p m = None"

fun verdict :: "(string \<Rightarrow> ip \<Rightarrow> bool) \<Rightarrow> string \<Rightarrow> packet \<Rightarrow> string list list \<Rightarrow> string" where
  "verdict covers policy p [] = policy"
| "verdict covers policy p (m # ms) =
     (case rule_target covers p m of Some t \<Rightarrow> t | None \<Rightarrow> verdict covers policy p ms)"

lemma verdict_append:
  "verdict covers policy p (ms @ ms') = verdict covers (verdict covers policy p ms') p ms"
  by (induction ms) (auto split: option.splits)

section \<open>A script does what its rules do\<close>

definition token :: "string \<Rightarrow> bool" where
  "token s \<longleftrightarrow> s \<noteq> '''' \<and> CHR '' '' \<notin> set s \<and> CHR 0x0A \<notin> set s"

lemma split_on_no: "c \<notin> set s \<Longrightarrow> split_on c s = [s]"
  by (induction s) auto

lemma split_on_append: "c \<notin> set s \<Longrightarrow> split_on c (s @ c # t) = s # split_on c t"
  by (induction s) auto

lemma split_Join: "ss \<noteq> [] \<Longrightarrow> \<forall>s \<in> set ss. c \<notin> set s \<Longrightarrow> split_on c (Join ss [c]) = ss"
  by (induction ss "[c]" rule: Join.induct) (auto simp: split_on_no split_on_append)

lemma Join_chars: "c \<in> set (Join ss sep) \<Longrightarrow> c \<in> set sep \<or> (\<exists>s \<in> set ss. c \<in> set s)"
  by (induction ss sep rule: Join.induct) auto

lemma Join_hd: "ss \<noteq> [] \<Longrightarrow> hd ss \<noteq> '''' \<Longrightarrow> Join ss sep \<noteq> '''' \<and> hd (Join ss sep) = hd (hd ss)"
  by (induction ss sep rule: Join.induct) auto

definition clean :: "Rule \<Rightarrow> bool" where
  "clean r \<longleftrightarrow> token (r_Table r) \<and> token (r_Chain r) \<and> list_all token (r_Match r) \<and> r_Op r \<in> {OpInsert, OpAppend, OpDelete}"

lemma restoreLine_args:
  assumes "clean r"
  shows "split_on (CHR '' '') (restoreLine r) = drop 2 (Rule_Args r)" "CHR 0x0A \<notin> set (restoreLine r)"
    "restoreLine r \<noteq> ''''" "hd (restoreLine r) = CHR ''-''"
proof -
  let ?a = "drop 2 (Rule_Args r)"
  have line: "restoreLine r = Join ?a '' ''" by (simp add: restoreLine_def Rule_Args_def)
  have a: "?a \<noteq> []" "\<forall>s \<in> set ?a. token s" "hd ?a \<noteq> ''''" "hd (hd ?a) = CHR ''-''"
    using assms by (auto simp: Rule_Args_def clean_def token_def list_all_iff split: Op.split)
  show "split_on (CHR '' '') (restoreLine r) = ?a" unfolding line using a(1,2) by (intro split_Join) (auto simp: token_def)
  show "CHR 0x0A \<notin> set (restoreLine r)" unfolding line using a(2) by (auto dest!: Join_chars simp: token_def)
  show "restoreLine r \<noteq> ''''" "hd (restoreLine r) = CHR ''-''" unfolding line using Join_hd [OF a(1,3), of "'' ''"] a(4) by simp_all
qed

definition table_step :: "chains \<Rightarrow> Rule \<Rightarrow> chains" where
  "table_step c r = ipt (r_Table r) (drop 2 (Rule_Args r)) c"

lemma exec_rule_step: "exec_rule k r = k(r_Scope r := table_step (k (r_Scope r)) r)"
  by (simp add: exec_rule_def table_step_def Rule_Args_def)

lemma exec_rules_scope:
  "\<forall>r \<in> set rs. r_Scope r = sc \<Longrightarrow> foldl exec_rule k rs = k(sc := foldl table_step (k sc) rs)"
  by (induction rs arbitrary: k) (simp_all add: exec_rule_step)

lemma table_step_local:
  assumes "\<And>ch. c (t, ch) = c' (t, ch)"
  shows "table_step c r (t, ch) = (if r_Table r = t then table_step c' r (t, ch) else c (t, ch))"
  using assms by (auto simp: table_step_def ipt_def split: list.splits)

lemma table_steps_local:
  assumes "\<And>ch. c (t, ch) = c' (t, ch)"
  shows "foldl table_step c rs (t, ch) = foldl table_step c' (filter (\<lambda>r. r_Table r = t) rs) (t, ch)"
  using assms
proof (induction rs arbitrary: c c')
  case (Cons r rs)
  show ?case
  proof (cases "r_Table r = t")
    case True
    have "\<And>ch. table_step c r (t, ch) = table_step c' r (t, ch)" using table_step_local [of c t c' r] Cons.prems True by simp
    then show ?thesis using Cons.IH [of "table_step c r" "table_step c' r"] True by simp
  next
    case False
    have "\<And>ch. table_step c r (t, ch) = c' (t, ch)" using table_step_local [of c t c' r] Cons.prems False by simp
    then show ?thesis using Cons.IH [of "table_step c r" c'] False by simp
  qed
qed simp

text \<open>Table by table is the same as rule by rule.\<close>

definition by_tables :: "Rule list \<Rightarrow> chains \<Rightarrow> string list \<Rightarrow> chains" where
  "by_tables rs c ts = foldl (\<lambda>c t. foldl table_step c (filter (\<lambda>r. r_Table r = t) rs)) c ts"

lemma by_tables_local:
  "distinct ts \<Longrightarrow> by_tables rs c ts (t, ch)
     = (if t \<in> set ts then foldl table_step c (filter (\<lambda>r. r_Table r = t) rs) (t, ch) else c (t, ch))"
proof (induction ts arbitrary: c)
  case (Cons u ts)
  let ?c = "foldl table_step c (filter (\<lambda>r. r_Table r = u) rs)"
  have same: "?c (t, ch) = c (t, ch)" if "t \<noteq> u" for ch
    using that table_steps_local [of c t c "filter (\<lambda>r. r_Table r = u) rs"] by (simp add: conj_commute)
  have step: "by_tables rs c (u # ts) = by_tables rs ?c ts" by (simp add: by_tables_def)
  show ?case
  proof (cases "t = u")
    case True
    then show ?thesis using Cons by (simp add: step)
  next
    case False
    have "foldl table_step ?c (filter (\<lambda>r. r_Table r = t) rs) (t, ch) = foldl table_step c (filter (\<lambda>r. r_Table r = t) rs) (t, ch)"
      using table_steps_local [of ?c t c "filter (\<lambda>r. r_Table r = t) rs"] same [OF False] by simp
    then show ?thesis using Cons False same [OF False] by (simp add: step)
  qed
qed (simp add: by_tables_def)

lemma by_tables_all:
  assumes "distinct ts" "r_Table ` set rs \<subseteq> set ts"
  shows "by_tables rs c ts = foldl table_step c rs"
proof
  fix tc :: "string \<times> string"
  obtain t ch where tc: "tc = (t, ch)" by (cases tc)
  have "filter (\<lambda>r. r_Table r = t) rs = []" if "t \<notin> set ts" using that assms(2) by (auto simp: filter_empty_conv)
  then show "by_tables rs c ts tc = foldl table_step c rs tc"
    using by_tables_local [OF assms(1), of rs c t ch] table_steps_local [of c t c rs ch] unfolding tc by auto
qed

text \<open>What the script's loop has collected.\<close>

lemma collected:
  "foldl add_line ([], []) rs = (tables, byTable) \<Longrightarrow>
    distinct tables \<and> set tables = r_Table ` set rs \<and> (\<forall>t. map_of byTable t = None \<longleftrightarrow> t \<notin> set tables)
    \<and> (\<forall>t. go_get [] byTable t = map restoreLine (filter (\<lambda>r. r_Table r = t) rs))"
proof (induction rs arbitrary: tables byTable rule: rev_induct)
  case Nil
  then show ?case by (simp add: go_get_def)
next
  case (snoc r rs)
  obtain ts bt where st: "foldl add_line ([], []) rs = (ts, bt)" by (meson surj_pair)
  note IH = snoc.IH [OF st]
  have "tables = (if map_of bt (r_Table r) = None then ts @ [r_Table r] else ts)"
    "byTable = AList.update (r_Table r) (go_get [] bt (r_Table r) @ [restoreLine r]) bt"
    using snoc.prems unfolding foldl_append st by (simp_all add: add_line_def)
  then show ?case using IH by (auto simp: go_get_def update_conv)
qed

definition script_block :: "Rule list \<Rightarrow> string \<Rightarrow> string list" where
  "script_block rs t = (CHR ''*'' # t) # map restoreLine (filter (\<lambda>r. r_Table r = t) rs) @ [''COMMIT'']"

lemma split_lines: "\<forall>l \<in> set ls. CHR 0x0A \<notin> set l \<Longrightarrow> split_on (CHR 0x0A) (concat (map (\<lambda>l. l @ [CHR 0x0A]) ls)) = ls @ ['''']"
  by (induction ls) (auto simp: split_on_append)

lemma block_lines:
  "\<forall>r \<in> set rs. clean r \<Longrightarrow> foldl script_line (x, c) (map restoreLine rs) = (x, foldl (\<lambda>c r. ipt x (drop 2 (Rule_Args r)) c) c rs)"
proof (induction rs arbitrary: c)
  case (Cons r rs)
  have "restoreLine r \<noteq> ''COMMIT''" using restoreLine_args(4) [of r] Cons.prems by auto
  then show ?case using Cons restoreLine_args [of r] by (simp add: script_line_def)
qed simp

lemma block_run:
  assumes "\<forall>r \<in> set rs. clean r"
  shows "foldl script_line (x, c) (script_block rs t) = (t, foldl table_step c (filter (\<lambda>r. r_Table r = t) rs))"
proof -
  have "foldl (\<lambda>c r. ipt t (drop 2 (Rule_Args r)) c) c us = foldl table_step c us" if "\<forall>r \<in> set us. r_Table r = t" for us
    using that by (induction us arbitrary: c) (simp_all add: table_step_def)
  then have "foldl (\<lambda>c r. ipt t (drop 2 (Rule_Args r)) c) c (filter (\<lambda>r. r_Table r = t) rs)
      = foldl table_step c (filter (\<lambda>r. r_Table r = t) rs)" by simp
  then show ?thesis using block_lines [of "filter (\<lambda>r. r_Table r = t) rs" t c] assms
    by (simp add: script_block_def script_line_def)
qed

lemma script_run:
  assumes "\<forall>r \<in> set (b_Rules b). clean r"
  shows "run_script (restoreScript b) c = foldl table_step c (b_Rules b)"
proof -
  let ?rs = "b_Rules b"
  obtain ts bt where st: "foldl add_line ([], []) ?rs = (ts, bt)" by (meson surj_pair)
  note coll = collected [OF st]
  have "restoreScript b = concat (map (\<lambda>t. concat (map (\<lambda>l. l @ [CHR 0x0A]) (script_block ?rs t))) ts)"
    using coll by (simp add: restoreScript_def st script_block_def comp_def)
  moreover have "concat (map (\<lambda>t. concat (map f (g t))) us) = concat (map f (concat (map g us)))"
    for f :: "string \<Rightarrow> string" and g :: "string \<Rightarrow> string list" and us by (induction us) simp_all
  ultimately have script: "restoreScript b = concat (map (\<lambda>l. l @ [CHR 0x0A]) (concat (map (script_block ?rs) ts)))" by simp
  have "CHR 0x0A \<notin> set l" if l: "l \<in> set (script_block ?rs t)" "t \<in> set ts" for l t
  proof -
    have "token t" using l(2) coll assms by (auto simp: clean_def)
    then show ?thesis using l(1) restoreLine_args(2) assms by (auto simp: script_block_def token_def)
  qed
  then have "split_on (CHR 0x0A) (restoreScript b) = concat (map (script_block ?rs) ts) @ ['''']"
    unfolding script by (intro split_lines) auto
  moreover have "foldl script_line (x, c) (concat (map (script_block ?rs) us) @ ['''']) = (if us = [] then x else last us, by_tables ?rs c us)" for us x c
    by (induction us arbitrary: x c) (auto simp: by_tables_def script_line_def block_run [OF assms] split: if_splits)
  ultimately have "run_script (restoreScript b) c = by_tables ?rs c ts" by (simp add: run_script_def)
  also have "\<dots> = foldl table_step c ?rs" using coll by (intro by_tables_all) simp_all
  finally show ?thesis .
qed

lemma batches_flat: "concat (map b_Rules (batchRules rs)) = rs \<and> (\<forall>b \<in> set (batchRules rs). \<forall>r \<in> set (b_Rules b). r_Scope r = b_Scope b)"
proof (induction rs rule: rev_induct)
  case Nil
  then show ?case by (simp add: batchRules_def)
next
  case (snoc r rs)
  let ?bs = "batchRules rs"
  have step: "batchRules (rs @ [r]) = add_to_batches ?bs r" by (simp add: batchRules_def)
  show ?case
  proof (cases "?bs \<noteq> [] \<and> b_Scope (last ?bs) = r_Scope r")
    case True
    then have bs: "?bs = butlast ?bs @ [last ?bs]" by simp
    have "concat (map b_Rules (butlast ?bs)) @ b_Rules (last ?bs) = rs" using snoc.IH
      by (subst (asm) (1) bs) simp
    moreover have "\<forall>b \<in> set (butlast ?bs @ [last ?bs]). \<forall>r \<in> set (b_Rules b). r_Scope r = b_Scope b" using snoc.IH bs by simp
    moreover have "\<forall>r' \<in> set (b_Rules (last ?bs)). r_Scope r' = r_Scope r"
      using bspec [OF conjunct2 [OF snoc.IH] last_in_set] True by auto
    ultimately show ?thesis unfolding step using True by (auto simp: add_to_batches_def dest: in_set_butlastD)
  next
    case False
    then show ?thesis unfolding step using snoc.IH by (auto simp: add_to_batches_def)
  qed
qed

lemma batches_run:
  assumes "\<forall>r \<in> set rs. clean r"
  shows "foldl run_batch k (batchRules rs) = foldl exec_rule k rs"
proof -
  have "foldl run_batch k bs = foldl exec_rule k (concat (map b_Rules bs))"
    if "\<forall>b \<in> set bs. \<forall>r \<in> set (b_Rules b). r_Scope r = b_Scope b \<and> clean r" for bs
    using that
  proof (induction bs arbitrary: k)
    case (Cons b bs)
    have "run_batch k b = foldl exec_rule k (b_Rules b)"
      using Cons.prems exec_rules_scope [of "b_Rules b" "b_Scope b" k] by (simp add: run_batch_def script_run)
    then show ?case using Cons by simp
  qed simp
  moreover have "\<forall>b \<in> set (batchRules rs). \<forall>r \<in> set (b_Rules b). r_Scope r = b_Scope b \<and> clean r"
  proof -
    have "set (concat (map b_Rules (batchRules rs))) = set rs" using batches_flat [of rs] by simp
    then have "\<forall>b \<in> set (batchRules rs). set (b_Rules b) \<subseteq> set rs" by (simp add: UN_subset_iff [symmetric])
    then show ?thesis using batches_flat [of rs] assms by blast
  qed
  ultimately show ?thesis using batches_flat [of rs] by simp
qed

text \<open>
  C19. The batched set-up applies the plan exactly. For rules whose words contain no white space, running the
  restore scripts of the batches, each a text that groups its rules by table, leaves every chain of every
  table, on the host and in the namespace, as running the rules one at a time in the plan's order would; and
  no rule is dropped, repeated or moved to another scope.
\<close>

theorem restore_scripts_equiv:
  assumes "\<forall>r \<in> set rs. clean r"
  shows "foldl run_batch k (batchRules rs) = foldl exec_rule k rs \<and> concat (map b_Rules (batchRules rs)) = rs
    \<and> (\<forall>b \<in> set (batchRules rs). \<forall>r \<in> set (b_Rules b). r_Scope r = b_Scope b)"
  using batches_run [OF assms] batches_flat [of rs] by simp

section \<open>Egress\<close>

lemma dec_token [simp]: "CHR '' '' \<notin> set (dec n)" "CHR 0x0A \<notin> set (dec n)"
  using dec_digits [of "CHR '' ''" n] dec_digits [of "CHR 0x0A" n] by (auto simp: is_digit_def)

lemma ipnet_token: "token (ipnet_string n)"
  by (simp add: token_def ipnet_string_def ip_string_def)

definition host_drops :: "string \<Rightarrow> string list list" where
  "host_drops src = map (\<lambda>dst. [''-s'', src, ''-d'', dst, ''-j'', targetDrop]) (rev deniedDestinations)"

text \<open>Every chain on its own: the rules that name it, in order.\<close>

definition chain_op :: "string list list \<Rightarrow> Rule \<Rightarrow> string list list" where
  "chain_op ms r = (case r_Op r of OpInsert \<Rightarrow> r_Match r # ms | OpAppend \<Rightarrow> ms @ [r_Match r]
     | OpDelete \<Rightarrow> remove1 (r_Match r) ms | OpOther s \<Rightarrow> ms)"

definition on_chain :: "Scope \<Rightarrow> string \<Rightarrow> string \<Rightarrow> Rule \<Rightarrow> bool" where
  "on_chain sc t ch r \<longleftrightarrow> r_Scope r = sc \<and> r_Table r = t \<and> r_Chain r = ch"

lemma exec_chain: "foldl exec_rule k rs sc (t, ch) = foldl chain_op (k sc (t, ch)) (filter (on_chain sc t ch) rs)"
proof (induction rs arbitrary: k)
  case (Cons r rs)
  have "exec_rule k r sc (t, ch) = (if on_chain sc t ch r then chain_op (k sc (t, ch)) r else k sc (t, ch))"
    by (auto simp: exec_rule_eq chain_op_def on_chain_def split: Op.split)
  then show ?case by (simp add: Cons)
qed simp

lemma tables_differ [simp]: "tableFilter \<noteq> tableNat" "tableNat \<noteq> tableFilter"
  by (simp_all add: tableFilter_def tableNat_def)

lemma chains_differ [simp]: "chainForward \<noteq> chainPostrouting" "chainPostrouting \<noteq> chainForward"
  by (simp_all add: chainForward_def chainPostrouting_def)

lemma inserts_chain:
  assumes "\<And>d. r_Op (f d) = OpInsert"
  shows "foldl chain_op ms (map f ds) = rev (map (\<lambda>d. r_Match (f d)) ds) @ ms"
  by (induction ds arbitrary: ms) (simp_all add: chain_op_def assms)

lemma plan_chains:
  assumes "SetupPlan (Some l) uplink = Inr rules"
  shows "foldl exec_rule k rules ScopeHost (tableFilter, chainForward) = host_drops (Layout_LinkCIDR l)
      @ [[''-d'', Layout_LinkCIDR l, ''-j'', targetAccept], [''-s'', Layout_LinkCIDR l, ''-j'', targetAccept]] @ k ScopeHost (tableFilter, chainForward)"
    and "foldl exec_rule k rules ScopeNetns (tableFilter, chainForward) = host_drops (Layout_GuestSubnetCIDR l)
      @ k ScopeNetns (tableFilter, chainForward) @ [[''-s'', Layout_GuestSubnetCIDR l, ''-j'', targetAccept]]"
proof -
  have "uplink \<noteq> ''''" using assms by (auto simp: SetupPlan_def)
  then have r: "rules = projr (SetupPlan (Some l) uplink)" "uplink \<noteq> ''''" unfolding assms by simp_all
  show "foldl exec_rule k rules ScopeHost (tableFilter, chainForward) = host_drops (Layout_LinkCIDR l)
      @ [[''-d'', Layout_LinkCIDR l, ''-j'', targetAccept], [''-s'', Layout_LinkCIDR l, ''-j'', targetAccept]] @ k ScopeHost (tableFilter, chainForward)"
    unfolding exec_chain r(1) using r(2)
    by (simp add: SetupPlan_def Let_def host_drops_def on_chain_def filter_map comp_def inserts_chain rev_map) (simp add: chain_op_def)
  show "foldl exec_rule k rules ScopeNetns (tableFilter, chainForward) = host_drops (Layout_GuestSubnetCIDR l)
      @ k ScopeNetns (tableFilter, chainForward) @ [[''-s'', Layout_GuestSubnetCIDR l, ''-j'', targetAccept]]"
    unfolding exec_chain r(1) using r(2)
    by (simp add: SetupPlan_def Let_def host_drops_def on_chain_def filter_map comp_def inserts_chain rev_map) (simp add: chain_op_def)
qed

lemma plan_clean:
  assumes "SetupPlan (Some l) uplink = Inr rules" "token uplink" "token (l_NetnsVeth l)"
  shows "\<forall>r \<in> set rules. clean r"
proof -
  have t: "token (Layout_GuestSubnetCIDR l)" "token (Layout_LinkCIDR l)"
    by (simp_all add: Layout_GuestSubnetCIDR_def Layout_LinkCIDR_def ipnet_token)
  have w: "token tableFilter" "token tableNat" "token chainForward" "token chainPostrouting" "token ''-s''" "token ''-d''" "token ''-o''"
    "token ''-j''" "token targetDrop" "token targetAccept" "token targetMasquerade" "\<forall>d \<in> set deniedDestinations. token d"
    by code_simp+
  have "uplink \<noteq> ''''" using assms(2) by (simp add: token_def)
  then have "rules = projr (SetupPlan (Some l) uplink)" "uplink \<noteq> ''''" unfolding assms(1) by simp_all
  then show ?thesis using assms(2,3) t w by (simp add: SetupPlan_def Let_def clean_def ball_Un)
qed

lemma verdict_drops:
  "verdict covers pol p (host_drops src @ ms) =
    (if covers src (p_src p) \<and> (\<exists>d \<in> set deniedDestinations. covers d (p_dst p)) then targetDrop else verdict covers pol p ms)"
  by (simp add: host_drops_def deniedDestinations_def)

text \<open>
  C11. A sandbox reaches the internet and nothing private. Whatever rules the host's chains already hold:
  once set-up has run, a packet the host sees from the sandbox's link is dropped when its destination is in
  a denied range (link-local and cloud metadata, or private addresses) and accepted otherwise; and inside
  the fresh namespace the same holds of a packet from the guest's subnet, before it is translated.
\<close>

theorem egress_filtered:
  assumes "SetupPlan (Some l) uplink = Inr rules" "token uplink" "token (l_NetnsVeth l)"
    and k': "k' = foldl run_batch k (batchRules rules)"
  shows "(covers (Layout_LinkCIDR l) (p_src p) \<longrightarrow> verdict covers pol p (k' ScopeHost (tableFilter, chainForward))
        = (if \<exists>d \<in> set deniedDestinations. covers d (p_dst p) then targetDrop else targetAccept))
    \<and> (k ScopeNetns (tableFilter, chainForward) = [] \<and> covers (Layout_GuestSubnetCIDR l) (p_src p) \<longrightarrow>
         verdict covers pol p (k' ScopeNetns (tableFilter, chainForward))
        = (if \<exists>d \<in> set deniedDestinations. covers d (p_dst p) then targetDrop else targetAccept))"
proof -
  have "k' = foldl exec_rule k rules" unfolding k' by (rule batches_run [OF plan_clean [OF assms(1-3)]])
  then show ?thesis by (simp add: plan_chains [OF assms(1)] verdict_drops)
qed

text \<open>An example: the third sandbox of a node, its uplink, and prefixes read off their text.\<close>

definition example_net_layout :: "int \<Rightarrow> Layout" where
  "example_net_layout i = \<lparr>l_Index = i, l_Netns = netnsPrefix @ dec (nat i), l_TapName = tapName, l_GuestIP = [172, 31, 0, 2],
     l_GuestGateway = [172, 31, 0, 1], l_GuestSubnet = \<lparr>n_IP = [172, 31, 0, 0], n_ones = 30, n_bits = 32\<rparr>,
     l_HostVeth = vethHostPrefix @ dec (nat i), l_NetnsVeth = vethNetnsPrefix @ dec (nat i),
     l_HostLinkIP = [10, 0, word_of_int (i * 4), 1], l_NetnsLinkIP = [10, 0, word_of_int (i * 4), 2],
     l_LinkSubnet = \<lparr>n_IP = [10, 0, word_of_int (i * 4), 0], n_ones = 30, n_bits = 32\<rparr>\<rparr>"

definition example_covers :: "string \<Rightarrow> ip \<Rightarrow> bool" where
  "example_covers cidr a =
     (if cidr = ''10.0.0.0/8'' then take 1 a = [10] else if cidr = ''169.254.0.0/16'' then take 2 a = [169, 254]
      else if cidr = ''10.0.8.0/30'' then take 3 a = [10, 0, 8] else if cidr = ''10.0.12.0/30'' then take 3 a = [10, 0, 12] else False)"

definition no_rules :: kernel where
  "no_rules sc tc = []"

lemma example_plan: "\<exists>rules. SetupPlan (Some (example_net_layout i)) ''eth0'' = Inr rules"
  by (simp add: SetupPlan_def Let_def)

lemma example_tokens: "token ''eth0''" "token (l_NetnsVeth (example_net_layout i))"
  by code_simp (simp add: example_net_layout_def token_def vethNetnsPrefix_def)

lemma example_links: "Layout_LinkCIDR (example_net_layout 2) = ''10.0.8.0/30''" "Layout_LinkCIDR (example_net_layout 3) = ''10.0.12.0/30''"
  by code_simp+

theorem restore_scripts_equiv_witness:
  "\<exists>rules. SetupPlan (Some (example_net_layout 2)) ''eth0'' = Inr rules
     \<and> foldl run_batch no_rules (batchRules rules) = foldl exec_rule no_rules rules"
proof -
  obtain rules where r: "SetupPlan (Some (example_net_layout 2)) ''eth0'' = Inr rules" using example_plan by blast
  show ?thesis using restore_scripts_equiv [OF plan_clean [OF r example_tokens], of no_rules] r by auto
qed

theorem egress_filtered_witness:
  "\<exists>rules. SetupPlan (Some (example_net_layout 2)) ''eth0'' = Inr rules
     \<and> verdict example_covers ''DROP'' \<lparr>p_src = [10, 0, 8, 2], p_dst = [169, 254, 169, 254], p_out = ''eth0''\<rparr>
         (foldl run_batch no_rules (batchRules rules) ScopeHost (tableFilter, chainForward)) = targetDrop
     \<and> verdict example_covers ''DROP'' \<lparr>p_src = [10, 0, 8, 2], p_dst = [8, 8, 8, 8], p_out = ''eth0''\<rparr>
         (foldl run_batch no_rules (batchRules rules) ScopeHost (tableFilter, chainForward)) = targetAccept"
proof -
  obtain rules where r: "SetupPlan (Some (example_net_layout 2)) ''eth0'' = Inr rules" using example_plan by blast
  have c: "example_covers ''10.0.8.0/30'' [10, 0, 8, 2]" "\<exists>d \<in> set deniedDestinations. example_covers d [169, 254, 169, 254]"
    "\<not> (\<exists>d \<in> set deniedDestinations. example_covers d [8, 8, 8, 8])" by code_simp+
  show ?thesis using egress_filtered [OF r example_tokens refl, of example_covers
        "\<lparr>p_src = [10, 0, 8, 2], p_dst = [169, 254, 169, 254], p_out = ''eth0''\<rparr>" "''DROP''" no_rules]
      egress_filtered [OF r example_tokens refl, of example_covers
        "\<lparr>p_src = [10, 0, 8, 2], p_dst = [8, 8, 8, 8], p_out = ''eth0''\<rparr>" "''DROP''" no_rules] c r
    unfolding example_links by simp
qed

text \<open>
  C37. The host's rules do not isolate a sandbox's link from sandboxes set up before it. A packet from one
  sandbox's link to another's is dropped by the host when the sender's rules were installed last; but once
  the receiver is set up later, its own accept rule for packets to its link sits ahead of the sender's drop
  rules, and the same packet is accepted. (The sender's namespace still drops it while it carries the guest's
  source address.)
\<close>

theorem later_link_reachable:
  assumes "SetupPlan (Some la) uplink = Inr ra" "SetupPlan (Some lb) uplink = Inr rb" "token uplink"
    and "token (l_NetnsVeth la)" "token (l_NetnsVeth lb)"
    and "covers (Layout_LinkCIDR la) (p_src p)" "covers (Layout_LinkCIDR lb) (p_dst p)" "\<not> covers (Layout_LinkCIDR lb) (p_src p)"
    and "d \<in> set deniedDestinations" "covers d (p_dst p)"
  shows "verdict covers pol p (foldl run_batch (foldl run_batch k (batchRules rb)) (batchRules ra) ScopeHost (tableFilter, chainForward)) = targetDrop
    \<and> verdict covers pol p (foldl run_batch (foldl run_batch k (batchRules ra)) (batchRules rb) ScopeHost (tableFilter, chainForward)) = targetAccept"
proof -
  note run = batches_run [OF plan_clean [OF assms(1,3,4)]] batches_run [OF plan_clean [OF assms(2,3,5)]]
  show ?thesis unfolding run using assms(6-)
    by (auto simp: plan_chains [OF assms(1)] plan_chains [OF assms(2)] verdict_drops)
qed

theorem later_link_reachable_witness:
  "\<exists>ra rb. SetupPlan (Some (example_net_layout 2)) ''eth0'' = Inr ra \<and> SetupPlan (Some (example_net_layout 3)) ''eth0'' = Inr rb
     \<and> verdict example_covers ''DROP'' \<lparr>p_src = [10, 0, 8, 2], p_dst = [10, 0, 12, 2], p_out = ''bnv3''\<rparr>
         (foldl run_batch (foldl run_batch no_rules (batchRules ra)) (batchRules rb) ScopeHost (tableFilter, chainForward)) = targetAccept"
proof -
  obtain ra where a: "SetupPlan (Some (example_net_layout 2)) ''eth0'' = Inr ra" using example_plan by blast
  obtain rb where b: "SetupPlan (Some (example_net_layout 3)) ''eth0'' = Inr rb" using example_plan by blast
  have c: "example_covers ''10.0.8.0/30'' [10, 0, 8, 2]" "example_covers ''10.0.12.0/30'' [10, 0, 12, 2]"
    "\<not> example_covers ''10.0.12.0/30'' [10, 0, 8, 2]" "''10.0.0.0/8'' \<in> set deniedDestinations" "example_covers ''10.0.0.0/8'' [10, 0, 12, 2]"
    by code_simp+
  show ?thesis using later_link_reachable [OF a b example_tokens(1,2) example_tokens(2), of example_covers
      "\<lparr>p_src = [10, 0, 8, 2], p_dst = [10, 0, 12, 2], p_out = ''bnv3''\<rparr>" "''10.0.0.0/8''" "''DROP''" no_rules] a b c
    unfolding example_links by simp
qed

section \<open>Tearing down\<close>

lemma remove_once:
  "\<forall>m \<in> set xs. count_list ms m \<le> 1 \<Longrightarrow> foldl (\<lambda>ms m. remove1 m ms) ms xs = filter (\<lambda>m. m \<notin> set xs) ms"
proof (induction xs arbitrary: ms)
  case (Cons x xs)
  have once: "remove1 x ms = filter (\<lambda>m. m \<noteq> x) ms" if "count_list ms x \<le> 1" for ms :: "'a list"
    using that by (induction ms) (auto simp: count_list_0_iff intro!: filter_True [symmetric] split: if_splits)
  have "count_list (filter P ms) m \<le> count_list ms m" for P m by (induction ms) auto
  then have "\<forall>m \<in> set xs. count_list (filter (\<lambda>m. m \<noteq> x) ms) m \<le> 1" using Cons.prems by (meson le_trans list.set_intros(2))
  then show ?case using Cons once [of ms] by (simp add: conj_commute)
qed simp

lemma delete_chain:
  assumes "\<forall>r \<in> set rs. count_list ms (r_Match r) \<le> 1"
  shows "foldl chain_op ms (map Rule_Delete rs) = filter (\<lambda>m. m \<notin> r_Match ` set rs) ms"
proof -
  have "foldl chain_op ms (map Rule_Delete rs) = foldl (\<lambda>ms m. remove1 m ms) ms (map r_Match rs)"
    by (induction rs arbitrary: ms) (simp_all add: chain_op_def Rule_Delete_def)
  then show ?thesis using remove_once [of "map r_Match rs" ms] assms by simp
qed

text \<open>A chain built up by inserting and appending: the old rules with new ones around them.\<close>

lemma build_chain:
  "\<forall>r \<in> set rs. r_Op r \<in> {OpInsert, OpAppend} \<Longrightarrow>
    \<exists>pre post. foldl chain_op ms rs = pre @ ms @ post \<and> mset pre + mset post = mset (map r_Match rs)"
proof (induction rs rule: rev_induct)
  case (snoc r rs)
  then obtain pre post where p: "foldl chain_op ms rs = pre @ ms @ post" "mset pre + mset post = mset (map r_Match rs)" by auto
  show ?case
  proof (cases "r_Op r = OpInsert")
    case True
    then have "foldl chain_op ms (rs @ [r]) = (r_Match r # pre) @ ms @ post" using p(1) by (simp add: chain_op_def)
    then show ?thesis using p(2) by (intro exI [of _ "r_Match r # pre"] exI [of _ post]) simp
  next
    case False
    then have "r_Op r = OpAppend" using snoc.prems by simp
    then have "foldl chain_op ms (rs @ [r]) = pre @ ms @ (post @ [r_Match r])" using p(1) by (simp add: chain_op_def)
    then show ?thesis using p(2) by (intro exI [of _ pre] exI [of _ "post @ [r_Match r]"]) simp
  qed
qed simp

lemma plan_ops: "SetupPlan (Some l) uplink = Inr rules \<Longrightarrow> \<forall>r \<in> set rules. r_Op r \<in> {OpInsert, OpAppend}"
  by (auto simp: SetupPlan_def Let_def split: if_splits)

lemma plan_distinct:
  assumes "SetupPlan (Some l) uplink = Inr rules"
  shows "distinct (map r_Match (filter (on_chain sc t ch) rules))"
proof -
  have d: "distinct deniedDestinations" by code_simp

  have "uplink \<noteq> ''''" using assms by (auto simp: SetupPlan_def)
  then have r: "rules = projr (SetupPlan (Some l) uplink)" "uplink \<noteq> ''''" unfolding assms by simp_all
  show ?thesis unfolding r(1) using r(2)
    by (auto simp: SetupPlan_def Let_def on_chain_def filter_map comp_def distinct_map inj_on_def d)
qed

text \<open>
  C22. Tear-down takes away exactly what set-up added. Whenever each of the sandbox's rules stands at most
  once in its chain, the deletes leave, in every chain of every table on the host and in the namespace,
  precisely the rules that are not the sandbox's, in their order; and on a host that had none of them,
  set-up followed by tear-down leaves every chain as it was.
\<close>

theorem teardown_removes_own:
  assumes "SetupPlan (Some l) uplink = Inr rules" "TeardownPlan (Some l) uplink = Inr deletes" "token uplink" "token (l_NetnsVeth l)"
  shows "((\<forall>r \<in> set rules. count_list (k (r_Scope r) (r_Table r, r_Chain r)) (r_Match r) \<le> 1) \<longrightarrow>
       foldl exec_rule k deletes sc (t, ch) = filter (\<lambda>m. \<not> (\<exists>r \<in> set rules. on_chain sc t ch r \<and> r_Match r = m)) (k sc (t, ch)))
    \<and> ((\<forall>r \<in> set rules. r_Match r \<notin> set (k (r_Scope r) (r_Table r, r_Chain r))) \<longrightarrow>
       foldl exec_rule (foldl run_batch k (batchRules rules)) deletes sc (t, ch) = k sc (t, ch))"
proof -
  let ?mine = "filter (on_chain sc t ch) rules"
  have dels: "filter (on_chain sc t ch) deletes = map Rule_Delete (rev ?mine)"
  proof -
    have "deletes = map Rule_Delete (rev rules)" using assms(1,2) by (simp add: TeardownPlan_def)
    moreover have "on_chain sc t ch (Rule_Delete r) = on_chain sc t ch r" for r by (simp add: on_chain_def Rule_Delete_def)
    ultimately show ?thesis by (simp add: filter_map comp_def rev_filter)
  qed
  have del: "foldl exec_rule k' deletes sc (t, ch) = filter (\<lambda>m. \<not> (\<exists>r \<in> set rules. on_chain sc t ch r \<and> r_Match r = m)) (k' sc (t, ch))"
    if "\<forall>r \<in> set ?mine. count_list (k' sc (t, ch)) (r_Match r) \<le> 1" for k'
  proof -
    have "foldl exec_rule k' deletes sc (t, ch) = filter (\<lambda>m. m \<notin> r_Match ` set (rev ?mine)) (k' sc (t, ch))"
      unfolding exec_chain dels using that by (intro delete_chain) simp
    also have "\<dots> = filter (\<lambda>m. \<not> (\<exists>r \<in> set rules. on_chain sc t ch r \<and> r_Match r = m)) (k' sc (t, ch))"
      by (intro filter_cong) auto
    finally show ?thesis .
  qed
  have "foldl exec_rule (foldl run_batch k (batchRules rules)) deletes sc (t, ch) = k sc (t, ch)"
    if none: "\<forall>r \<in> set rules. r_Match r \<notin> set (k (r_Scope r) (r_Table r, r_Chain r))"
  proof -
    let ?k = "foldl run_batch k (batchRules rules)" and ?ms = "k sc (t, ch)"
    have k: "?k sc (t, ch) = foldl chain_op ?ms ?mine"
      unfolding batches_run [OF plan_clean [OF assms(1,3,4)]] exec_chain ..
    obtain pre post where p: "foldl chain_op ?ms ?mine = pre @ ?ms @ post" "mset pre + mset post = mset (map r_Match ?mine)"
      using build_chain [of ?mine ?ms] plan_ops [OF assms(1)] by auto
    have new: "set pre \<union> set post = r_Match ` set ?mine" using arg_cong [OF p(2), of set_mset] by simp
    have old: "\<forall>r \<in> set ?mine. r_Match r \<notin> set ?ms" using none by (auto simp: on_chain_def)
    have "count_list (?k sc (t, ch)) (r_Match r) \<le> 1" if "r \<in> set ?mine" for r
    proof -
      have "count (mset pre + mset post) (r_Match r) \<le> 1"
        unfolding p(2) using plan_distinct [OF assms(1), of sc t ch] by (metis count_mset_0_iff distinct_count_atmost_1 le_numeral_extra(3) le_zero_eq order_refl zero_le_one)
      moreover have "count (mset ?ms) (r_Match r) = 0" using old that by simp
      ultimately show ?thesis unfolding k p(1) by (simp only: count_mset [symmetric] mset_append count_union)
    qed
    then have "foldl exec_rule ?k deletes sc (t, ch) = filter (\<lambda>m. \<not> (\<exists>r \<in> set rules. on_chain sc t ch r \<and> r_Match r = m)) (pre @ ?ms @ post)"
      using del [of ?k] unfolding k p(1) by blast
    also have "\<dots> = ?ms"
    proof -
      let ?P = "\<lambda>m. \<not> (\<exists>r \<in> set rules. on_chain sc t ch r \<and> r_Match r = m)"
      have "\<forall>m \<in> set pre \<union> set post. \<not> ?P m" unfolding new by auto
      then have "filter ?P pre = []" "filter ?P post = []" by (auto simp: filter_empty_conv)
      moreover have "filter ?P ?ms = ?ms" using old by (auto simp: filter_id_conv)
      ultimately show ?thesis by simp
    qed
    finally show ?thesis .
  qed
  moreover have "\<forall>r \<in> set ?mine. count_list (k sc (t, ch)) (r_Match r) \<le> 1"
    if "\<forall>r \<in> set rules. count_list (k (r_Scope r) (r_Table r, r_Chain r)) (r_Match r) \<le> 1"
    using that by (auto simp: on_chain_def)
  ultimately show ?thesis using del [of k] by blast
qed

theorem teardown_removes_own_witness:
  "\<exists>rules deletes. SetupPlan (Some (example_net_layout 2)) ''eth0'' = Inr rules \<and> TeardownPlan (Some (example_net_layout 2)) ''eth0'' = Inr deletes
     \<and> foldl exec_rule (foldl run_batch (\<lambda>sc tc. [[''-j'', ''DOCKER'']]) (batchRules rules)) deletes ScopeHost (tableFilter, chainForward) = [[''-j'', ''DOCKER'']]"
proof -
  obtain rules where r: "SetupPlan (Some (example_net_layout 2)) ''eth0'' = Inr rules" using example_plan by blast
  then obtain deletes where d: "TeardownPlan (Some (example_net_layout 2)) ''eth0'' = Inr deletes" by (simp add: TeardownPlan_def)
  have "\<forall>r \<in> set rules. r_Match r \<notin> set [[''-j'', ''DOCKER'']]"
    using r by (auto simp: SetupPlan_def Let_def split: if_splits)
  then show ?thesis using teardown_removes_own [OF r d example_tokens, of "\<lambda>sc tc. [[''-j'', ''DOCKER'']]" ScopeHost tableFilter chainForward] r d
    by auto
qed

end
