(* ===== verification/Buffers.thy ===== *)
theory Buffers
  imports Bytes
begin

text \<open>
  The guest agent's output buffers (\<^verbatim>\<open>beand/buffer.go\<close>): the capped buffer that collects a
  command's output and the ring that holds the last output of the user process. Both are stores of
  bytes that are written piece by piece and keep a part of everything written; the locale
  \<open>byte_log\<close> is that contract, and each buffer is an instance of it.
\<close>

section \<open>The capped buffer\<close>

record cappedBuffer =
  cb_buf :: "byte list"
  cb_max :: int
  cb_truncated :: bool

definition newCappedBuffer :: "int \<Rightarrow> cappedBuffer" where
  "newCappedBuffer mx = \<lparr>cb_buf = [], cb_max = mx, cb_truncated = False\<rparr>"

definition cappedBuffer_Write :: "cappedBuffer \<Rightarrow> byte list \<Rightarrow> cappedBuffer \<times> nat" where
  "cappedBuffer_Write c p =
     (let remain = cb_max c - int (length (cb_buf c))
      in if remain \<le> 0 then (c\<lparr>cb_truncated := True\<rparr>, length p)
         else if int (length p) > remain
         then (c\<lparr>cb_buf := cb_buf c @ take (nat remain) p, cb_truncated := True\<rparr>, length p)
         else (c\<lparr>cb_buf := cb_buf c @ p\<rparr>, length p))"

definition cappedBuffer_Bytes :: "cappedBuffer \<Rightarrow> byte list" where
  "cappedBuffer_Bytes c = overwrite (zeros (length (cb_buf c))) 0 (cb_buf c)"

definition cappedBuffer_Truncated :: "cappedBuffer \<Rightarrow> bool" where
  "cappedBuffer_Truncated c = cb_truncated c"

section \<open>The ring\<close>

record RingBuffer =
  rb_buf :: "byte list"
  rb_size :: nat
  rb_w :: nat
  rb_full :: bool

definition NewRingBuffer :: "nat \<Rightarrow> RingBuffer" where
  "NewRingBuffer sz = \<lparr>rb_buf = zeros sz, rb_size = sz, rb_w = 0, rb_full = False\<rparr>"

definition RingBuffer_Write :: "RingBuffer \<Rightarrow> byte list \<Rightarrow> RingBuffer \<times> nat" where
  "RingBuffer_Write r p =
     (let n = length p
      in if n \<ge> rb_size r
         then (r\<lparr>rb_buf := overwrite (rb_buf r) 0 (drop (n - rb_size r) p), rb_w := 0, rb_full := True\<rparr>, n)
         else let fin = rb_w r + n;
                  r = (if fin \<le> rb_size r then r\<lparr>rb_buf := overwrite (rb_buf r) (rb_w r) p\<rparr>
                       else let k = rb_size r - rb_w r
                            in r\<lparr>rb_buf := overwrite (overwrite (rb_buf r) (rb_w r) (take k p)) 0 (drop k p), rb_full := True\<rparr>);
                  r = r\<lparr>rb_w := fin mod rb_size r\<rparr>
              in (if fin \<ge> rb_size r then r\<lparr>rb_full := True\<rparr> else r, n))"

definition RingBuffer_Snapshot :: "RingBuffer \<Rightarrow> byte list" where
  "RingBuffer_Snapshot r =
     (if \<not> rb_full r then overwrite (zeros (rb_w r)) 0 (take (rb_w r) (rb_buf r))
      else overwrite (overwrite (zeros (rb_size r)) 0 (drop (rb_w r) (rb_buf r))) (rb_size r - rb_w r)
             (take (rb_w r) (rb_buf r)))"

section \<open>Logs that keep a part of what is written\<close>

locale byte_log =
  fixes put :: "'b \<Rightarrow> byte list \<Rightarrow> 'b" and content :: "'b \<Rightarrow> byte list"
    and keep :: "byte list \<Rightarrow> byte list" and okay :: "'b \<Rightarrow> bool"
  assumes okay_put: "okay b \<Longrightarrow> okay (put b p)"
    and content_put: "okay b \<Longrightarrow> content (put b p) = keep (content b @ p)"
    and keep_again: "keep (keep xs @ ys) = keep (xs @ ys)"
begin

lemma content_all:
  assumes "okay b" "content b = keep h"
  shows "okay (foldl put b ps) \<and> content (foldl put b ps) = keep (h @ concat ps)"
  using assms
proof (induction ps arbitrary: b h)
  case (Cons p ps)
  have "content (put b p) = keep (h @ p)" using Cons.prems content_put keep_again by metis
  from Cons.IH [OF okay_put [OF Cons.prems(1)] this] show ?case by simp
qed simp

end

definition lastn :: "nat \<Rightarrow> byte list \<Rightarrow> byte list" where
  "lastn n xs = drop (length xs - n) xs"

lemma lastn_again: "lastn n (lastn n xs @ ys) = lastn n (xs @ ys)"
  by (cases "length xs \<le> n") (auto simp: lastn_def add.commute)

lemma lastn_rotate:
  assumes "length b = n" "length p \<le> n"
  shows "lastn n (b @ p) = drop (length p) b @ p"
  using assms by (simp add: lastn_def)

definition ring_ok :: "nat \<Rightarrow> RingBuffer \<Rightarrow> bool" where
  "ring_ok n r \<longleftrightarrow> rb_size r = n \<and> length (rb_buf r) = n \<and> (rb_w r < n \<or> n = 0 \<and> rb_w r = 0)"

lemma ring_content:
  assumes "ring_ok n r"
  shows "RingBuffer_Snapshot r = (if rb_full r then drop (rb_w r) (rb_buf r) @ take (rb_w r) (rb_buf r) else take (rb_w r) (rb_buf r))"
  using assms by (auto simp: RingBuffer_Snapshot_def ring_ok_def overwrite_def min_def)

lemma ring_put_ok: "ring_ok n r \<Longrightarrow> ring_ok n (fst (RingBuffer_Write r p))"
  by (auto simp: ring_ok_def RingBuffer_Write_def Let_def overwrite_def)

lemma ring_put_content:
  assumes ok: "ring_ok n r"
  shows "RingBuffer_Snapshot (fst (RingBuffer_Write r p)) = lastn n (RingBuffer_Snapshot r @ p)"
proof -
  note C = ring_content [OF ring_put_ok [OF ok]] ring_content [OF ok]
  let ?w = "rb_w r" and ?b = "rb_buf r" and ?n = "length p"
  have r: "rb_size r = n" "length ?b = n" "?w < n \<or> n = 0 \<and> ?w = 0" using ok by (auto simp: ring_ok_def)
  consider "n \<le> ?n" | "?n < n" "?w + ?n < n" | "?n < n" "?w + ?n = n" | "?n < n" "?w + ?n > n" by linarith
  then show ?thesis
  proof cases
    case 1
    then show ?thesis unfolding C using r by (auto simp: RingBuffer_Write_def Let_def overwrite_def lastn_def)
  next
    case 2
    then show ?thesis unfolding C using r
      by (auto simp: RingBuffer_Write_def Let_def overwrite_def lastn_def min_def add.commute)
  next
    case 3
    then show ?thesis unfolding C using r
      by (auto simp: RingBuffer_Write_def Let_def overwrite_def lastn_def min_def add.commute)
  next
    case 4
    then have m: "(?w + ?n) mod n = ?w + ?n - n" using r by (simp add: mod_if)
    show ?thesis unfolding C using r 4 m
      by (auto simp: RingBuffer_Write_def Let_def overwrite_def lastn_def min_def add.commute)
  qed
qed

interpretation ring: byte_log "\<lambda>r p. fst (RingBuffer_Write r p)" RingBuffer_Snapshot "lastn n" "ring_ok n" for n
  by unfold_locales (simp_all add: ring_put_ok ring_put_content lastn_again)

definition capped_ok :: "int \<Rightarrow> cappedBuffer \<Rightarrow> bool" where
  "capped_ok mx c \<longleftrightarrow> cb_max c = mx \<and> length (cb_buf c) \<le> nat mx"

interpretation capped: byte_log "\<lambda>c p. fst (cappedBuffer_Write c p)" cappedBuffer_Bytes "take (nat mx)" "capped_ok mx" for mx
proof unfold_locales
  fix b p assume ok: "capped_ok mx b"
  then show "capped_ok mx (fst (cappedBuffer_Write b p))"
    by (auto simp: capped_ok_def cappedBuffer_Write_def Let_def)
  show "cappedBuffer_Bytes (fst (cappedBuffer_Write b p)) = take (nat mx) (cappedBuffer_Bytes b @ p)"
    using ok by (auto simp: capped_ok_def cappedBuffer_Write_def cappedBuffer_Bytes_def overwrite_def Let_def nat_diff_distrib')
qed (simp add: min_def)

text \<open>The flag: set exactly when bytes were dropped, for a caller that never writes an empty piece to a full buffer.\<close>

lemma capped_flag:
  assumes "capped_ok mx c" "cb_truncated c = (length h > nat mx)" "cb_buf c = take (nat mx) h" "\<forall>p \<in> set ps. p \<noteq> []"
  shows "cb_truncated (foldl (\<lambda>c p. fst (cappedBuffer_Write c p)) c ps) = (length (h @ concat ps) > nat mx)"
  using assms
proof (induction ps arbitrary: c h)
  case (Cons p ps)
  let ?c = "fst (cappedBuffer_Write c p)"
  obtain x q where p: "p = x # q" using Cons.prems(4) by (cases p) auto
  have "cb_truncated ?c = (length (h @ p) > nat mx)" "cb_buf ?c = take (nat mx) (h @ p)"
    using Cons.prems(1-3) unfolding p by (auto simp: capped_ok_def cappedBuffer_Write_def Let_def min_def nat_diff_distrib' split: if_splits)
  from Cons.IH [OF capped.okay_put [OF Cons.prems(1)] this] Cons.prems(4) show ?case by simp
qed simp

text \<open>
  C40. The agent's buffers hold the bytes they promise. After any sequence of writes, the ring's snapshot is
  the last bytes written, in order, as many as the ring holds; a command's captured output is the first
  bytes written up to the cap, and (when no write is empty) it is flagged as truncated exactly when bytes
  were dropped.
\<close>

theorem buffers_exact:
  assumes "\<forall>p \<in> set ps. p \<noteq> []"
    and c: "c = foldl (\<lambda>c p. fst (cappedBuffer_Write c p)) (newCappedBuffer mx) ps"
  shows "RingBuffer_Snapshot (foldl (\<lambda>r p. fst (RingBuffer_Write r p)) (NewRingBuffer n) ps) = lastn n (concat ps)
    \<and> cappedBuffer_Bytes c = take (nat mx) (concat ps) \<and> cappedBuffer_Truncated c = (length (concat ps) > nat mx)"
proof (intro conjI)
  have "ring_ok n (NewRingBuffer n)" "RingBuffer_Snapshot (NewRingBuffer n) = lastn n []"
    by (auto simp: ring_ok_def NewRingBuffer_def RingBuffer_Snapshot_def overwrite_def lastn_def zeros_def)
  from ring.content_all [OF this, of ps]
  show "RingBuffer_Snapshot (foldl (\<lambda>r p. fst (RingBuffer_Write r p)) (NewRingBuffer n) ps) = lastn n (concat ps)" by simp
  have new: "capped_ok mx (newCappedBuffer mx)" "cappedBuffer_Bytes (newCappedBuffer mx) = take (nat mx) []"
    by (auto simp: capped_ok_def newCappedBuffer_def cappedBuffer_Bytes_def overwrite_def zeros_def)
  from capped.content_all [OF this, of ps] c show "cappedBuffer_Bytes c = take (nat mx) (concat ps)" by simp
  show "cappedBuffer_Truncated c = (length (concat ps) > nat mx)"
    using capped_flag [OF new(1), of "[]" ps] assms by (simp add: cappedBuffer_Truncated_def newCappedBuffer_def)
qed

theorem buffers_exact_witness:
  "RingBuffer_Snapshot (foldl (\<lambda>r p. fst (RingBuffer_Write r p)) (NewRingBuffer 3) [[1, 2], [3, 4]]) = [2, 3, 4]
   \<and> cappedBuffer_Truncated (foldl (\<lambda>c p. fst (cappedBuffer_Write c p)) (newCappedBuffer 3) [[1, 2], [3, 4]])"
  using buffers_exact [of "[[1, 2], [3, 4]]" _ 3 3, OF _ refl] by (simp add: lastn_def)

end
