(* ===== verification/Guards.thy ===== *)
theory Guards
  imports Bytes Format
begin

text \<open>
  The node's resource guards: the disk and memory guards that refuse new sandboxes under real pressure
  (\<^verbatim>\<open>node/diskguard.go\<close>, \<^verbatim>\<open>memguard.go\<close>), the file their thresholds are kept in
  (\<^verbatim>\<open>admissionstore.go\<close>), the overcommit factors (\<^verbatim>\<open>overcommit.go\<close>) and the CPU sampler
  (\<^verbatim>\<open>loadstat.go\<close>). Percentages are rationals; what the kernel reports (\<^verbatim>\<open>statfs\<close>, the contents of
  \<^verbatim>\<open>/proc\<close> files) is an argument.
\<close>

text \<open>Conversion of a \<^verbatim>\<open>float64\<close> to \<^verbatim>\<open>int64\<close>: towards zero.\<close>

definition int64_of :: "rat \<Rightarrow> int" where
  "int64_of x = (if x < 0 then - \<lfloor>- x\<rfloor> else \<lfloor>x\<rfloor>)"

text \<open>\<^verbatim>\<open>bufio.Scanner\<close> over lines: the last line need not end in a newline, and a carriage return before one is cut.\<close>

definition scan_lines :: "string \<Rightarrow> string list" where
  "scan_lines s =
     (let ls = split_on (CHR 0x0A) s; ls = (if last ls = '''' then butlast ls else ls)
      in map (\<lambda>l. if l \<noteq> '''' \<and> last l = CHR 0x0D then butlast l else l) ls)"

section \<open>Disk\<close>

record DiskGuard =
  dg_Path :: string
  dg_MinFreeBytes :: int
  dg_MinFreePercent :: rat

definition DiskGuard_Validate :: "DiskGuard \<Rightarrow> go_error option" where
  "DiskGuard_Validate g =
     (if dg_MinFreeBytes g < 0 then Some (Errorf ''minimum free disk must not be negative'' [AInt (dg_MinFreeBytes g)])
      else if dg_MinFreePercent g < 0 \<or> dg_MinFreePercent g \<ge> 100
      then Some (Errorf ''minimum free disk percent must be in [0,100)'' [])
      else None)"

definition DiskGuard_Enabled :: "DiskGuard \<Rightarrow> bool" where
  "DiskGuard_Enabled g \<longleftrightarrow> dg_Path g \<noteq> '''' \<and> (dg_MinFreeBytes g > 0 \<or> dg_MinFreePercent g > 0)"

record DiskStats =
  ds_TotalBytes :: int
  ds_FreeBytes :: int
  ds_UsedBytes :: int

text \<open>What \<^verbatim>\<open>syscall.Statfs\<close> fills in.\<close>

record Statfs_t =
  fs_Bsize :: int
  fs_Blocks :: int
  fs_Bfree :: int
  fs_Bavail :: int

type_synonym statfs = "string \<Rightarrow> go_error + Statfs_t"

definition DiskGuard_Stat :: "statfs \<Rightarrow> DiskGuard \<Rightarrow> go_error + DiskStats" where
  "DiskGuard_Stat statfs g =
     (case statfs (dg_Path g) of
        Inl e \<Rightarrow> Inl (Wrapf ''statfs %s'' [AStr (dg_Path g)] e)
      | Inr fs \<Rightarrow>
          (let tot = fs_Blocks fs * fs_Bsize fs; free = fs_Bavail fs * fs_Bsize fs
           in Inr \<lparr>ds_TotalBytes = tot, ds_FreeBytes = free, ds_UsedBytes = tot - fs_Bfree fs * fs_Bsize fs\<rparr>))"

definition floorFor :: "DiskGuard \<Rightarrow> int \<Rightarrow> int" where
  "floorFor g tot =
     (let flr = dg_MinFreeBytes g
      in if dg_MinFreePercent g > 0
         then let pct = int64_of (of_int tot * dg_MinFreePercent g / 100) in if pct > flr then pct else flr
         else flr)"

datatype admit_error = ErrDiskPressure int int string | ErrMemPressure rat rat

definition DiskGuard_Admit :: "statfs \<Rightarrow> DiskGuard \<Rightarrow> admit_error option" where
  "DiskGuard_Admit statfs g =
     (if \<not> DiskGuard_Enabled g then None
      else case DiskGuard_Stat statfs g of
          Inl e \<Rightarrow> None
        | Inr stats \<Rightarrow>
            (let flr = floorFor g (ds_TotalBytes stats)
             in if ds_FreeBytes stats \<ge> flr then None else Some (ErrDiskPressure (ds_FreeBytes stats) flr (dg_Path g))))"

section \<open>Memory\<close>

record MemGuard =
  mg_MaxUsedPercent :: rat
  mg_Path :: string

definition MemGuard_Validate :: "MemGuard \<Rightarrow> go_error option" where
  "MemGuard_Validate g =
     (if mg_MaxUsedPercent g < 0 \<or> mg_MaxUsedPercent g \<ge> 100
      then Some (Errorf ''maximum memory used percent must be in [0,100)'' []) else None)"

definition MemGuard_Enabled :: "MemGuard \<Rightarrow> bool" where
  "MemGuard_Enabled g \<longleftrightarrow> mg_MaxUsedPercent g > 0"

definition MemGuard_path :: "MemGuard \<Rightarrow> string" where
  "MemGuard_path g = (if mg_Path g \<noteq> '''' then mg_Path g else ''/proc/meminfo'')"

record MemStats =
  ms_TotalBytes :: int
  ms_AvailableBytes :: int

definition UsedPercent :: "MemStats \<Rightarrow> rat" where
  "UsedPercent s =
     (if ms_TotalBytes s \<le> 0 then 0
      else of_int (ms_TotalBytes s - ms_AvailableBytes s) / of_int (ms_TotalBytes s) * 100)"

definition meminfoKiBToBytes :: "string \<Rightarrow> go_error + int" where
  "meminfoKiBToBytes line =
     (case Fields line of
        _ # v # _ \<Rightarrow> (case Atoi v of None \<Rightarrow> Inl (Errorf ''parse meminfo line %q'' [AStr line]) | Some kib \<Rightarrow> Inr (kib * 1024))
      | _ \<Rightarrow> Inl (Errorf ''malformed meminfo line %q'' [AStr line]))"

fun scan_meminfo :: "string list \<Rightarrow> int option \<Rightarrow> int option \<Rightarrow> go_error + int option \<times> int option" where
  "scan_meminfo [] tot avail = Inr (tot, avail)"
| "scan_meminfo (line # ls) tot avail =
     (case (if HasPrefix line ''MemTotal:'' then map_sum id (\<lambda>v. (Some v, avail)) (meminfoKiBToBytes line)
            else if HasPrefix line ''MemAvailable:'' then map_sum id (\<lambda>v. (tot, Some v)) (meminfoKiBToBytes line)
            else Inr (tot, avail)) of
        Inl e \<Rightarrow> Inl e
      | Inr (tot, avail) \<Rightarrow> if tot \<noteq> None \<and> avail \<noteq> None then Inr (tot, avail) else scan_meminfo ls tot avail)"

text \<open>The file system the guards read from: a path's contents, or why it cannot be opened.\<close>

type_synonym files = "string \<Rightarrow> go_error + string"

definition MemGuard_Stat :: "files \<Rightarrow> MemGuard \<Rightarrow> go_error + MemStats" where
  "MemGuard_Stat files g =
     (case files (MemGuard_path g) of
        Inl e \<Rightarrow> Inl (Wrapf ''open %s'' [AStr (MemGuard_path g)] e)
      | Inr s \<Rightarrow>
          (case scan_meminfo (scan_lines s) None None of
             Inl e \<Rightarrow> Inl e
           | Inr (Some tot, Some avail) \<Rightarrow> Inr \<lparr>ms_TotalBytes = tot, ms_AvailableBytes = avail\<rparr>
           | Inr _ \<Rightarrow> Inl (Errorf ''%s missing MemTotal/MemAvailable'' [AStr (MemGuard_path g)])))"

definition MemGuard_Admit :: "files \<Rightarrow> MemGuard \<Rightarrow> admit_error option" where
  "MemGuard_Admit files g =
     (if \<not> MemGuard_Enabled g then None
      else case MemGuard_Stat files g of
          Inl e \<Rightarrow> None
        | Inr stats \<Rightarrow>
            (let used = UsedPercent stats
             in if used < mg_MaxUsedPercent g then None else Some (ErrMemPressure used (mg_MaxUsedPercent g))))"

text \<open>What the two guards promise: a create is refused exactly when a floor or the ceiling is really crossed.\<close>

lemma disk_admit_iff:
  assumes "DiskGuard_Enabled g" "statfs (dg_Path g) = Inr fs"
  shows "DiskGuard_Admit statfs g = None \<longleftrightarrow> fs_Bavail fs * fs_Bsize fs \<ge> dg_MinFreeBytes g
    \<and> (dg_MinFreePercent g > 0 \<longrightarrow> fs_Bavail fs * fs_Bsize fs \<ge> int64_of (of_int (fs_Blocks fs * fs_Bsize fs) * dg_MinFreePercent g / 100))"
  using assms by (auto simp: DiskGuard_Admit_def DiskGuard_Stat_def floorFor_def Let_def)

text \<open>The floor only rises when a percentage is added to a byte count.\<close>

lemma floorFor_tightens: "floorFor (g\<lparr>dg_MinFreePercent := 0\<rparr>) tot \<le> floorFor g tot"
  by (simp add: floorFor_def Let_def)

section \<open>The thresholds' file\<close>

record admissionFile =
  af_MinFreeDiskMiB :: int
  af_MinFreeDiskPercent :: rat
  af_MaxMemPercent :: rat

text \<open>
  \<^verbatim>\<open>encoding/json\<close> and the directory are arguments: \<open>unmarshal\<close> reads a file's text, \<open>marshal\<close> writes it.
  A directory maps paths to texts; a read can also fail for a reason other than absence.
\<close>

type_synonym dir = "string \<rightharpoonup> string"

definition zeroDiskGuard :: DiskGuard where
  "zeroDiskGuard = \<lparr>dg_Path = '''', dg_MinFreeBytes = 0, dg_MinFreePercent = 0\<rparr>"

definition zeroMemGuard :: MemGuard where
  "zeroMemGuard = \<lparr>mg_MaxUsedPercent = 0, mg_Path = ''''\<rparr>"

definition LoadAdmission ::
  "(string \<Rightarrow> go_error + admissionFile) \<Rightarrow> go_error option \<Rightarrow> dir \<Rightarrow> string \<Rightarrow> string
    \<Rightarrow> DiskGuard \<times> MemGuard \<times> bool \<times> go_error option" where
  "LoadAdmission unmarshal read_err d path diskPath =
     (case d path of
        None \<Rightarrow> (zeroDiskGuard\<lparr>dg_Path := diskPath\<rparr>, zeroMemGuard, False, None)
      | Some b \<Rightarrow>
          (case read_err of
             Some e \<Rightarrow> (zeroDiskGuard, zeroMemGuard, False, Some (Wrapf ''read admission config %s'' [AStr path] e))
           | None \<Rightarrow>
          (case unmarshal b of
             Inl e \<Rightarrow> (zeroDiskGuard, zeroMemGuard, False, Some (Wrapf ''parse admission config %s'' [AStr path] e))
           | Inr f \<Rightarrow>
               (let disk = \<lparr>dg_Path = diskPath, dg_MinFreeBytes = push_bit 20 (af_MinFreeDiskMiB f), dg_MinFreePercent = af_MinFreeDiskPercent f\<rparr>;
                    mem = zeroMemGuard\<lparr>mg_MaxUsedPercent := af_MaxMemPercent f\<rparr>
                in case DiskGuard_Validate disk of
                     Some e \<Rightarrow> (zeroDiskGuard, zeroMemGuard, False, Some (Wrapf ''admission config %s: disk'' [AStr path] e))
                   | None \<Rightarrow>
                       (case MemGuard_Validate mem of
                          Some e \<Rightarrow> (zeroDiskGuard, zeroMemGuard, False, Some (Wrapf ''admission config %s: memory'' [AStr path] e))
                        | None \<Rightarrow> (disk, mem, True, None))))))"

text \<open>Where saving can fail: encoding, creating the parent directory, writing the temporary file (of which it then leaves some text), and the rename.\<close>

record save_faults =
  sf_mkdir :: "go_error option"
  sf_write :: "(go_error \<times> string option) option"
  sf_rename :: "go_error option"

definition SaveAdmission ::
  "(admissionFile \<Rightarrow> go_error + string) \<Rightarrow> save_faults \<Rightarrow> dir \<Rightarrow> string \<Rightarrow> DiskGuard \<Rightarrow> MemGuard \<Rightarrow> dir \<times> go_error option" where
  "SaveAdmission marshal flt d path disk mem =
     (let f = \<lparr>af_MinFreeDiskMiB = drop_bit 20 (dg_MinFreeBytes disk), af_MinFreeDiskPercent = dg_MinFreePercent disk,
               af_MaxMemPercent = mg_MaxUsedPercent mem\<rparr>
      in case marshal f of
           Inl e \<Rightarrow> (d, Some (Wrapf ''encode admission config'' [] e))
         | Inr b \<Rightarrow>
      (case sf_mkdir flt of
           Some e \<Rightarrow> (d, Some (Wrapf ''create admission config dir'' [] e))
         | None \<Rightarrow>
      (let tmp = path @ ''.tmp''
       in case sf_write flt of
            Some (e, left) \<Rightarrow> (d(tmp := left), Some (Wrapf ''write admission config'' [] e))
          | None \<Rightarrow>
              (case sf_rename flt of
                 Some e \<Rightarrow> (d(tmp \<mapsto> b), Some (Wrapf ''replace admission config'' [] e))
               | None \<Rightarrow> ((d(tmp := None))(path \<mapsto> b), None)))))"

text \<open>
  A restart finds the thresholds that were saved, with the byte floor cut to whole MiB; and a save that
  fails leaves the file that was there.
\<close>

lemma admission_roundtrip:
  assumes json: "\<And>f. \<exists>b. marshal f = Inr b \<and> unmarshal b = Inr f"
    and "DiskGuard_Validate disk = None" "MemGuard_Validate mem = None"
    and "SaveAdmission marshal flt d path disk mem = (d', r)"
  shows "(r = None \<longrightarrow> LoadAdmission unmarshal None d' path diskPath =
        (disk\<lparr>dg_Path := diskPath, dg_MinFreeBytes := dg_MinFreeBytes disk - dg_MinFreeBytes disk mod 2 ^ 20\<rparr>,
         mem\<lparr>mg_Path := ''''\<rparr>, True, None))
    \<and> (r \<noteq> None \<longrightarrow> d' path = d path)"
proof
  let ?f = "\<lparr>af_MinFreeDiskMiB = drop_bit 20 (dg_MinFreeBytes disk), af_MinFreeDiskPercent = dg_MinFreePercent disk,
               af_MaxMemPercent = mg_MaxUsedPercent mem\<rparr>"
  obtain b where b: "marshal ?f = Inr b" "unmarshal b = Inr ?f" using json by blast
  have ne: "path @ ''.tmp'' \<noteq> path" by simp
  have cut: "push_bit 20 (drop_bit 20 (dg_MinFreeBytes disk)) = dg_MinFreeBytes disk - dg_MinFreeBytes disk mod 2 ^ 20"
    by (simp add: push_bit_eq_mult drop_bit_eq_div minus_mod_eq_div_mult)
  have pos: "0 \<le> dg_MinFreeBytes disk - dg_MinFreeBytes disk mod 1048576"
    using assms(2) zmod_le_nonneg_dividend [of "dg_MinFreeBytes disk" 1048576] by (simp add: DiskGuard_Validate_def split: if_splits)
  show "r = None \<longrightarrow> LoadAdmission unmarshal None d' path diskPath =
        (disk\<lparr>dg_Path := diskPath, dg_MinFreeBytes := dg_MinFreeBytes disk - dg_MinFreeBytes disk mod 2 ^ 20\<rparr>,
         mem\<lparr>mg_Path := ''''\<rparr>, True, None)"
  proof
    assume "r = None"
    then have d': "d' path = Some b" using assms(4) b(1) by (auto simp: SaveAdmission_def Let_def split: option.splits)
    show "LoadAdmission unmarshal None d' path diskPath =
        (disk\<lparr>dg_Path := diskPath, dg_MinFreeBytes := dg_MinFreeBytes disk - dg_MinFreeBytes disk mod 2 ^ 20\<rparr>,
         mem\<lparr>mg_Path := ''''\<rparr>, True, None)"
      using assms(2,3) d' b(2) pos
      by (simp add: LoadAdmission_def Let_def DiskGuard_Validate_def MemGuard_Validate_def zeroMemGuard_def cut [simplified] split: if_splits)
  qed
  show "r \<noteq> None \<longrightarrow> d' path = d path"
    using assms(4) b(1) ne by (auto simp: SaveAdmission_def Let_def split: option.splits)
qed

section \<open>Overcommit\<close>

text \<open>A \<^verbatim>\<open>float64\<close> an operator typed may be no number at all.\<close>

datatype go_float = Finite rat | NaN | Inf bool

fun float_mult :: "go_float \<Rightarrow> rat \<Rightarrow> go_float" where
  "float_mult (Finite x) y = Finite (x * y)"
| "float_mult NaN y = NaN"
| "float_mult (Inf pos) y = (if y = 0 then NaN else Inf (pos = (y > 0)))"

fun float_le :: "go_float \<Rightarrow> rat \<Rightarrow> bool" where
  "float_le (Finite x) y = (x \<le> y)"
| "float_le NaN y = False"
| "float_le (Inf pos) y = (\<not> pos)"

record Overcommit =
  oc_CPU :: go_float
  oc_Memory :: go_float

definition DefaultOvercommit :: Overcommit where
  "DefaultOvercommit = \<lparr>oc_CPU = Finite 1, oc_Memory = Finite 1\<rparr>"

definition maxOvercommit :: rat where "maxOvercommit = 20"

fun check_factor :: "string \<Rightarrow> go_float \<Rightarrow> go_error option" where
  "check_factor name (Finite x) =
     (if x < 1 then Some (Errorf ''overcommit %s is below 1.0'' [AStr name])
      else if x > maxOvercommit then Some (Errorf ''overcommit %s is above the ceiling'' [AStr name])
      else None)"
| "check_factor name NaN = Some (Errorf ''overcommit %s must be a finite number'' [AStr name])"
| "check_factor name (Inf pos) = Some (Errorf ''overcommit %s must be a finite number'' [AStr name])"

definition Overcommit_Validate :: "Overcommit \<Rightarrow> go_error option" where
  "Overcommit_Validate oc =
     (case check_factor ''cpu'' (oc_CPU oc) of Some e \<Rightarrow> Some e | None \<Rightarrow> check_factor ''memory'' (oc_Memory oc))"

definition ApplyCPU :: "Overcommit \<Rightarrow> rat \<Rightarrow> go_float" where
  "ApplyCPU oc cpu = (if float_le (oc_CPU oc) 0 then Finite cpu else float_mult (oc_CPU oc) cpu)"

text \<open>The conversion to \<^verbatim>\<open>int64\<close> is left open by Go when the product is no number: \<open>None\<close>.\<close>

definition ApplyMemory :: "Overcommit \<Rightarrow> int \<Rightarrow> int option" where
  "ApplyMemory oc mib =
     (if float_le (oc_Memory oc) 0 then Some mib
      else case float_mult (oc_Memory oc) (of_int mib) of Finite x \<Rightarrow> Some (int64_of x) | _ \<Rightarrow> None)"

text \<open>A factor that passes validation never reports less than the node has, nor more than twenty times it.\<close>

lemma overcommit_bounds:
  assumes "Overcommit_Validate oc = None" "0 \<le> mib"
  shows "\<exists>v. ApplyMemory oc mib = Some v \<and> mib \<le> v \<and> v \<le> 20 * mib"
proof -
  obtain x where x: "oc_Memory oc = Finite x" "1 \<le> x" "x \<le> 20"
    using assms(1) by (cases "oc_Memory oc") (auto simp: Overcommit_Validate_def maxOvercommit_def split: option.splits if_splits)
  have "of_int mib * 1 \<le> of_int mib * x" "of_int mib * x \<le> of_int mib * 20" using x assms(2) by (intro mult_left_mono; simp)+
  then have "mib \<le> \<lfloor>x * of_int mib\<rfloor>" "\<lfloor>x * of_int mib\<rfloor> \<le> 20 * mib" "\<not> x * of_int mib < 0"
    using x assms(2) by (simp_all add: le_floor_iff floor_le_iff mult.commute)
  then show ?thesis using x(1,2) by (simp only: ApplyMemory_def int64_of_def float_le.simps float_mult.simps go_float.simps if_False) simp
qed

section \<open>CPU load\<close>

record cpuSampler =
  cs_path :: string
  cs_haveLast :: bool
  cs_lastIdle :: "64 word"
  cs_lastAll :: "64 word"

definition newCPUSampler :: "string \<Rightarrow> cpuSampler" where
  "newCPUSampler path = \<lparr>cs_path = (if path = '''' then ''/proc/stat'' else path), cs_haveLast = False, cs_lastIdle = 0, cs_lastAll = 0\<rparr>"

text \<open>\<^verbatim>\<open>strconv.ParseUint(s, 10, 64)\<close>.\<close>

definition ParseUint :: "string \<Rightarrow> 64 word option" where
  "ParseUint s = (if s = '''' \<or> \<not> list_all is_digit s \<or> dec_val s \<ge> 2 ^ 64 then None else Some (of_nat (dec_val s)))"

fun sum_fields :: "string \<Rightarrow> string list \<Rightarrow> nat \<Rightarrow> 64 word \<Rightarrow> 64 word \<Rightarrow> go_error + 64 word \<times> 64 word" where
  "sum_fields path [] i idle acc = Inr (idle, acc)"
| "sum_fields path (f # fs) i idle acc =
     (if i \<ge> 8 then Inr (idle, acc)
      else case ParseUint f of
          None \<Rightarrow> Inl (Errorf ''parse %s field %d %q'' [AStr path, AInt (int i), AStr f])
        | Some v \<Rightarrow> sum_fields path fs (i + 1) (if i = 3 \<or> i = 4 then idle + v else idle) (acc + v))"

fun find_cpu_line :: "string \<Rightarrow> string list \<Rightarrow> go_error + 64 word \<times> 64 word" where
  "find_cpu_line path [] = Inl (Errorf ''%s has no aggregate cpu line'' [AStr path])"
| "find_cpu_line path (line # ls) =
     (if \<not> HasPrefix line ''cpu '' then find_cpu_line path ls else sum_fields path (tl (Fields line)) 0 0 0)"

definition readProcStatCPU :: "files \<Rightarrow> string \<Rightarrow> go_error + 64 word \<times> 64 word" where
  "readProcStatCPU files path =
     (case files path of Inl e \<Rightarrow> Inl (Wrapf ''open %s'' [AStr path] e) | Inr s \<Rightarrow> find_cpu_line path (scan_lines s))"

definition cpuSampler_Percent :: "files \<Rightarrow> cpuSampler \<Rightarrow> cpuSampler \<times> rat" where
  "cpuSampler_Percent files s =
     (case readProcStatCPU files (cs_path s) of
        Inl e \<Rightarrow> (s, 0)
      | Inr (idle, all) \<Rightarrow>
          if \<not> cs_haveLast s then (s\<lparr>cs_haveLast := True, cs_lastIdle := idle, cs_lastAll := all\<rparr>, 0)
          else let prevIdle = cs_lastIdle s; prevAll = cs_lastAll s; s = s\<lparr>cs_lastIdle := idle, cs_lastAll := all\<rparr>
               in if all \<le> prevAll \<or> idle < prevIdle then (s, 0)
                  else let dAll = all - prevAll; dIdle = idle - prevIdle;
                           busy = rat_of_int (uint (dAll - dIdle)) / rat_of_int (uint dAll) * 100;
                           busy = (if busy < 0 then 0 else busy);
                           busy = (if busy > 100 then 100 else busy)
                       in (s, busy))"

lemma percent_bounds: "0 \<le> snd (cpuSampler_Percent files s) \<and> snd (cpuSampler_Percent files s) \<le> 100"
  by (simp add: cpuSampler_Percent_def Let_def split: sum.splits prod.splits)

text \<open>
  The guard against wrapping looks at the two counters one by one. When idle time grew by more than the
  total did (another counter having gone back), the difference wraps and an idle processor is reported as
  fully loaded.
\<close>

lemma percent_wraps:
  assumes "readProcStatCPU files (cs_path s) = Inr (idle, all)" "cs_haveLast s"
    and "cs_lastAll s < all" "cs_lastIdle s \<le> idle" "all - cs_lastAll s < idle - cs_lastIdle s" "uint (all - cs_lastAll s) < 2 ^ 62"
    and "uint (idle - cs_lastIdle s) < 2 ^ 62"
  shows "snd (cpuSampler_Percent files s) = 100"
proof -
  let ?a = "all - cs_lastAll s" and ?i = "idle - cs_lastIdle s"
  have lt: "uint ?a < uint ?i" using assms(5) by (simp add: word_less_def)
  have "uint (?a - ?i) = (uint ?a - uint ?i) mod 2 ^ 64" by (simp add: uint_word_ariths)
  also have "\<dots> = (uint ?a - uint ?i + 2 ^ 64) mod 2 ^ 64" by (simp only: mod_add_self2)
  also have "\<dots> = uint ?a - uint ?i + 2 ^ 64"
  proof (rule mod_pos_pos_trivial)
    show "0 \<le> uint ?a - uint ?i + 2 ^ 64" using assms(7) uint_ge_0 [of ?a] by (simp; linarith)
    show "uint ?a - uint ?i + 2 ^ 64 < 2 ^ 64" using lt by linarith
  qed
  finally have u: "uint (?a - ?i) = uint ?a - uint ?i + 2 ^ 64" .
  have "?a \<noteq> 0" using assms(3) by auto
  then have pos: "0 < uint ?a" using uint_0_iff [of ?a] uint_ge_0 [of ?a] by linarith
  have "uint ?a < uint (?a - ?i)" using u assms(6,7) by (simp; linarith)
  moreover have "100 < rat_of_int y / rat_of_int x * 100" if "0 < x" "x < y" for x y using that by (simp add: less_divide_eq)
  ultimately have "100 < rat_of_int (uint (?a - ?i)) / rat_of_int (uint ?a) * 100" using pos by blast
  then show ?thesis using assms(1-4) by (simp add: cpuSampler_Percent_def Let_def not_le not_less)
qed

end
