(* ===== verification/Interleave.thy ===== *)
theory Interleave
  imports Prelude
begin

text \<open>
  Programs that take turns. A method that locks and unlocks a mutex and calls out in between is a sequence
  of atomic actions on a shared state: one per locked region, one per call. \<open>prog\<close> is such a sequence, in
  which what comes next may depend on the state the last action found. \<open>run\<close> performs a program alone;
  \<open>reaches\<close> lets any number of programs, started at any time, take turns action by action.

  \<open>keeps\<close> is what a program owes the others: it keeps an invariant, and everything it leaves behind that
  somebody still has to deal with, it has claimed and deals with before it ends. The locale
  \<open>discipline\<close> draws the conclusion for all interleavings.
\<close>

datatype ('s, 'r) prog = Ret 'r | Act "'s \<Rightarrow> 's" "'s \<Rightarrow> ('s, 'r) prog"

primrec andThen :: "('s, 'a) prog \<Rightarrow> ('a \<Rightarrow> ('s, 'b) prog) \<Rightarrow> ('s, 'b) prog" where
  "andThen (Ret r) f = f r"
| "andThen (Act u k) f = Act u (\<lambda>s. andThen (k s) f)"

primrec run :: "('s, 'r) prog \<Rightarrow> 's \<Rightarrow> 's \<times> 'r" where
  "run (Ret r) s = (s, r)"
| "run (Act u k) s = run (k s) (u s)"

definition atom :: "('s \<Rightarrow> 's \<times> 'r) \<Rightarrow> ('s, 'r) prog" where
  "atom g = Act (\<lambda>s. fst (g s)) (\<lambda>s. Ret (snd (g s)))"

primrec for_each :: "('a \<Rightarrow> ('s, unit) prog) \<Rightarrow> 'a list \<Rightarrow> ('s, unit) prog" where
  "for_each f [] = Ret ()"
| "for_each f (x # xs) = andThen (f x) (\<lambda>_. for_each f xs)"

lemma run_andThen [simp]: "run (andThen p f) s = (case run p s of (s', r) \<Rightarrow> run (f r) s')"
  by (induction p arbitrary: s) auto

lemma run_atom [simp]: "run (atom g) s = g s"
  by (simp add: atom_def)

lemma andThen_assoc: "andThen (andThen p f) g = andThen p (\<lambda>r. andThen (f r) g)"
  by (induction p) auto

section \<open>Taking turns\<close>

text \<open>\<open>starts p\<close>: a program that may be started; \<open>moves s s'\<close>: what the rest of the world may do to the state.\<close>

inductive reaches :: "(('s, unit) prog \<Rightarrow> bool) \<Rightarrow> ('s \<Rightarrow> 's \<Rightarrow> bool) \<Rightarrow> 's \<Rightarrow> 's \<Rightarrow> ('s, unit) prog list \<Rightarrow> bool"
  for starts moves s0 where
  none: "reaches starts moves s0 s0 []"
| start: "reaches starts moves s0 s (ts @ [p])" if "reaches starts moves s0 s ts" "starts p"
| turn: "reaches starts moves s0 (u s) (ts[i := k s])" if "reaches starts moves s0 s ts" "i < length ts" "ts ! i = Act u k"
| world: "reaches starts moves s0 s' ts" if "reaches starts moves s0 s ts" "moves s s'"

definition finished :: "('s, unit) prog list \<Rightarrow> bool" where
  "finished ts \<longleftrightarrow> set ts \<subseteq> {Ret ()}"

text \<open>A program that gets all the turns runs as \<open>run\<close> says.\<close>

lemma reaches_run:
  "reaches starts moves s0 s ts \<Longrightarrow> i < length ts \<Longrightarrow> ts ! i = p \<Longrightarrow> reaches starts moves s0 (fst (run p s)) (ts[i := Ret ()])"
proof (induction p arbitrary: s ts)
  case (Ret r)
  then have "ts[i := Ret ()] = ts" by (metis (full_types) list_update_id old.unit.exhaust)
  then show ?case using Ret by simp
next
  case (Act u k)
  have "reaches starts moves s0 (u s) (ts[i := k s])" using reaches.turn [OF Act.prems] .
  from Act.IH [OF rangeI this] Act.prems(2) show ?case by simp
qed

lemma reaches_alone:
  assumes "reaches starts moves s0 s ts" "finished ts" "starts p"
  shows "\<exists>ts'. reaches starts moves s0 (fst (run p s)) ts' \<and> finished ts'"
proof -
  have "reaches starts moves s0 (fst (run p s)) ((ts @ [p])[length ts := Ret ()])"
    using reaches_run [OF reaches.start [OF assms(1,3)], of "length ts" p] by simp
  moreover have "finished ((ts @ [p])[length ts := Ret ()])" using assms(2) by (auto simp: finished_def)
  ultimately show ?thesis by blast
qed

section \<open>What a program owes the others\<close>

primrec keeps :: "('s \<Rightarrow> bool) \<Rightarrow> ('s \<Rightarrow> 'c set) \<Rightarrow> ('s, 'r) prog \<Rightarrow> 'c set \<Rightarrow> ('r \<Rightarrow> 'c set \<Rightarrow> bool) \<Rightarrow> bool" where
  "keeps good needs (Ret r) c Q = Q r c"
| "keeps good needs (Act u k) c Q =
     (\<forall>s. good s \<longrightarrow> good (u s) \<and> (\<exists>c'. needs (u s) \<subseteq> needs s \<union> c' \<and> needs (u s) \<inter> c \<subseteq> c' \<and> keeps good needs (k s) c' Q))"

lemma keeps_andThen:
  assumes "keeps good needs p c R" "\<And>r c'. R r c' \<Longrightarrow> keeps good needs (f r) c' Q"
  shows "keeps good needs (andThen p f) c Q"
  using assms(1)
proof (induction p arbitrary: c)
  case (Act u k)
  then show ?case by (simp, meson rangeI)
qed (use assms(2) in simp)

lemma keeps_weaken:
  "keeps good needs p c R \<Longrightarrow> (\<And>r c'. R r c' \<Longrightarrow> Q r c') \<Longrightarrow> keeps good needs p c Q"
proof (induction p arbitrary: c)
  case (Act u k)
  then show ?case by (simp, meson rangeI)
qed simp

lemma keeps_atom:
  assumes "\<And>s. good s \<Longrightarrow> good (fst (g s)) \<and>
    (\<exists>c'. needs (fst (g s)) \<subseteq> needs s \<union> c' \<and> needs (fst (g s)) \<inter> c \<subseteq> c' \<and> Q (snd (g s)) c')"
  shows "keeps good needs (atom g) c Q"
  using assms by (simp add: atom_def)

text \<open>An action that leaves nothing new to be dealt with needs no claim.\<close>

lemma keeps_quiet:
  assumes "\<And>s. good s \<Longrightarrow> good (fst (g s)) \<and> needs (fst (g s)) \<subseteq> needs s"
  shows "keeps good needs (atom g) c (\<lambda>r c'. c' = c)"
  by (rule keeps_atom) (use assms in blast)

lemma keeps_for_each:
  assumes "\<And>x. x \<in> set xs \<Longrightarrow> keeps good needs (f x) c (\<lambda>r c'. c' = c)"
  shows "keeps good needs (for_each f xs) c (\<lambda>r c'. c' = c)"
  using assms
proof (induction xs)
  case (Cons x xs)
  then show ?case by (auto intro!: keeps_andThen [where R = "\<lambda>r c'. c' = c"])
qed simp

locale discipline =
  fixes good :: "'s \<Rightarrow> bool" and needs :: "'s \<Rightarrow> 'c set" and starts :: "('s, unit) prog \<Rightarrow> bool" and moves :: "'s \<Rightarrow> 's \<Rightarrow> bool"
  assumes started: "starts p \<Longrightarrow> keeps good needs p {} (\<lambda>r c. c = {})"
    and moved: "moves s s' \<Longrightarrow> good s \<Longrightarrow> good s' \<and> needs s' \<subseteq> needs s"
begin

lemma claims_cover:
  assumes "reaches starts moves s0 s ts" "good s0" "needs s0 = {}"
  shows "good s \<and> (\<exists>cs. length cs = length ts \<and> needs s \<subseteq> \<Union> (set cs)
    \<and> (\<forall>i < length ts. keeps good needs (ts ! i) (cs ! i) (\<lambda>r c. c = {})))"
  using assms
proof induction
  case none
  then show ?case by auto
next
  case (start s ts p)
  then obtain cs where cs: "good s" "length cs = length ts" "needs s \<subseteq> \<Union> (set cs)"
    "\<forall>i < length ts. keeps good needs (ts ! i) (cs ! i) (\<lambda>r c. c = {})" by blast
  have "keeps good needs ((ts @ [p]) ! i) ((cs @ [{}]) ! i) (\<lambda>r c. c = {})" if "i < length (ts @ [p])" for i
    using that cs(2,4) started [OF start(2)] by (auto simp: nth_append less_Suc_eq)
  moreover have "needs s \<subseteq> \<Union> (set (cs @ [{}]))" "length (cs @ [{}]) = length (ts @ [p])" using cs(2,3) by auto
  ultimately show ?case using cs(1) by blast
next
  case (turn s ts i u k)
  then obtain cs where cs: "good s" "length cs = length ts" "needs s \<subseteq> \<Union> (set cs)"
    "\<forall>i < length ts. keeps good needs (ts ! i) (cs ! i) (\<lambda>r c. c = {})" by blast
  have "keeps good needs (Act u k) (cs ! i) (\<lambda>r c. c = {})" using cs(4) turn(2,3) by metis
  then obtain c' where c': "good (u s)" "needs (u s) \<subseteq> needs s \<union> c'" "needs (u s) \<inter> cs ! i \<subseteq> c'"
    "keeps good needs (k s) c' (\<lambda>r c. c = {})" using cs(1) by auto
  have "needs (u s) \<subseteq> \<Union> (set (cs[i := c']))"
  proof
    fix x assume x: "x \<in> needs (u s)"
    show "x \<in> \<Union> (set (cs[i := c']))"
    proof (cases "x \<in> c'")
      case True
      then show ?thesis using turn(2) cs(2) by (metis UnionI set_update_memI)
    next
      case False
      then obtain j where j: "j < length cs" "x \<in> cs ! j" using x c'(2) cs(3) by (metis UnE UnionE in_set_conv_nth subsetD)
      then have "j \<noteq> i" using False x c'(3) by auto
      then have "cs[i := c'] ! j = cs ! j" "j < length (cs[i := c'])" using j(1) by simp_all
      then show ?thesis using j(2) by (metis UnionI nth_mem)
    qed
  qed
  moreover have "keeps good needs (ts[i := k s] ! j) (cs[i := c'] ! j) (\<lambda>r c. c = {})" if "j < length (ts[i := k s])" for j
    using that cs(2,4) c'(4) turn(2) by (cases "j = i") auto
  ultimately show ?case using c'(1) cs(2) by (metis length_list_update)
next
  case (world s ts s')
  then show ?case using moved by blast
qed

lemma invariant: "reaches starts moves s0 s ts \<Longrightarrow> good s0 \<Longrightarrow> needs s0 = {} \<Longrightarrow> good s"
  using claims_cover by blast

lemma nothing_left:
  assumes "reaches starts moves s0 s ts" "good s0" "needs s0 = {}" "finished ts"
  shows "needs s = {}"
proof -
  obtain cs where cs: "length cs = length ts" "needs s \<subseteq> \<Union> (set cs)"
    "\<forall>i < length ts. keeps good needs (ts ! i) (cs ! i) (\<lambda>r c. c = {})" using claims_cover [OF assms(1-3)] by blast
  have "cs ! i = {}" if "i < length cs" for i
  proof -
    have "ts ! i = Ret ()" using assms(4) that cs(1) by (metis (full_types) finished_def insert_iff empty_iff nth_mem subset_iff)
    then show ?thesis using cs(1,3) that by (metis keeps.simps(1))
  qed
  then have "\<Union> (set cs) = {}" by (auto simp: in_set_conv_nth)
  then show ?thesis using cs(2) by blast
qed

end

end
