(* ===== verification/Manager.thy ===== *)
theory Manager
  imports Guards Interleave NetAlloc
begin

text \<open>
  The node's sandbox manager (\<^verbatim>\<open>node/manager.go\<close>), with the process description an image and a request
  give (\<^verbatim>\<open>node/image/config.go\<close>) and the agent's credential (\<^verbatim>\<open>sbxtoken/sbxtoken.go\<close>).

  Every method is a program of atomic actions (theory \<open>Interleave\<close>) on the manager's state and the world
  outside it: one action for each region between \<^verbatim>\<open>m.mu.Lock()\<close> and \<^verbatim>\<open>Unlock()\<close>, one for each call of
  the runtime, the host's network, the agent. Sandbox records are objects that several methods hold pointers
  to, so they live in a store (\<open>m_objs\<close>), and the map holds their addresses. The runtime, the agent's
  connection, the clock and the random source are arguments (\<open>node_env\<close>). Metrics, traces and log lines
  are left out; nothing reads them back. Where Go would use a nil handle or a nil connection, the program
  ends with an error value. An admission refusal that is wrapped keeps its kind, as \<^verbatim>\<open>errors.As\<close> sees it.
\<close>

section \<open>Credentials\<close>

definition hex_digit :: "nat \<Rightarrow> char" where
  "hex_digit n = (if n < 10 then digit n else char_of (87 + n))"

definition EncodeToString :: "byte list \<Rightarrow> string" where
  "EncodeToString bs = concat (map (\<lambda>b. [hex_digit (unat b div 16), hex_digit (unat b mod 16)]) bs)"

definition tokenBytes :: nat where "tokenBytes = 32"

text \<open>\<^verbatim>\<open>crypto/rand.Read\<close>: that many bytes, or an error; \<^verbatim>\<open>sha256.Sum256\<close> is an argument too.\<close>

type_synonym 'w rand = "nat \<Rightarrow> 'w \<Rightarrow> 'w \<times> (go_error + byte list)"

definition sbxtoken_New :: "'w rand \<Rightarrow> 'w \<Rightarrow> 'w \<times> (go_error + string)" where
  "sbxtoken_New rnd w =
     (case rnd tokenBytes w of
        (w, Inl e) \<Rightarrow> (w, Inl (Wrapf ''sbxtoken: read random'' [] e))
      | (w, Inr b) \<Rightarrow> (w, Inr (EncodeToString b)))"

definition sbxtoken_Hash :: "(string \<Rightarrow> byte list) \<Rightarrow> string \<Rightarrow> string" where
  "sbxtoken_Hash sha256 token = EncodeToString (sha256 token)"

definition sbxtoken_Verify :: "(string \<Rightarrow> byte list) \<Rightarrow> string \<Rightarrow> string \<Rightarrow> bool" where
  "sbxtoken_Verify sha256 expectedHash presented =
     (if expectedHash = '''' \<or> presented = '''' then False else sbxtoken_Hash sha256 presented = expectedHash)"

section \<open>What a sandbox starts\<close>

record Config =
  cf_Env :: "string list"
  cf_Entrypoint :: "string list"
  cf_Cmd :: "string list"
  cf_WorkingDir :: string
  cf_User :: string

record Process =
  pr_Argv :: "string list"
  pr_Env :: "(string, string) gomap"
  pr_Workdir :: string
  pr_User :: string

fun splitEnv_at :: "string \<Rightarrow> string \<Rightarrow> (string \<times> string) option" where
  "splitEnv_at k [] = None"
| "splitEnv_at k (c # s) =
     (if c = CHR ''='' then (if k = '''' then None else Some (k, s)) else splitEnv_at (k @ [c]) s)"

definition splitEnv :: "string \<Rightarrow> (string \<times> string) option" where
  "splitEnv kv = splitEnv_at '''' kv"

definition put_env :: "string \<times> string \<Rightarrow> (string, string) gomap \<Rightarrow> (string, string) gomap" where
  "put_env kv m = kv # filter (\<lambda>p. fst p \<noteq> fst kv) m"

definition MergeConfig :: "Config option \<Rightarrow> string list \<Rightarrow> (string, string) gomap \<Rightarrow> string \<Rightarrow> Process" where
  "MergeConfig cfg cmd env workdir =
     (case cfg of
        None \<Rightarrow> \<lparr>pr_Argv = cmd, pr_Env = env, pr_Workdir = workdir, pr_User = ''''\<rparr>
      | Some c \<Rightarrow>
          \<lparr>pr_Argv = cf_Entrypoint c @ (if length cmd > 0 then cmd else cf_Cmd c),
           pr_Env = fold put_env env (fold put_env (List.map_filter splitEnv (cf_Env c)) []),
           pr_Workdir = (if workdir = '''' then cf_WorkingDir c else workdir),
           pr_User = cf_User c\<rparr>)"

lemma put_env_fold:
  "distinct (map fst kvs) \<Longrightarrow> map_of (fold put_env kvs m) k = (case map_of kvs k of Some v \<Rightarrow> Some v | None \<Rightarrow> map_of m k)"
proof (induction kvs arbitrary: m)
  case (Cons kv kvs)
  obtain k' v' where kv: "kv = (k', v')" by force
  have "map_of (filter (\<lambda>p. fst p \<noteq> k') m) k = (if k = k' then None else map_of m k)"
    by (induction m) auto
  then have step: "map_of (put_env kv m) k = (if k = k' then Some v' else map_of m k)" by (simp add: put_env_def kv)
  have "map_of kvs k' = None" using Cons.prems by (simp add: kv map_of_eq_None_iff)
  then show ?case using Cons.IH [of "put_env kv m"] Cons.prems step by (cases "k = k'") (simp_all add: kv split: option.split)
qed simp

text \<open>A request's variables win over the image's, key by key; the image's entrypoint always stays.\<close>

lemma MergeConfig_env:
  assumes "distinct (map fst env)"
  shows "map_of (pr_Env (MergeConfig (Some c) cmd env wd)) k =
    (case map_of env k of Some v \<Rightarrow> Some v | None \<Rightarrow> map_of (pr_Env (MergeConfig (Some c) cmd [] wd)) k)"
  by (simp add: MergeConfig_def put_env_fold [OF assms] split: option.split)

section \<open>The manager's data\<close>

datatype State =
    StatePulling | StateStarting | StateRunning | StatePausing | StatePaused | StateResuming
  | StateSnapshotting | StateRestoring | StateStopped | StateFailed

fun State_string :: "State \<Rightarrow> string" where
  "State_string StatePulling = ''PULLING''"
| "State_string StateStarting = ''STARTING''"
| "State_string StateRunning = ''RUNNING''"
| "State_string StatePausing = ''PAUSING''"
| "State_string StatePaused = ''PAUSED''"
| "State_string StateResuming = ''RESUMING''"
| "State_string StateSnapshotting = ''SNAPSHOTTING''"
| "State_string StateRestoring = ''RESTORING''"
| "State_string StateStopped = ''STOPPED''"
| "State_string StateFailed = ''FAILED''"

lemma State_string_inj: "State_string s = State_string t \<longleftrightarrow> s = t"
  by (cases s; cases t) simp_all

text \<open>The fields of the generated \<^verbatim>\<open>SandboxSpec\<close> message that the manager reads.\<close>

record Lifecycle =
  lc_HasIdleTimeout :: bool
  lc_IdleTimeoutSeconds :: int
  lc_OnIdle :: string

record SandboxSpec =
  sp_SandboxId :: string
  sp_SnapshotId :: string
  sp_FsManifestDigest :: string
  sp_Image :: string
  sp_PublishConversion :: bool
  sp_Cpu :: rat
  sp_MemoryMib :: int
  sp_DiskMib :: int
  sp_Env :: "(string, string) gomap"
  sp_Cmd :: "string list"
  sp_AutoStartCmd :: bool
  sp_Lifecycle :: "Lifecycle option"

record RuntimeSpec =
  rs_SandboxID :: string
  rs_SnapshotID :: string
  rs_FSManifestDigest :: string
  rs_Image :: string
  rs_PublishConversion :: bool
  rs_CPU :: rat
  rs_MemoryMiB :: int
  rs_DiskMiB :: int
  rs_Env :: "(string, string) gomap"
  rs_Cmd :: "string list"
  rs_AutoStartCmd :: bool
  rs_Network :: "Layout option"
  rs_AgentTokenHash :: string

record Handle =
  hn_SandboxID :: string
  hn_AgentAddr :: string
  hn_StartedAt :: int

record SnapshotLayer =
  sl_ID :: string
  sl_Data :: "byte list"

record CheckpointOptions =
  co_IncludeMemory :: bool
  co_Diff :: bool

record CheckpointResult =
  cr_FSManifestDigest :: string
  cr_FSLayerDigests :: "string list"
  cr_FSSizeBytes :: int

text \<open>An agent connection is known by the number the dialer gives it.\<close>

record Sandbox =
  sb_Spec :: SandboxSpec
  sb_Handle :: "Handle option"
  sb_State :: State
  sb_Reason :: string
  sb_conn :: "nat option"
  sb_lastActivity :: int
  sb_inFlight :: int
  sb_net :: "Layout option"
  sb_agentToken :: string

record Manager =
  m_disk :: DiskGuard
  m_mem :: MemGuard
  m_Net :: bool
  m_alloc :: Allocator
  m_objs :: "Sandbox list"
  m_sandboxes :: "(string, nat) gomap"
  m_statusKick :: bool
  m_cpu :: cpuSampler

text \<open>Warm snapshots, for a runtime that has them.\<close>

record 'w SnapshotWarmer =
  wr_WarmEnabled :: bool
  wr_WarmKeyFor :: "string \<Rightarrow> 'w \<Rightarrow> go_error + string option"
  wr_WarmLookup :: "string \<Rightarrow> 'w \<Rightarrow> 'w \<times> SnapshotLayer option"
  wr_release :: "string \<Rightarrow> 'w \<Rightarrow> 'w"
  wr_WarmStore :: "string \<Rightarrow> string \<Rightarrow> 'w \<Rightarrow> 'w \<times> go_error option"

text \<open>
  The world a manager runs in: the clock, the kernel's figures, the host's network, the random source, the
  runtime with its optional abilities, and the agents. \<open>ne_dial\<close> is \<^verbatim>\<open>grpc.NewClient\<close>,
  \<open>ne_waitHealthy\<close> the outcome of polling the agent's health until the deadline.
\<close>

record 'w node_env =
  ne_now :: "'w \<Rightarrow> int"
  ne_statfs :: "'w \<Rightarrow> statfs"
  ne_files :: "'w \<Rightarrow> files"
  ne_parse :: parse_cidr
  ne_host :: "'w host_ops"
  ne_rand :: "'w rand"
  ne_sha256 :: "string \<Rightarrow> byte list"
  rt_Create :: "RuntimeSpec \<Rightarrow> 'w \<Rightarrow> 'w \<times> (go_error + Handle)"
  rt_Fork :: "RuntimeSpec \<Rightarrow> SnapshotLayer list \<Rightarrow> 'w \<Rightarrow> 'w \<times> (go_error + Handle)"
  rt_Destroy :: "string \<Rightarrow> bool \<Rightarrow> 'w \<Rightarrow> 'w \<times> go_error option"
  rt_Pause :: "string \<Rightarrow> 'w \<Rightarrow> 'w \<times> go_error option"
  rt_Resume :: "string \<Rightarrow> 'w \<Rightarrow> 'w \<times> go_error option"
  rt_Checkpoint :: "string \<Rightarrow> CheckpointOptions \<Rightarrow> 'w \<Rightarrow> 'w \<times> (go_error + CheckpointResult)"
  rt_warmer :: "'w SnapshotWarmer option"
  rt_PrewarmImage :: "(string \<Rightarrow> 'w \<Rightarrow> 'w \<times> go_error option) option"
  rt_ImageConfig :: "(string \<Rightarrow> 'w \<Rightarrow> go_error + Config option) option"
  rt_BootLogTail :: "(string \<Rightarrow> 'w \<Rightarrow> string) option"
  ne_dial :: "Handle \<Rightarrow> 'w \<Rightarrow> 'w \<times> (go_error + nat)"
  ne_waitHealthy :: "nat \<Rightarrow> 'w \<Rightarrow> 'w \<times> go_error option"
  ne_closeConn :: "nat \<Rightarrow> 'w \<Rightarrow> 'w"
  ne_exec :: "nat \<Rightarrow> string list \<Rightarrow> 'w \<Rightarrow> 'w \<times> (go_error + int \<times> string)"
  ne_startProcess :: "nat \<Rightarrow> Process \<Rightarrow> 'w \<Rightarrow> 'w \<times> go_error option"

type_synonym 'w node = "Manager \<times> 'w"

datatype create_error = Refused admit_error | Failed go_error

section \<open>Locked regions and calls\<close>

definition locked :: "(Manager \<Rightarrow> 'w \<Rightarrow> Manager \<times> 'r) \<Rightarrow> ('w node, 'r) prog" where
  "locked g = atom (\<lambda>(m, w). case g m w of (m', r) \<Rightarrow> ((m', w), r))"

definition call :: "('w \<Rightarrow> 'w \<times> 'r) \<Rightarrow> ('w node, 'r) prog" where
  "call f = atom (\<lambda>(m, w). case f w of (w', r) \<Rightarrow> ((m, w'), r))"

text \<open>Go's \<^verbatim>\<open>if err != nil { return err }\<close>.\<close>

definition andTry :: "('s, 'e + 'a) prog \<Rightarrow> ('a \<Rightarrow> ('s, 'e + 'b) prog) \<Rightarrow> ('s, 'e + 'b) prog" where
  "andTry p f = andThen p (\<lambda>r. case r of Inl e \<Rightarrow> Ret (Inl e) | Inr x \<Rightarrow> f x)"

text \<open>The object a pointer points to, and a write through it.\<close>

definition obj :: "Manager \<Rightarrow> nat \<Rightarrow> Sandbox" where
  "obj m a = m_objs m ! a"

definition set_obj :: "nat \<Rightarrow> (Sandbox \<Rightarrow> Sandbox) \<Rightarrow> Manager \<Rightarrow> Manager" where
  "set_obj a f m = m\<lparr>m_objs := (m_objs m)[a := f (obj m a)]\<rparr>"

definition sandbox_at :: "Manager \<Rightarrow> string \<Rightarrow> nat option" where
  "sandbox_at m sid = map_of (m_sandboxes m) sid"

definition delete_sandbox :: "string \<Rightarrow> Manager \<Rightarrow> Manager" where
  "delete_sandbox sid m = m\<lparr>m_sandboxes := filter (\<lambda>p. fst p \<noteq> sid) (m_sandboxes m)\<rparr>"

text \<open>\<^verbatim>\<open>if cur, ok := m.sandboxes[id]; ok { ... }\<close>\<close>

definition if_present :: "string \<Rightarrow> (Sandbox \<Rightarrow> Sandbox) \<Rightarrow> Manager \<Rightarrow> Manager" where
  "if_present sid f m = (case sandbox_at m sid of None \<Rightarrow> m | Some a \<Rightarrow> set_obj a f m)"

lemma run_locked [simp]: "run (locked g) (m, w) = (case g m w of (m', r) \<Rightarrow> ((m', w), r))"
  by (simp add: locked_def)

lemma run_call [simp]: "run (call f) (m, w) = (case f w of (w', r) \<Rightarrow> ((m, w'), r))"
  by (simp add: call_def)

lemma run_andTry [simp]:
  "run (andTry p f) s = (case run p s of (s', Inl e) \<Rightarrow> (s', Inl e) | (s', Inr x) \<Rightarrow> run (f x) s')"
  by (simp add: andTry_def split: prod.splits sum.splits)

section \<open>Operations\<close>

text \<open>A new manager; \<^verbatim>\<open>cmd/noded\<close> sets \<^verbatim>\<open>Net\<close> from its flags afterwards, here the second argument.\<close>

definition NewManager :: "Allocator option \<Rightarrow> Manager" where
  "NewManager net =
     \<lparr>m_disk = zeroDiskGuard, m_mem = zeroMemGuard, m_Net = (net \<noteq> None),
      m_alloc = (case net of None \<Rightarrow> NewAllocator '''' | Some a \<Rightarrow> a), m_objs = [], m_sandboxes = [],
      m_statusKick = False, m_cpu = newCPUSampler ''''\<rparr>"

definition kick :: "('w node, unit) prog" where
  "kick = locked (\<lambda>m w. (m\<lparr>m_statusKick := True\<rparr>, ()))"

subsection \<open>Networking\<close>

text \<open>
  \<^verbatim>\<open>Provision\<close> and \<^verbatim>\<open>Deprovision\<close> as other methods can interrupt them: the allocator locks itself, the
  host's work happens in between.
\<close>

definition has_net :: "('w node, bool) prog" where
  "has_net = locked (\<lambda>m w. (m, m_Net m))"

definition alloc_release :: "string \<Rightarrow> ('w node, unit) prog" where
  "alloc_release sid = locked (\<lambda>m w. (m\<lparr>m_alloc := Allocator_Release (m_alloc m) sid\<rparr>, ()))"

definition node_Provision :: "'w node_env \<Rightarrow> string \<Rightarrow> ('w node, go_error + Layout) prog" where
  "node_Provision e sid =
     andTry (locked (\<lambda>m w. case Allocator_Reserve (ne_parse e) (Some (h_List (ne_host e) w)) (m_alloc m) sid of
                (a, r) \<Rightarrow> (m\<lparr>m_alloc := a\<rparr>, r))) (\<lambda>layout.
     andThen (call (h_Setup (ne_host e) layout)) (\<lambda>err.
       case err of
         None \<Rightarrow> Ret (Inr layout)
       | Some x \<Rightarrow> andThen (alloc_release sid) (\<lambda>_. Ret (Inl x))))"

definition node_Deprovision :: "'w node_env \<Rightarrow> string \<Rightarrow> ('w node, go_error option) prog" where
  "node_Deprovision e sid =
     andThen (locked (\<lambda>m w. (m, Allocator_LayoutOf (ne_parse e) (m_alloc m) sid))) (\<lambda>lay.
       case lay of
         None \<Rightarrow> Ret None
       | Some layout \<Rightarrow>
           andThen (call (h_Teardown (ne_host e) layout)) (\<lambda>err.
           andThen (alloc_release sid) (\<lambda>_.
             Ret (map_option (Wrapf ''deprovision %s'' [AStr sid]) err))))"

definition releaseNetwork :: "'w node_env \<Rightarrow> string \<Rightarrow> ('w node, unit) prog" where
  "releaseNetwork e sid =
     andThen has_net (\<lambda>net. if \<not> net then Ret () else andThen (node_Deprovision e sid) (\<lambda>_. Ret ()))"

definition dropFailed :: "'w node_env \<Rightarrow> string \<Rightarrow> ('w node, unit) prog" where
  "dropFailed e sid = andThen (locked (\<lambda>m w. (delete_sandbox sid m, ()))) (\<lambda>_. releaseNetwork e sid)"

subsection \<open>Agents\<close>

definition ErrSandboxNotFound :: go_error where "ErrSandboxNotFound = Errorf ''sandbox not found'' []"

definition not_found :: "string \<Rightarrow> go_error" where
  "not_found sid = Wrapf ''%w: %s'' [AStr sid] ErrSandboxNotFound"

definition connectAgent :: "'w node_env \<Rightarrow> Handle \<Rightarrow> ('w node, go_error + nat) prog" where
  "connectAgent e handle =
     andThen (call (ne_dial e handle)) (\<lambda>r.
       case r of
         Inl x \<Rightarrow> Ret (Inl (Wrapf ''agent dial'' [] x))
       | Inr conn \<Rightarrow>
           andThen (call (ne_waitHealthy e conn)) (\<lambda>err.
             case err of
               None \<Rightarrow> Ret (Inr conn)
             | Some x \<Rightarrow>
                 andThen (call (\<lambda>w. (ne_closeConn e conn w, ()))) (\<lambda>_.
                 andThen (call (\<lambda>w. (w, case rt_BootLogTail e of None \<Rightarrow> '''' | Some f \<Rightarrow> f (hn_SandboxID handle) w))) (\<lambda>tail.
                   if tail \<noteq> '''' then Ret (Inl (Wrapf ''agent health: %w (guest console: %s)'' [AStr tail] x))
                   else Ret (Inl (Wrapf ''agent health'' [] x))))))"

definition dialAgent :: "'w node_env \<Rightarrow> string \<Rightarrow> Handle \<Rightarrow> ('w node, go_error + nat) prog" where
  "dialAgent e sid handle =
     andThen (connectAgent e handle) (\<lambda>r.
       case r of
         Inr conn \<Rightarrow> Ret (Inr conn)
       | Inl x \<Rightarrow>
           andThen (call (rt_Destroy e sid True)) (\<lambda>_. andThen (dropFailed e sid) (\<lambda>_. Ret (Inl x))))"

definition redialAgent :: "'w node_env \<Rightarrow> string \<Rightarrow> ('w node, go_error option) prog" where
  "redialAgent e sid =
     andThen (locked (\<lambda>m w. (m, map_option (\<lambda>a. (sb_conn (obj m a), sb_Handle (obj m a))) (sandbox_at m sid)))) (\<lambda>r.
       case r of
         None \<Rightarrow> Ret (Some (not_found sid))
       | Some (old, None) \<Rightarrow> Ret (Some (Errorf ''nil handle'' []))
       | Some (old, Some handle) \<Rightarrow>
           andThen (connectAgent e handle) (\<lambda>r.
             case r of
               Inl x \<Rightarrow> Ret (Some x)
             | Inr conn \<Rightarrow>
                 andThen (locked (\<lambda>m w. (if_present sid (\<lambda>sb. sb\<lparr>sb_conn := Some conn\<rparr>) m, sandbox_at m sid \<noteq> None))) (\<lambda>ok.
                   if \<not> ok then andThen (call (\<lambda>w. (ne_closeConn e conn w, ()))) (\<lambda>_. Ret (Some (not_found sid)))
                   else case old of
                          None \<Rightarrow> Ret None
                        | Some c \<Rightarrow> andThen (call (\<lambda>w. (ne_closeConn e c w, ()))) (\<lambda>_. Ret None))))"

subsection \<open>Creating\<close>

definition specToRuntime :: "SandboxSpec \<Rightarrow> RuntimeSpec" where
  "specToRuntime spec =
     \<lparr>rs_SandboxID = sp_SandboxId spec, rs_SnapshotID = sp_SnapshotId spec, rs_FSManifestDigest = sp_FsManifestDigest spec,
      rs_Image = sp_Image spec, rs_PublishConversion = sp_PublishConversion spec, rs_CPU = sp_Cpu spec,
      rs_MemoryMiB = sp_MemoryMib spec, rs_DiskMiB = sp_DiskMib spec, rs_Env = sp_Env spec, rs_Cmd = sp_Cmd spec,
      rs_AutoStartCmd = sp_AutoStartCmd spec, rs_Network = None, rs_AgentTokenHash = ''''\<rparr>"

text \<open>The first locked region of a create or a fork: the record is put in the map in its starting state.\<close>

definition reserve_record :: "'w node_env \<Rightarrow> SandboxSpec \<Rightarrow> State \<Rightarrow> ('w node, nat option) prog" where
  "reserve_record e spec st =
     locked (\<lambda>m w. case sandbox_at m (sp_SandboxId spec) of
         Some _ \<Rightarrow> (m, None)
       | None \<Rightarrow>
           (let a = length (m_objs m);
                sb = \<lparr>sb_Spec = spec, sb_Handle = None, sb_State = st, sb_Reason = '''', sb_conn = None,
                      sb_lastActivity = ne_now e w, sb_inFlight = 0, sb_net = None, sb_agentToken = ''''\<rparr>
            in (m\<lparr>m_objs := m_objs m @ [sb], m_sandboxes := (sp_SandboxId spec, a) # m_sandboxes m\<rparr>, Some a)))"

text \<open>The networking branch that \<^verbatim>\<open>Create\<close> and \<^verbatim>\<open>ForkSandbox\<close> share: a namespace and a fresh credential.\<close>

definition assign_network :: "'w node_env \<Rightarrow> SandboxSpec \<Rightarrow> RuntimeSpec \<Rightarrow> ('w node, go_error + RuntimeSpec) prog" where
  "assign_network e spec rspec =
     (let sid = sp_SandboxId spec in
      andThen has_net (\<lambda>net.
        if \<not> net then Ret (Inr rspec)
        else andThen (node_Provision e sid) (\<lambda>r.
          case r of
            Inl x \<Rightarrow> andThen (dropFailed e sid) (\<lambda>_. Ret (Inl (Wrapf ''sandbox %s'' [AStr sid] x)))
          | Inr layout \<Rightarrow>
              andThen (call (sbxtoken_New (ne_rand e))) (\<lambda>r.
                case r of
                  Inl x \<Rightarrow> andThen (dropFailed e sid) (\<lambda>_. Ret (Inl (Wrapf ''sandbox %s: mint agent token'' [AStr sid] x)))
                | Inr token \<Rightarrow>
                    andThen (locked (\<lambda>m w. (if_present sid (\<lambda>sb. sb\<lparr>sb_agentToken := token, sb_net := Some layout\<rparr>) m, ()))) (\<lambda>_.
                      Ret (Inr (rspec\<lparr>rs_Network := Some layout, rs_AgentTokenHash := sbxtoken_Hash (ne_sha256 e) token\<rparr>)))))))"

definition createOrRestoreWarm :: "'w node_env \<Rightarrow> RuntimeSpec \<Rightarrow> string \<Rightarrow> ('w node, go_error + Handle) prog" where
  "createOrRestoreWarm e rspec imageRef =
     (case rt_warmer e of
        None \<Rightarrow> call (rt_Create e rspec)
      | Some warmer \<Rightarrow>
          if \<not> wr_WarmEnabled warmer \<or> imageRef = '''' then call (rt_Create e rspec)
          else if rs_SnapshotID rspec \<noteq> '''' then call (rt_Create e rspec)
          else andThen (call (wr_WarmLookup warmer imageRef)) (\<lambda>hit.
            case hit of
              None \<Rightarrow> call (rt_Create e rspec)
            | Some layer \<Rightarrow>
                andThen (andThen (call (rt_Fork e (rspec\<lparr>rs_SnapshotID := sl_ID layer\<rparr>) [layer])) (\<lambda>r.
                    case r of Inl x \<Rightarrow> call (rt_Create e rspec) | Inr handle \<Rightarrow> Ret (Inr handle))) (\<lambda>r.
                andThen (call (\<lambda>w. (wr_release warmer imageRef w, ()))) (\<lambda>_. Ret r))))"

definition resolveProcess :: "'w node_env \<Rightarrow> SandboxSpec \<Rightarrow> 'w \<Rightarrow> go_error + Process" where
  "resolveProcess e spec w =
     (case rt_ImageConfig e of
        None \<Rightarrow> Inr (MergeConfig None (sp_Cmd spec) (sp_Env spec) '''')
      | Some reader \<Rightarrow>
          (let base = sp_Image spec; base = (if base = '''' then sp_FsManifestDigest spec else base)
           in case reader base w of
                Inl x \<Rightarrow> Inl x
              | Inr cfg \<Rightarrow> Inr (MergeConfig cfg (sp_Cmd spec) (sp_Env spec) '''')))"

definition startUserProcess :: "'w node_env \<Rightarrow> nat \<Rightarrow> SandboxSpec \<Rightarrow> ('w node, unit) prog" where
  "startUserProcess e conn spec =
     andThen (call (\<lambda>w. (w, resolveProcess e spec w))) (\<lambda>r.
       case r of
         Inl x \<Rightarrow> Ret ()
       | Inr proc \<Rightarrow>
           if length (pr_Argv proc) = 0 then Ret ()
           else andThen (call (ne_startProcess e conn proc)) (\<lambda>_. Ret ()))"

definition publish :: "nat \<Rightarrow> Handle \<Rightarrow> nat \<Rightarrow> ('w node, unit) prog" where
  "publish a handle conn =
     locked (\<lambda>m w. (set_obj a (\<lambda>sb. sb\<lparr>sb_Handle := Some handle, sb_conn := Some conn, sb_State := StateRunning\<rparr>) m, ()))"

definition diskGuard :: "('w node, DiskGuard) prog" where
  "diskGuard = locked (\<lambda>m w. (m, m_disk m))"

definition memGuard :: "('w node, MemGuard) prog" where
  "memGuard = locked (\<lambda>m w. (m, m_mem m))"

definition refusing :: "('s, admit_error option) prog \<Rightarrow> ('s, create_error + unit) prog" where
  "refusing p = andThen p (\<lambda>r. Ret (case r of None \<Rightarrow> Inr () | Some x \<Rightarrow> Inl (Refused x)))"

definition failing :: "('s, go_error + 'r) prog \<Rightarrow> ('s, create_error + 'r) prog" where
  "failing p = andThen p (\<lambda>r. Ret (case r of Inl x \<Rightarrow> Inl (Failed x) | Inr v \<Rightarrow> Inr v))"

text \<open>A failure of the runtime drops the record and the network before it is reported.\<close>

definition or_drop :: "'w node_env \<Rightarrow> string \<Rightarrow> ('w node, go_error + 'r) prog \<Rightarrow> ('w node, go_error + 'r) prog" where
  "or_drop e sid p =
     andThen p (\<lambda>r. case r of Inr v \<Rightarrow> Ret (Inr v) | Inl x \<Rightarrow> andThen (dropFailed e sid) (\<lambda>_. Ret (Inl x)))"

definition Manager_Create :: "'w node_env \<Rightarrow> SandboxSpec \<Rightarrow> ('w node, create_error + nat) prog" where
  "Manager_Create e spec =
     (let sid = sp_SandboxId spec in
      if sid = '''' then Ret (Inl (Failed (Errorf ''sandbox_id required'' [])))
      else
        andTry (refusing (andThen diskGuard (\<lambda>g. call (\<lambda>w. (w, DiskGuard_Admit (ne_statfs e w) g))))) (\<lambda>_.
        andTry (refusing (andThen memGuard (\<lambda>g. call (\<lambda>w. (w, MemGuard_Admit (ne_files e w) g))))) (\<lambda>_.
        andThen (reserve_record e spec StateStarting) (\<lambda>r.
          case r of
            None \<Rightarrow> Ret (Inl (Failed (Errorf ''sandbox %s already exists'' [AStr sid])))
          | Some a \<Rightarrow>
              andTry (failing (assign_network e spec (specToRuntime spec))) (\<lambda>rspec.
              andTry (failing (or_drop e sid (createOrRestoreWarm e rspec (sp_Image spec)))) (\<lambda>handle.
              andTry (failing (dialAgent e sid handle)) (\<lambda>conn.
              andThen (publish a handle conn) (\<lambda>_.
              andThen kick (\<lambda>_.
              andThen (if sp_AutoStartCmd spec then startUserProcess e conn spec else Ret ()) (\<lambda>_.
                Ret (Inr a)))))))))))"

definition ForkSandbox :: "'w node_env \<Rightarrow> SandboxSpec \<Rightarrow> SnapshotLayer list \<Rightarrow> ('w node, go_error + nat) prog" where
  "ForkSandbox e spec layers =
     (let sid = sp_SandboxId spec in
      if sid = '''' then Ret (Inl (Errorf ''sandbox_id required'' []))
      else andThen (reserve_record e spec StateRestoring) (\<lambda>r.
        case r of
          None \<Rightarrow> Ret (Inl (Errorf ''sandbox %s already exists'' [AStr sid]))
        | Some a \<Rightarrow>
            andTry (assign_network e spec (specToRuntime spec)) (\<lambda>rspec.
            andTry (or_drop e sid (call (rt_Fork e rspec layers))) (\<lambda>handle.
            andTry (dialAgent e sid handle) (\<lambda>conn.
            andThen (publish a handle conn) (\<lambda>_. Ret (Inr a)))))))"

subsection \<open>Reading records\<close>

definition Manager_Get :: "string \<Rightarrow> ('w node, nat option) prog" where
  "Manager_Get sid = locked (\<lambda>m w. (m, sandbox_at m sid))"

definition SpecOf :: "string \<Rightarrow> ('w node, SandboxSpec option) prog" where
  "SpecOf sid = locked (\<lambda>m w. (m, map_option (\<lambda>a. sb_Spec (obj m a)) (sandbox_at m sid)))"

record SandboxStatus =
  st_SandboxId :: string
  st_State :: State
  st_Reason :: string
  st_LastActivityUnix :: int
  st_StartedAtUnix :: int

text \<open>Times are in nanoseconds; \<^verbatim>\<open>Unix()\<close> rounds down to seconds.\<close>

definition status_of :: "string \<Rightarrow> Sandbox \<Rightarrow> SandboxStatus" where
  "status_of sid sb =
     \<lparr>st_SandboxId = sid, st_State = sb_State sb, st_Reason = sb_Reason sb, st_LastActivityUnix = sb_lastActivity sb div 10 ^ 9,
      st_StartedAtUnix = (case sb_Handle sb of None \<Rightarrow> 0 | Some h \<Rightarrow> hn_StartedAt h div 10 ^ 9)\<rparr>"

definition StatusOf :: "string \<Rightarrow> ('w node, SandboxStatus option) prog" where
  "StatusOf sid = locked (\<lambda>m w. (m, map_option (\<lambda>a. status_of sid (obj m a)) (sandbox_at m sid)))"

definition Statuses :: "('w node, SandboxStatus list) prog" where
  "Statuses = locked (\<lambda>m w. (m, map (\<lambda>(sid, a). status_of sid (obj m a)) (m_sandboxes m)))"

definition StateOf :: "string \<Rightarrow> ('w node, State option) prog" where
  "StateOf sid = locked (\<lambda>m w. (m, map_option (\<lambda>a. sb_State (obj m a)) (sandbox_at m sid)))"

subsection \<open>Pausing and resuming\<close>

text \<open>
  A transition is claimed under the lock, carried out by the runtime without it, and settled under it again:
  back to where it came from on failure, and only if nothing else has moved the record meanwhile.
\<close>

definition settle :: "string \<Rightarrow> State \<Rightarrow> State \<Rightarrow> ('w node, unit) prog" where
  "settle sid st st' =
     locked (\<lambda>m w. (if_present sid (\<lambda>sb. if sb_State sb = st then sb\<lparr>sb_State := st'\<rparr> else sb) m, ()))"

definition claim_pause :: "string \<Rightarrow> ('w node, go_error option) prog" where
  "claim_pause sid =
     locked (\<lambda>m w. case sandbox_at m sid of
         None \<Rightarrow> (m, Some (not_found sid))
       | Some a \<Rightarrow>
           if sb_State (obj m a) \<noteq> StateRunning then (m, Some (Errorf ''sandbox %s not RUNNING (state=%s)'' [AStr sid, AStr (State_string (sb_State (obj m a)))]))
           else (set_obj a (\<lambda>sb. sb\<lparr>sb_State := StatePausing\<rparr>) m, None))"

definition Manager_Pause :: "'w node_env \<Rightarrow> string \<Rightarrow> ('w node, go_error option) prog" where
  "Manager_Pause e sid =
     andThen (claim_pause sid) (\<lambda>r.
       case r of
         Some x \<Rightarrow> Ret (Some x)
       | None \<Rightarrow>
           andThen (call (rt_Pause e sid)) (\<lambda>err.
             case err of
               Some x \<Rightarrow> andThen (settle sid StatePausing StateRunning) (\<lambda>_. Ret (Some x))
             | None \<Rightarrow>
                 andThen (locked (\<lambda>m w. (if_present sid (\<lambda>sb. sb\<lparr>sb_State := StatePaused\<rparr>) m, ()))) (\<lambda>_.
                 andThen kick (\<lambda>_. Ret None))))"

definition claim_resume :: "string \<Rightarrow> ('w node, go_error option option) prog" where
  "claim_resume sid =
     locked (\<lambda>m w. case sandbox_at m sid of
         None \<Rightarrow> (m, Some (Some (not_found sid)))
       | Some a \<Rightarrow>
           if sb_State (obj m a) = StateRunning then (m, Some None)
           else if sb_State (obj m a) = StatePaused then (set_obj a (\<lambda>sb. sb\<lparr>sb_State := StateResuming\<rparr>) m, None)
           else (m, Some (Some (Errorf ''sandbox %s not PAUSED (state=%s)'' [AStr sid, AStr (State_string (sb_State (obj m a)))]))))"

definition Manager_Resume :: "'w node_env \<Rightarrow> string \<Rightarrow> ('w node, go_error option) prog" where
  "Manager_Resume e sid =
     andThen (claim_resume sid) (\<lambda>r.
       case r of
         Some res \<Rightarrow> Ret res
       | None \<Rightarrow>
           andThen (call (rt_Resume e sid)) (\<lambda>err.
             case err of
               Some x \<Rightarrow> andThen (settle sid StateResuming StatePaused) (\<lambda>_. Ret (Some x))
             | None \<Rightarrow>
                 andThen (locked (\<lambda>m w. (if_present sid (\<lambda>sb. sb\<lparr>sb_State := StateRunning, sb_lastActivity := ne_now e w\<rparr>) m, ()))) (\<lambda>_.
                 andThen kick (\<lambda>_. Ret None))))"

text \<open>
  \<^verbatim>\<open>AgentConn\<close> counts the request it lets through; the caller runs the release it returns when the request
  is over.
\<close>

definition AgentConn_release :: "'w node_env \<Rightarrow> string \<Rightarrow> ('w node, unit) prog" where
  "AgentConn_release e sid =
     locked (\<lambda>m w. (if_present sid (\<lambda>sb. sb\<lparr>sb_inFlight := (if sb_inFlight sb > 0 then sb_inFlight sb - 1 else sb_inFlight sb),
                                         sb_lastActivity := ne_now e w\<rparr>) m, ()))"

definition AgentConn :: "'w node_env \<Rightarrow> string \<Rightarrow> ('w node, go_error + nat option) prog" where
  "AgentConn e sid =
     andThen (locked (\<lambda>m w. case sandbox_at m sid of
         None \<Rightarrow> (m, None)
       | Some a \<Rightarrow> (set_obj a (\<lambda>sb. sb\<lparr>sb_lastActivity := ne_now e w, sb_inFlight := sb_inFlight sb + 1\<rparr>) m,
                   Some (sb_State (obj m a), sb_conn (obj m a))))) (\<lambda>r.
       case r of
         None \<Rightarrow> Ret (Inl (not_found sid))
       | Some (state, conn) \<Rightarrow>
           if state = StateRunning then Ret (Inr conn)
           else if state = StatePaused then
             andThen (Manager_Resume e sid) (\<lambda>err.
               case err of
                 Some x \<Rightarrow> andThen (AgentConn_release e sid) (\<lambda>_. Ret (Inl (Wrapf ''wake'' [] x)))
               | None \<Rightarrow> Ret (Inr conn))
           else andThen (AgentConn_release e sid) (\<lambda>_. Ret (Inl (Errorf ''sandbox %s not runnable (state=%s)'' [AStr sid, AStr (State_string state)]))))"

text \<open>A data-plane request as the gRPC service makes it: connect, use the connection, release.\<close>

definition agent_request :: "'w node_env \<Rightarrow> string \<Rightarrow> (nat option \<Rightarrow> 'w \<Rightarrow> 'w \<times> 'r) \<Rightarrow> ('w node, go_error + 'r) prog" where
  "agent_request e sid use =
     andTry (AgentConn e sid) (\<lambda>conn.
     andThen (call (use conn)) (\<lambda>r. andThen (AgentConn_release e sid) (\<lambda>_. Ret (Inr r))))"
subsection \<open>Destroying\<close>

definition guestFlushCommand :: string where "guestFlushCommand = ''sync''"

definition run_sync :: "'w node_env \<Rightarrow> nat \<Rightarrow> string \<Rightarrow> ('w node, go_error option) prog" where
  "run_sync e conn cmd =
     andThen (call (ne_exec e conn [''/bin/sh'', ''-c'', cmd])) (\<lambda>r.
       Ret (case r of
              Inl x \<Rightarrow> Some x
            | Inr (code, stderr) \<Rightarrow> if code \<noteq> 0 then Some (Errorf ''sync exited %d: %s'' [AInt code, AStr stderr]) else None))"

definition syncViaAgent :: "'w node_env \<Rightarrow> string \<Rightarrow> ('w node, go_error option) prog" where
  "syncViaAgent e sid =
     andThen (locked (\<lambda>m w. (m, case sandbox_at m sid of None \<Rightarrow> None | Some a \<Rightarrow> sb_conn (obj m a)))) (\<lambda>conn.
       case conn of
         None \<Rightarrow> Ret (Some (Errorf ''sandbox %s has no agent connection'' [AStr sid]))
       | Some c \<Rightarrow> run_sync e c guestFlushCommand)"

definition flushBeforeDestroy :: "'w node_env \<Rightarrow> string \<Rightarrow> ('w node, go_error option) prog" where
  "flushBeforeDestroy e sid =
     andThen (locked (\<lambda>m w. (m, case sandbox_at m sid of None \<Rightarrow> False | Some a \<Rightarrow> sb_State (obj m a) = StateRunning))) (\<lambda>running.
       if \<not> running then Ret None else syncViaAgent e sid)"

text \<open>The connection is read through the pointer after the lock is released.\<close>

definition Manager_Destroy :: "'w node_env \<Rightarrow> string \<Rightarrow> bool \<Rightarrow> ('w node, go_error option) prog" where
  "Manager_Destroy e sid force =
     andThen (if \<not> force then flushBeforeDestroy e sid else Ret None) (\<lambda>_.
     andThen (locked (\<lambda>m w. (delete_sandbox sid m, sandbox_at m sid))) (\<lambda>r.
       case r of
         None \<Rightarrow> Ret None
       | Some a \<Rightarrow>
           andThen (locked (\<lambda>m w. (m, sb_conn (obj m a)))) (\<lambda>conn.
           andThen (case conn of None \<Rightarrow> Ret () | Some c \<Rightarrow> call (\<lambda>w. (ne_closeConn e c w, ()))) (\<lambda>_.
           andThen (call (rt_Destroy e sid force)) (\<lambda>err.
           andThen (releaseNetwork e sid) (\<lambda>_.
           andThen kick (\<lambda>_. Ret err)))))))"

subsection \<open>Snapshots\<close>

definition claim_snapshot :: "string \<Rightarrow> ('w node, go_error + State) prog" where
  "claim_snapshot sid =
     locked (\<lambda>m w. case sandbox_at m sid of
         None \<Rightarrow> (m, Inl (not_found sid))
       | Some a \<Rightarrow>
           if sb_State (obj m a) \<noteq> StateRunning \<and> sb_State (obj m a) \<noteq> StatePaused
           then (m, Inl (Errorf ''sandbox %s is %s; snapshot needs RUNNING or PAUSED'' [AStr sid, AStr (State_string (sb_State (obj m a)))]))
           else (set_obj a (\<lambda>sb. sb\<lparr>sb_State := StateSnapshotting\<rparr>) m, Inr (sb_State (obj m a))))"

definition Manager_Snapshot ::
  "'w node_env \<Rightarrow> string \<Rightarrow> CheckpointOptions \<Rightarrow> ('w node, go_error + CheckpointResult) prog" where
  "Manager_Snapshot e sid opts =
     andTry (claim_snapshot sid) (\<lambda>prev.
     andThen (if \<not> co_IncludeMemory opts \<and> prev = StateRunning then syncViaAgent e sid else Ret None) (\<lambda>_.
     andThen (if prev = StateRunning then call (rt_Pause e sid) else Ret None) (\<lambda>perr.
       case perr of
         Some x \<Rightarrow> andThen (settle sid StateSnapshotting prev) (\<lambda>_. Ret (Inl (Wrapf ''freeze for snapshot'' [] x)))
       | None \<Rightarrow>
           andThen (call (rt_Checkpoint e sid opts)) (\<lambda>res.
           andThen (if prev = StateRunning then call (rt_Resume e sid) else Ret None) (\<lambda>_.
           andThen (if prev = StateRunning then redialAgent e sid else Ret None) (\<lambda>_.
           andThen (settle sid StateSnapshotting prev) (\<lambda>_.
             Ret (case res of Inl x \<Rightarrow> Inl (Wrapf ''checkpoint'' [] x) | Inr v \<Rightarrow> Inr v))))))))"

definition syncGuest :: "'w node_env \<Rightarrow> string \<Rightarrow> ('w node, go_error option) prog" where
  "syncGuest e sid =
     andThen (AgentConn e sid) (\<lambda>r.
       case r of
         Inl x \<Rightarrow> Ret (Some x)
       | Inr None \<Rightarrow> andThen (AgentConn_release e sid) (\<lambda>_. Ret (Some (Errorf ''nil connection'' [])))
       | Inr (Some conn) \<Rightarrow>
           andThen (run_sync e conn ''sync'') (\<lambda>err. andThen (AgentConn_release e sid) (\<lambda>_. Ret err)))"

subsection \<open>Warming images\<close>

definition warmSnapshotMemoryMiB :: int where "warmSnapshotMemoryMiB = 512"

definition newWarmSandboxID :: "'w rand \<Rightarrow> 'w \<Rightarrow> 'w \<times> (go_error + string)" where
  "newWarmSandboxID rnd w =
     (case rnd 8 w of
        (w, Inl x) \<Rightarrow> (w, Inl (Wrapf ''generate warm sandbox id'' [] x))
      | (w, Inr b) \<Rightarrow> (w, Inr (''warmsbx_'' @ EncodeToString b)))"

definition warm_spec :: "string \<Rightarrow> string \<Rightarrow> SandboxSpec" where
  "warm_spec sid imageRef =
     \<lparr>sp_SandboxId = sid, sp_SnapshotId = '''', sp_FsManifestDigest = '''', sp_Image = imageRef, sp_PublishConversion = False,
      sp_Cpu = 1, sp_MemoryMib = warmSnapshotMemoryMiB, sp_DiskMib = 0, sp_Env = [], sp_Cmd = [], sp_AutoStartCmd = False,
      sp_Lifecycle = None\<rparr>"

definition capture_warm :: "'w node_env \<Rightarrow> 'w SnapshotWarmer \<Rightarrow> string \<Rightarrow> string \<Rightarrow> ('w node, create_error option) prog" where
  "capture_warm e warmer imageRef sid =
     andThen (Manager_Create e (warm_spec sid imageRef)) (\<lambda>r.
       case r of
         Inl x \<Rightarrow> Ret (Some (case x of Refused y \<Rightarrow> Refused y | Failed y \<Rightarrow> Failed (Wrapf ''boot a guest to capture'' [] y)))
       | Inr _ \<Rightarrow>
           andThen (call (wr_WarmStore warmer imageRef sid)) (\<lambda>err.
           andThen (Manager_Destroy e sid True) (\<lambda>_. Ret (map_option Failed err))))"

definition warmSnapshotFor :: "'w node_env \<Rightarrow> string \<Rightarrow> ('w node, create_error option) prog" where
  "warmSnapshotFor e imageRef =
     (case rt_warmer e of
        None \<Rightarrow> Ret None
      | Some warmer \<Rightarrow>
          if \<not> wr_WarmEnabled warmer then Ret None
          else andThen (call (\<lambda>w. (w, wr_WarmKeyFor warmer imageRef w))) (\<lambda>r.
            case r of
              Inl x \<Rightarrow> Ret (Some (Failed x))
            | Inr None \<Rightarrow> Ret None
            | Inr (Some _) \<Rightarrow>
                andThen (call (wr_WarmLookup warmer imageRef)) (\<lambda>hit.
                  case hit of
                    Some _ \<Rightarrow> andThen (call (\<lambda>w. (wr_release warmer imageRef w, ()))) (\<lambda>_. Ret None)
                  | None \<Rightarrow>
                      andThen (call (newWarmSandboxID (ne_rand e))) (\<lambda>r.
                        case r of Inl x \<Rightarrow> Ret (Some (Failed x)) | Inr sid \<Rightarrow> capture_warm e warmer imageRef sid))))"

definition Manager_PrewarmImage :: "'w node_env \<Rightarrow> string \<Rightarrow> ('w node, go_error option) prog" where
  "Manager_PrewarmImage e imageRef =
     (case rt_PrewarmImage e of
        None \<Rightarrow> Ret None
      | Some warm \<Rightarrow>
          andThen (call (warm imageRef)) (\<lambda>err.
            case err of
              Some x \<Rightarrow> Ret (Some x)
            | None \<Rightarrow> andThen (warmSnapshotFor e imageRef) (\<lambda>_. Ret None)))"

subsection \<open>The idle sweep, shutting down, thresholds\<close>

definition idle_due :: "int \<Rightarrow> Sandbox \<Rightarrow> string option" where
  "idle_due now sb =
     (case sp_Lifecycle (sb_Spec sb) of
        None \<Rightarrow> None
      | Some lc \<Rightarrow>
          if \<not> lc_HasIdleTimeout lc \<or> sb_State sb \<noteq> StateRunning then None
          else if sb_inFlight sb > 0 then None
          else if now - sb_lastActivity sb \<ge> lc_IdleTimeoutSeconds lc * 10 ^ 9 then Some (lc_OnIdle lc) else None)"

definition sweepIdle :: "'w node_env \<Rightarrow> ('w node, unit) prog" where
  "sweepIdle e =
     andThen (call (\<lambda>w. (w, ne_now e w))) (\<lambda>now.
     andThen (locked (\<lambda>m w. (m, List.map_filter (\<lambda>(sid, a). map_option (Pair sid) (idle_due now (obj m a))) (m_sandboxes m))))
       (for_each (\<lambda>(sid, onIdle).
          andThen (if onIdle = ''delete'' then Manager_Destroy e sid False else Manager_Pause e sid) (\<lambda>_. Ret ()))))"

definition Manager_Close :: "'w node_env \<Rightarrow> ('w node, unit) prog" where
  "Manager_Close e =
     andThen (locked (\<lambda>m w. (m, map fst (m_sandboxes m))))
       (for_each (\<lambda>sid. andThen (Manager_Destroy e sid True) (\<lambda>_. Ret ())))"

definition SetAdmission :: "DiskGuard \<Rightarrow> MemGuard \<Rightarrow> ('w node, unit) prog" where
  "SetAdmission disk mem = locked (\<lambda>m w. (m\<lparr>m_disk := disk, m_mem := mem\<rparr>, ()))"

definition Admission :: "('w node, DiskGuard \<times> MemGuard) prog" where
  "Admission = locked (\<lambda>m w. (m, (m_disk m, m_mem m)))"

record AdmissionConfig =
  ac_MinFreeDiskMib :: "int option"
  ac_MinFreeDiskPercent :: "rat option"
  ac_MaxMemPercent :: "rat option"

definition overlay_disk :: "AdmissionConfig \<Rightarrow> DiskGuard \<Rightarrow> DiskGuard" where
  "overlay_disk cfg disk =
     (let disk = (case ac_MinFreeDiskMib cfg of None \<Rightarrow> disk | Some v \<Rightarrow> disk\<lparr>dg_MinFreeBytes := push_bit 20 v\<rparr>)
      in case ac_MinFreeDiskPercent cfg of None \<Rightarrow> disk | Some v \<Rightarrow> disk\<lparr>dg_MinFreePercent := v\<rparr>)"

definition overlay_mem :: "AdmissionConfig \<Rightarrow> MemGuard \<Rightarrow> MemGuard" where
  "overlay_mem cfg mem = (case ac_MaxMemPercent cfg of None \<Rightarrow> mem | Some v \<Rightarrow> mem\<lparr>mg_MaxUsedPercent := v\<rparr>)"

text \<open>The service's handler: the new thresholds are validated and made durable before they are installed.\<close>

definition ConfigureAdmission ::
  "(DiskGuard \<Rightarrow> MemGuard \<Rightarrow> 'w \<Rightarrow> 'w \<times> go_error option) option \<Rightarrow> AdmissionConfig option \<Rightarrow> ('w node, go_error option) prog" where
  "ConfigureAdmission persist cfg =
     (case cfg of
        None \<Rightarrow> Ret None
      | Some cfg \<Rightarrow>
          andThen Admission (\<lambda>(disk, mem).
            let disk = overlay_disk cfg disk; mem = overlay_mem cfg mem
            in case DiskGuard_Validate disk of
                 Some x \<Rightarrow> Ret (Some (Wrapf ''disk admission'' [] x))
               | None \<Rightarrow>
            (case MemGuard_Validate mem of
                 Some x \<Rightarrow> Ret (Some (Wrapf ''memory admission'' [] x))
               | None \<Rightarrow>
                   andThen (case persist of None \<Rightarrow> Ret None | Some f \<Rightarrow> call (f disk mem)) (\<lambda>err.
                     case err of
                       Some x \<Rightarrow> Ret (Some (Wrapf ''persist admission'' [] x))
                     | None \<Rightarrow> andThen (SetAdmission disk mem) (\<lambda>_. Ret None)))))"

definition DiskUsedMiB :: "'w node_env \<Rightarrow> ('w node, int) prog" where
  "DiskUsedMiB e =
     andThen diskGuard (\<lambda>disk.
       if dg_Path disk = '''' then Ret 0
       else call (\<lambda>w. (w, case DiskGuard_Stat (ne_statfs e w) disk of Inl x \<Rightarrow> 0 | Inr stats \<Rightarrow> drop_bit 20 (ds_UsedBytes stats))))"

definition LoadSample :: "'w node_env \<Rightarrow> ('w node, rat \<times> rat) prog" where
  "LoadSample e =
     locked (\<lambda>m w. case cpuSampler_Percent (ne_files e w) (m_cpu m) of
         (cpu, pct) \<Rightarrow> (m\<lparr>m_cpu := cpu\<rparr>,
           (pct, case MemGuard_Stat (ne_files e w) zeroMemGuard of Inl x \<Rightarrow> 0 | Inr stats \<Rightarrow> UsedPercent stats)))"

end
