(* ===== verification/ManagerRuns.thy ===== *)
theory ManagerRuns
  imports Manager
begin

text \<open>
  What holds of the sandbox manager while its methods interrupt each other, and what one method run alone
  does. The manager's programs are an instance of the locale \<open>discipline\<close> of theory \<open>Interleave\<close>:
  the invariant is that the records are well formed, and what somebody still has to deal with is every
  record that is in the middle of a transition.
\<close>

section \<open>Well-formed records\<close>

text \<open>The manager never puts a record in the states it leaves to other parts of the system.\<close>

definition sane :: "Sandbox \<Rightarrow> bool" where
  [simp]: "sane sb \<longleftrightarrow> 0 \<le> sb_inFlight sb \<and> sb_State sb \<notin> {StatePulling, StateStopped, StateFailed}"

definition well_formed :: "Manager \<Rightarrow> bool" where
  "well_formed m \<longleftrightarrow> distinct (map fst (m_sandboxes m)) \<and> distinct (map snd (m_sandboxes m))
     \<and> (\<forall>(sid, a) \<in> set (m_sandboxes m). a < length (m_objs m) \<and> sp_SandboxId (sb_Spec (obj m a)) = sid)
     \<and> (\<forall>sb \<in> set (m_objs m). sane sb)"

lemma sandbox_at_iff: "well_formed m \<Longrightarrow> sandbox_at m sid = Some a \<longleftrightarrow> (sid, a) \<in> set (m_sandboxes m)"
  by (simp add: well_formed_def sandbox_at_def)

lemma sandbox_at_obj:
  assumes "well_formed m" "sandbox_at m sid = Some a"
  shows "a < length (m_objs m)" "sp_SandboxId (sb_Spec (obj m a)) = sid"
  using assms by (auto simp: sandbox_at_iff) (auto simp: well_formed_def)

lemma same_object:
  assumes "well_formed m" "sandbox_at m s = Some a" "sandbox_at m t = Some a"
  shows "s = t"
  using sandbox_at_obj(2) [OF assms(1,2)] sandbox_at_obj(2) [OF assms(1,3)] by simp

lemma set_obj_simps [simp]:
  "m_sandboxes (set_obj a f m) = m_sandboxes m" "sandbox_at (set_obj a f m) = sandbox_at m" "m_alloc (set_obj a f m) = m_alloc m"
  "m_Net (set_obj a f m) = m_Net m" "length (m_objs (set_obj a f m)) = length (m_objs m)" "m_statusKick (set_obj a f m) = m_statusKick m"
  by (auto simp: set_obj_def sandbox_at_def)

lemma obj_set_obj: "obj (set_obj a f m) b = (if b = a \<and> a < length (m_objs m) then f (obj m a) else obj m b)"
  by (cases "a < length (m_objs m)") (auto simp: set_obj_def obj_def nth_list_update list_update_beyond)

lemma well_formed_set_obj:
  assumes "well_formed m" "\<And>sb. sb_Spec (f sb) = sb_Spec sb" "\<And>sb. sane sb \<Longrightarrow> sane (f sb)"
  shows "well_formed (set_obj a f m)"
proof (cases "a < length (m_objs m)")
  case True
  then have "sane (obj m a)" using assms(1) by (auto simp: well_formed_def obj_def simp del: sane_def)
  then have "sane (f (obj m a))" using assms(3) by blast
  then have "\<forall>sb \<in> set (m_objs (set_obj a f m)). sane sb"
    using assms(1) set_update_subset_insert [of "m_objs m" a "f (obj m a)"] by (auto simp: well_formed_def set_obj_def simp del: sane_def)
  then show ?thesis using assms(1,2) by (auto simp: well_formed_def obj_set_obj simp del: sane_def)
next
  case False
  then have "set_obj a f m = m" by (simp add: set_obj_def list_update_beyond)
  then show ?thesis using assms(1) by simp
qed

lemma well_formed_fields [simp]:
  "well_formed (m\<lparr>m_alloc := al\<rparr>) = well_formed m" "well_formed (m\<lparr>m_statusKick := b\<rparr>) = well_formed m"
  "well_formed (m\<lparr>m_disk := d, m_mem := g\<rparr>) = well_formed m" "well_formed (m\<lparr>m_cpu := c\<rparr>) = well_formed m"
  by (simp_all add: well_formed_def obj_def)

lemma well_formed_if_present:
  assumes "well_formed m" "\<And>sb. sb_Spec (f sb) = sb_Spec sb" "\<And>sb. sane sb \<Longrightarrow> sane (f sb)"
  shows "well_formed (if_present sid f m)"
  using well_formed_set_obj [OF assms] assms(1) by (simp add: if_present_def split: option.split)

lemma sandbox_at_delete: "sandbox_at (delete_sandbox sid m) s = (if s = sid then None else sandbox_at m s)"
proof -
  have "map_of (filter (\<lambda>p. fst p \<noteq> sid) xs) s = (if s = sid then None else map_of xs s)" for xs :: "(string \<times> nat) list"
    by (induction xs) auto
  then show ?thesis by (simp add: sandbox_at_def delete_sandbox_def)
qed

lemma delete_simps [simp]: "obj (delete_sandbox sid m) a = obj m a" "m_objs (delete_sandbox sid m) = m_objs m"
  "m_alloc (delete_sandbox sid m) = m_alloc m" "m_Net (delete_sandbox sid m) = m_Net m"
  by (simp_all add: delete_sandbox_def obj_def)

lemma well_formed_delete: "well_formed m \<Longrightarrow> well_formed (delete_sandbox sid m)"
  by (auto simp: well_formed_def delete_sandbox_def obj_def distinct_map inj_on_def)

text \<open>A new record: fresh in the store, and in the map under its own id.\<close>

definition with_record :: "string \<Rightarrow> Sandbox \<Rightarrow> Manager \<Rightarrow> Manager" where
  "with_record sid sb m = m\<lparr>m_objs := m_objs m @ [sb], m_sandboxes := (sid, length (m_objs m)) # m_sandboxes m\<rparr>"

lemma sandbox_at_with_record: "sandbox_at (with_record sid sb m) s = (if s = sid then Some (length (m_objs m)) else sandbox_at m s)"
  by (simp add: sandbox_at_def with_record_def)

lemma obj_with_record:
  "obj (with_record sid sb m) (length (m_objs m)) = sb" "a < length (m_objs m) \<Longrightarrow> obj (with_record sid sb m) a = obj m a"
  by (simp_all add: obj_def with_record_def nth_append)

lemma well_formed_with_record:
  assumes "well_formed m" "sandbox_at m sid = None" "sp_SandboxId (sb_Spec sb) = sid" "sane sb"
  shows "well_formed (with_record sid sb m)"
proof -
  have fresh: "sid \<notin> fst ` set (m_sandboxes m)" using assms(2) by (simp add: sandbox_at_def map_of_eq_None_iff)
  have below: "a < length (m_objs m)" if "(s, a) \<in> set (m_sandboxes m)" for s a
    using assms(1) that by (auto simp: well_formed_def)
  then have "length (m_objs m) \<notin> snd ` set (m_sandboxes m)" by fastforce
  then show ?thesis using assms fresh below
    by (auto simp: well_formed_def with_record_def obj_def nth_append)
qed

section \<open>Records in transition\<close>

datatype claim = Making string nat | Moving State string

definition pending :: "Manager \<Rightarrow> claim set" where
  "pending m = {Making sid a | sid a. sandbox_at m sid = Some a \<and> sb_State (obj m a) \<in> {StateStarting, StateRestoring}}
     \<union> {Moving st sid | st sid. st \<in> {StatePausing, StateResuming, StateSnapshotting}
          \<and> (\<exists>a. sandbox_at m sid = Some a \<and> sb_State (obj m a) = st)}"

lemma pending_iff:
  "Making sid a \<in> pending m \<longleftrightarrow> sandbox_at m sid = Some a \<and> sb_State (obj m a) \<in> {StateStarting, StateRestoring}"
  "Moving st sid \<in> pending m \<longleftrightarrow> st \<in> {StatePausing, StateResuming, StateSnapshotting}
     \<and> (\<exists>a. sandbox_at m sid = Some a \<and> sb_State (obj m a) = st)"
  by (auto simp: pending_def)

lemma pending_subsetI:
  assumes "\<And>sid a. Making sid a \<in> A \<Longrightarrow> Making sid a \<in> B" "\<And>st sid. Moving st sid \<in> A \<Longrightarrow> Moving st sid \<in> B"
  shows "A \<subseteq> B"
proof
  fix x assume "x \<in> A" then show "x \<in> B" using assms by (cases x) auto
qed

lemma pending_fields [simp]:
  "pending (m\<lparr>m_alloc := al\<rparr>) = pending m" "pending (m\<lparr>m_statusKick := b\<rparr>) = pending m"
  "pending (m\<lparr>m_disk := d, m_mem := g\<rparr>) = pending m" "pending (m\<lparr>m_cpu := c\<rparr>) = pending m"
  by (simp_all add: pending_def sandbox_at_def obj_def)

lemma pending_delete:
  "pending (delete_sandbox sid m) \<subseteq> pending m" "Making sid a \<notin> pending (delete_sandbox sid m)"
  by (rule pending_subsetI) (auto simp: pending_iff sandbox_at_delete split: if_splits)

text \<open>A write that ends a transition, or leaves the state alone, adds nothing.\<close>

lemma pending_set_obj:
  assumes "\<And>sb. sb_State (f sb) = sb_State sb \<or> sb_State (f sb) \<in> {StateRunning, StatePaused}"
  shows "pending (set_obj a f m) \<subseteq> pending m"
proof (rule pending_subsetI)
  fix sid b show "Making sid b \<in> pending m" if "Making sid b \<in> pending (set_obj a f m)"
    using that assms [of "obj m a"] by (auto simp: pending_iff obj_set_obj split: if_splits)
next
  fix st sid show "Moving st sid \<in> pending m" if "Moving st sid \<in> pending (set_obj a f m)"
    using that assms [of "obj m a"] by (auto simp: pending_iff obj_set_obj split: if_splits)
qed

lemma pending_if_present:
  assumes "\<And>sb. sb_State (f sb) = sb_State sb \<or> sb_State (f sb) \<in> {StateRunning, StatePaused}"
  shows "pending (if_present sid f m) \<subseteq> pending m"
  using pending_set_obj [OF assms] by (simp add: if_present_def split: option.split)

text \<open>A write that starts one on the record of \<open>sid\<close> adds that transition alone.\<close>

lemma pending_move:
  assumes "well_formed m" "sandbox_at m sid = Some a" "\<And>sb. sb_State (f sb) = st" "st \<in> {StatePausing, StateResuming, StateSnapshotting}"
  shows "pending (set_obj a f m) \<subseteq> pending m \<union> {Moving st sid}"
proof (rule pending_subsetI)
  fix s b show "Making s b \<in> pending m \<union> {Moving st sid}" if "Making s b \<in> pending (set_obj a f m)"
    using that assms(3,4) by (auto simp: pending_iff obj_set_obj split: if_splits)
next
  fix st' s show "Moving st' s \<in> pending m \<union> {Moving st sid}" if "Moving st' s \<in> pending (set_obj a f m)"
    using that assms(3,4) same_object [OF assms(1) _ assms(2), of s] by (auto simp: pending_iff obj_set_obj split: if_splits)
qed

lemma pending_with_record:
  assumes "well_formed m" "sandbox_at m sid = None" "sb_State sb \<in> {StateStarting, StateRestoring}"
  shows "pending (with_record sid sb m) \<subseteq> pending m \<union> {Making sid (length (m_objs m))}"
proof (rule pending_subsetI)
  note old = sandbox_at_obj(1) [OF assms(1)]
  fix s b show "Making s b \<in> pending m \<union> {Making sid (length (m_objs m))}" if "Making s b \<in> pending (with_record sid sb m)"
    using that old by (auto simp: pending_iff sandbox_at_with_record obj_with_record split: if_splits)
next
  note old = sandbox_at_obj(1) [OF assms(1)]
  fix st s show "Moving st s \<in> pending m \<union> {Making sid (length (m_objs m))}" if "Moving st s \<in> pending (with_record sid sb m)"
    using that old assms(3) by (auto simp: pending_iff sandbox_at_with_record obj_with_record split: if_splits)
qed

section \<open>What each program owes\<close>

definition good_node :: "'w node \<Rightarrow> bool" where "good_node s = well_formed (fst s)"

definition pending_node :: "'w node \<Rightarrow> claim set" where "pending_node s = pending (fst s)"

abbreviation owes :: "('w node, 'r) prog \<Rightarrow> claim set \<Rightarrow> ('r \<Rightarrow> claim set \<Rightarrow> bool) \<Rightarrow> bool" where
  "owes p c Q \<equiv> keeps good_node pending_node p c Q"

definition quiet :: "('w node, 'r) prog \<Rightarrow> bool" where
  "quiet p \<longleftrightarrow> (\<forall>c. owes p c (\<lambda>r c'. c' = c))"

named_theorems quiet_rules \<open>programs that start no transition\<close>

lemma owes_locked:
  fixes g :: "Manager \<Rightarrow> 'w \<Rightarrow> Manager \<times> 'r"
  assumes "\<And>m w. well_formed m \<Longrightarrow> well_formed (fst (g m w)) \<and>
    (\<exists>c'. pending (fst (g m w)) \<subseteq> pending m \<union> c' \<and> pending (fst (g m w)) \<inter> c \<subseteq> c' \<and> Q (snd (g m w)) c')"
  shows "owes (locked g) c Q"
  unfolding locked_def
proof (rule keeps_atom)
  fix s :: "'w node" assume s: "good_node s"
  obtain m w where mw: "s = (m, w)" by force
  show "good_node (fst ((\<lambda>(m, w). case g m w of (m', r) \<Rightarrow> ((m', w), r)) s)) \<and>
    (\<exists>c'. pending_node (fst ((\<lambda>(m, w). case g m w of (m', r) \<Rightarrow> ((m', w), r)) s)) \<subseteq> pending_node s \<union> c'
      \<and> pending_node (fst ((\<lambda>(m, w). case g m w of (m', r) \<Rightarrow> ((m', w), r)) s)) \<inter> c \<subseteq> c'
      \<and> Q (snd ((\<lambda>(m, w). case g m w of (m', r) \<Rightarrow> ((m', w), r)) s)) c')"
    using assms [of m w] s by (simp add: mw good_node_def pending_node_def split_beta)
qed

lemma quiet_locked:
  assumes "\<And>m w. well_formed m \<Longrightarrow> well_formed (fst (g m w)) \<and> pending (fst (g m w)) \<subseteq> pending m"
  shows "quiet (locked g)"
  unfolding quiet_def
proof (intro allI owes_locked)
  fix c m w assume "well_formed m"
  from assms [OF this] show "well_formed (fst (g m w)) \<and>
    (\<exists>c'. pending (fst (g m w)) \<subseteq> pending m \<union> c' \<and> pending (fst (g m w)) \<inter> c \<subseteq> c' \<and> c' = c)"
    by auto
qed

lemma quiet_call [quiet_rules]: "quiet (call f)"
  unfolding quiet_def call_def
  by (intro allI keeps_quiet) (simp add: good_node_def pending_node_def split_beta)

lemma quiet_Ret [quiet_rules]: "quiet (Ret r)"
  by (simp add: quiet_def)

lemma quiet_andThen [quiet_rules]: "quiet p \<Longrightarrow> (\<And>r. quiet (f r)) \<Longrightarrow> quiet (andThen p f)"
  unfolding quiet_def by (intro allI, rule keeps_andThen, blast) simp

lemma quiet_andTry [quiet_rules]: "quiet p \<Longrightarrow> (\<And>r. quiet (f r)) \<Longrightarrow> quiet (andTry p f)"
  unfolding andTry_def by (rule quiet_andThen) (simp_all add: quiet_Ret split: sum.split)

lemma quiet_if [quiet_rules]: "(b \<Longrightarrow> quiet p) \<Longrightarrow> (\<not> b \<Longrightarrow> quiet q) \<Longrightarrow> quiet (if b then p else q)"
  by simp

lemma quiet_option [quiet_rules]: "quiet p \<Longrightarrow> (\<And>x. quiet (f x)) \<Longrightarrow> quiet (case v of None \<Rightarrow> p | Some x \<Rightarrow> f x)"
  by (cases v) simp_all

lemma quiet_sum [quiet_rules]: "(\<And>x. quiet (f x)) \<Longrightarrow> (\<And>y. quiet (g y)) \<Longrightarrow> quiet (case v of Inl x \<Rightarrow> f x | Inr y \<Rightarrow> g y)"
  by (cases v) simp_all

lemma quiet_prod [quiet_rules]: "(\<And>x y. quiet (f x y)) \<Longrightarrow> quiet (case v of (x, y) \<Rightarrow> f x y)"
  by (cases v) simp

lemma quiet_for_each: "(\<And>x. quiet (f x)) \<Longrightarrow> quiet (for_each f xs)"
  unfolding quiet_def by (intro allI keeps_for_each) blast

lemma quiet_look [quiet_rules]: "quiet (locked (\<lambda>m w. (m, f m w)))"
  by (rule quiet_locked) simp

lemma quiet_if_present:
  assumes "\<And>w sb. sb_Spec (f w sb) = sb_Spec sb" "\<And>w sb. sane sb \<Longrightarrow> sane (f w sb)"
    and "\<And>w sb. sb_State (f w sb) = sb_State sb \<or> sb_State (f w sb) \<in> {StateRunning, StatePaused}"
  shows "quiet (locked (\<lambda>m w. (if_present sid (f w) m, v m w)))"
proof (rule quiet_locked)
  fix m w assume "well_formed m"
  then show "well_formed (fst (if_present sid (f w) m, v m w)) \<and> pending (fst (if_present sid (f w) m, v m w)) \<subseteq> pending m"
    using well_formed_if_present [of m "f w" sid] pending_if_present [of "f w" sid m] assms by simp
qed

lemma owes_quiet: "quiet p \<Longrightarrow> (\<And>r. Q r c) \<Longrightarrow> owes p c Q"
  unfolding quiet_def by (erule allE, erule keeps_weaken) simp

lemma quiet_alloc [quiet_rules]:
  "quiet (alloc_release sid)" "quiet has_net" "quiet kick"
  "quiet (locked (\<lambda>m w. case f m w of (a, r) \<Rightarrow> (m\<lparr>m_alloc := a\<rparr>, r)))"
  unfolding alloc_release_def has_net_def kick_def by (rule quiet_locked; simp split: prod.split)+

lemma quiet_Provision [quiet_rules]: "quiet (node_Provision e sid)"
  unfolding node_Provision_def by (intro quiet_rules)

lemma quiet_Deprovision [quiet_rules]: "quiet (node_Deprovision e sid)"
  unfolding node_Deprovision_def by (intro quiet_rules)

lemma quiet_releaseNetwork [quiet_rules]: "quiet (releaseNetwork e sid)"
  unfolding releaseNetwork_def by (intro quiet_rules)

lemma quiet_drop [quiet_rules]: "quiet (locked (\<lambda>m w. (delete_sandbox sid m, f m w)))"
  by (rule quiet_locked) (simp add: well_formed_delete pending_delete)

lemma quiet_dropFailed [quiet_rules]: "quiet (dropFailed e sid)"
  unfolding dropFailed_def by (intro quiet_rules)

lemma quiet_connectAgent [quiet_rules]: "quiet (connectAgent e handle)"
  unfolding connectAgent_def by (intro quiet_rules)

lemma quiet_redialAgent [quiet_rules]: "quiet (redialAgent e sid)"
  unfolding redialAgent_def by (intro quiet_rules quiet_if_present) simp_all

lemma quiet_createOrRestoreWarm [quiet_rules]: "quiet (createOrRestoreWarm e rspec imageRef)"
  unfolding createOrRestoreWarm_def by (intro quiet_rules)

lemma quiet_startUserProcess [quiet_rules]: "quiet (startUserProcess e conn spec)"
  unfolding startUserProcess_def by (intro quiet_rules)

lemma quiet_release [quiet_rules]: "quiet (AgentConn_release e sid)"
  unfolding AgentConn_release_def by (rule quiet_if_present) simp_all

lemma quiet_sync [quiet_rules]: "quiet (run_sync e conn cmd)" "quiet (syncViaAgent e sid)" "quiet (flushBeforeDestroy e sid)"
  unfolding run_sync_def syncViaAgent_def flushBeforeDestroy_def by (intro quiet_rules)+

lemma quiet_Destroy [quiet_rules]: "quiet (Manager_Destroy e sid force)"
  unfolding Manager_Destroy_def by (intro quiet_rules)

lemma quiet_guards [quiet_rules]: "quiet diskGuard" "quiet memGuard" "quiet (SetAdmission disk mem)" "quiet Admission"
  unfolding diskGuard_def memGuard_def SetAdmission_def Admission_def by (rule quiet_locked; simp)+

lemma quiet_refusing [quiet_rules]: "quiet p \<Longrightarrow> quiet (refusing p)"
  unfolding refusing_def by (intro quiet_rules)

lemma quiet_ConfigureAdmission [quiet_rules]: "quiet (ConfigureAdmission persist cfg)"
  unfolding ConfigureAdmission_def Let_def by (intro quiet_rules)

lemma quiet_seen [quiet_rules]: "quiet (locked (\<lambda>m w. case sandbox_at m sid of None \<Rightarrow> (m, v) | Some a \<Rightarrow>
    (set_obj a (\<lambda>sb. sb\<lparr>sb_lastActivity := f w, sb_inFlight := sb_inFlight sb + 1\<rparr>) m, h m a)))"
  by (rule quiet_locked) (auto intro!: well_formed_set_obj dest: pending_set_obj [THEN subsetD, rotated] split: option.split)

text \<open>Programs that start transitions and end them: nothing is left when they end.\<close>

definition tidy :: "('w node, 'r) prog \<Rightarrow> bool" where
  "tidy p \<longleftrightarrow> owes p {} (\<lambda>r c. c = {})"

named_theorems tidy_rules \<open>programs that end every transition they start\<close>

lemma quiet_tidy [tidy_rules]: "quiet p \<Longrightarrow> tidy p"
  by (simp add: quiet_def tidy_def)

lemma tidy_andThen: "tidy p \<Longrightarrow> (\<And>r. tidy (f r)) \<Longrightarrow> tidy (andThen p f)"
  unfolding tidy_def by (rule keeps_andThen, assumption) simp

lemma tidy_andTry: "tidy p \<Longrightarrow> (\<And>r. tidy (f r)) \<Longrightarrow> tidy (andTry p f)"
  unfolding andTry_def by (rule tidy_andThen) (simp_all add: quiet_tidy quiet_Ret split: sum.split)

lemma tidy_for_each: "(\<And>x. tidy (f x)) \<Longrightarrow> tidy (for_each f xs)"
  unfolding tidy_def by (rule keeps_for_each)

lemma owes_settle:
  assumes "\<And>w sb. sb_Spec (f w sb) = sb_Spec sb" "\<And>w sb. sane sb \<Longrightarrow> sane (f w sb)"
    and "\<And>w sb. sb_State (f w sb) = sb_State sb \<or> sb_State (f w sb) \<in> {StateRunning, StatePaused}" "\<And>w sb. sb_State (f w sb) \<noteq> st"
  shows "owes (locked (\<lambda>m w. (if_present sid (f w) m, ()))) {Moving st sid} (\<lambda>r c. c = {})"
proof (rule owes_locked)
  fix m w assume wf: "well_formed m"
  have "Moving st sid \<notin> pending (if_present sid (f w) m)"
    using sandbox_at_obj(1) [OF wf] assms(4) by (auto simp: pending_iff if_present_def obj_set_obj split: option.splits)
  then show "well_formed (fst (if_present sid (f w) m, ())) \<and> (\<exists>c'. pending (fst (if_present sid (f w) m, ())) \<subseteq> pending m \<union> c'
      \<and> pending (fst (if_present sid (f w) m, ())) \<inter> {Moving st sid} \<subseteq> c' \<and> c' = {})"
    using well_formed_if_present [OF wf, of "f w" sid] pending_if_present [of "f w" sid m] assms by simp
qed

lemma owes_move:
  assumes "st \<in> {StatePausing, StateResuming, StateSnapshotting}" "\<And>w sb. sb_State (f w sb) = st"
    and "\<And>w sb. sb_Spec (f w sb) = sb_Spec sb" "\<And>w sb. sb_inFlight (f w sb) = sb_inFlight sb"
    and "\<And>m w. fst (g m w) = m \<and> Q (snd (g m w)) {} \<or>
      (\<exists>a. sandbox_at m sid = Some a \<and> fst (g m w) = set_obj a (f w) m \<and> Q (snd (g m w)) {Moving st sid})"
  shows "owes (locked g) {} Q"
proof (rule owes_locked)
  fix m w assume wf: "well_formed m"
  from assms(5) [of m w] show "well_formed (fst (g m w)) \<and>
    (\<exists>c'. pending (fst (g m w)) \<subseteq> pending m \<union> c' \<and> pending (fst (g m w)) \<inter> {} \<subseteq> c' \<and> Q (snd (g m w)) c')"
  proof
    assume "\<exists>a. sandbox_at m sid = Some a \<and> fst (g m w) = set_obj a (f w) m \<and> Q (snd (g m w)) {Moving st sid}"
    then obtain a where a: "sandbox_at m sid = Some a" "fst (g m w) = set_obj a (f w) m" "Q (snd (g m w)) {Moving st sid}" by blast
    have "pending (fst (g m w)) \<subseteq> pending m \<union> {Moving st sid}"
      unfolding a(2) by (rule pending_move [OF wf a(1)]) (use assms(1,2) in auto)
    moreover have "well_formed (fst (g m w))"
      unfolding a(2) by (rule well_formed_set_obj [OF wf]) (use assms(1) in \<open>auto simp: assms(2-4)\<close>)
    ultimately show ?thesis using a(3) by auto
  qed (use wf in auto)
qed

lemma owes_then: "quiet p \<Longrightarrow> (\<And>r. owes (f r) c Q) \<Longrightarrow> owes (andThen p f) c Q"
  unfolding quiet_def by (rule keeps_andThen, erule allE, assumption) simp

lemma owes_if: "(b \<Longrightarrow> owes p c Q) \<Longrightarrow> (\<not> b \<Longrightarrow> owes q c Q) \<Longrightarrow> owes (if b then p else q) c Q"
  by simp

lemma owes_option: "owes p c Q \<Longrightarrow> (\<And>x. owes (f x) c Q) \<Longrightarrow> owes (case v of None \<Rightarrow> p | Some x \<Rightarrow> f x) c Q"
  by (cases v) simp_all

text \<open>The last step of a transition, and quiet programs after it.\<close>

lemma settle_then:
  assumes "st' \<in> {StateRunning, StatePaused}" "st \<in> {StatePausing, StateResuming, StateSnapshotting}" "quiet q"
  shows "owes (andThen (settle sid st st') (\<lambda>_. q)) {Moving st sid} (\<lambda>r c. c = {})"
proof (rule keeps_andThen)
  show "owes (settle sid st st') {Moving st sid} (\<lambda>r c. c = {})"
    unfolding settle_def by (rule owes_settle) (use assms(1,2) in auto)
qed (use assms(3) in \<open>simp add: quiet_def\<close>)

lemma set_state_then:
  assumes "\<And>w sb. sb_Spec (f w sb) = sb_Spec sb" "\<And>w sb. sb_inFlight (f w sb) = sb_inFlight sb"
    and "\<And>w sb. sb_State (f w sb) = st'" "st' \<in> {StateRunning, StatePaused}" "st \<in> {StatePausing, StateResuming, StateSnapshotting}" "quiet q"
  shows "owes (andThen (locked (\<lambda>m w. (if_present sid (f w) m, ()))) (\<lambda>_. q)) {Moving st sid} (\<lambda>r c. c = {})"
proof (rule keeps_andThen)
  show "owes (locked (\<lambda>m w. (if_present sid (f w) m, ()))) {Moving st sid} (\<lambda>r c. c = {})"
    by (rule owes_settle) (use assms(1-5) in auto)
qed (use assms(6) in \<open>simp add: quiet_def\<close>)

lemma owes_claim_pause: "owes (claim_pause sid) {} (\<lambda>r c. c = (if r = None then {Moving StatePausing sid} else {}))"
  unfolding claim_pause_def
  by (rule owes_move [where sid = sid and st = StatePausing and f = "\<lambda>w sb. sb\<lparr>sb_State := StatePausing\<rparr>"]) (auto split: option.split)

lemma owes_claim_resume: "owes (claim_resume sid) {} (\<lambda>r c. c = (if r = None then {Moving StateResuming sid} else {}))"
  unfolding claim_resume_def
  by (rule owes_move [where sid = sid and st = StateResuming and f = "\<lambda>w sb. sb\<lparr>sb_State := StateResuming\<rparr>"]) (auto split: option.split)

lemma owes_claim_snapshot:
  "owes (claim_snapshot sid) {} (\<lambda>r c. case r of Inl x \<Rightarrow> c = {} | Inr prev \<Rightarrow> c = {Moving StateSnapshotting sid} \<and> prev \<in> {StateRunning, StatePaused})"
  unfolding claim_snapshot_def
  by (rule owes_move [where sid = sid and st = StateSnapshotting and f = "\<lambda>w sb. sb\<lparr>sb_State := StateSnapshotting\<rparr>"]) (auto split: option.split)

lemma tidy_Pause: "tidy (Manager_Pause e sid)"
  unfolding tidy_def Manager_Pause_def
proof (rule keeps_andThen [OF owes_claim_pause], goal_cases)
  case (1 r c)
  then show ?case
  proof (cases r)
    case None
    with 1 have c: "c = {Moving StatePausing sid}" by simp
    show ?thesis unfolding None c option.case
      by (intro owes_then owes_option set_state_then [where st' = StatePaused] settle_then quiet_rules) simp_all
  qed simp
qed

lemma tidy_Resume: "tidy (Manager_Resume e sid)"
  unfolding tidy_def Manager_Resume_def
proof (rule keeps_andThen [OF owes_claim_resume], goal_cases)
  case (1 r c)
  then show ?case
  proof (cases r)
    case None
    with 1 have c: "c = {Moving StateResuming sid}" by simp
    show ?thesis unfolding None c option.case
      by (intro owes_then owes_option set_state_then [where st' = StateRunning] settle_then quiet_rules) simp_all
  qed simp
qed

lemma tidy_Snapshot: "tidy (Manager_Snapshot e sid opts)"
  unfolding tidy_def Manager_Snapshot_def andTry_def
proof (rule keeps_andThen [OF owes_claim_snapshot], goal_cases)
  case (1 r c)
  then show ?case
  proof (cases r)
    case (Inr prev)
    with 1 have c: "c = {Moving StateSnapshotting sid}" and prev: "prev \<in> {StateRunning, StatePaused}" by simp_all
    show ?thesis unfolding Inr c sum.case
      by (intro owes_then owes_option settle_then quiet_rules) (use prev in simp_all)
  qed simp
qed

text \<open>Creating: the record in its starting state is the claim, until it is published or dropped.\<close>

lemma owes_reserve:
  assumes "st \<in> {StateStarting, StateRestoring}"
  shows "owes (reserve_record e spec st) {} (\<lambda>r c. c = (case r of None \<Rightarrow> {} | Some a \<Rightarrow> {Making (sp_SandboxId spec) a}))"
  unfolding reserve_record_def
proof (rule owes_locked, goal_cases)
  case (1 m w)
  show ?case
  proof (cases "sandbox_at m (sp_SandboxId spec)")
    case None
    let ?sb = "\<lparr>sb_Spec = spec, sb_Handle = None, sb_State = st, sb_Reason = '''', sb_conn = None, sb_lastActivity = ne_now e w,
      sb_inFlight = 0, sb_net = None, sb_agentToken = ''''\<rparr>"
    have "well_formed (with_record (sp_SandboxId spec) ?sb m)"
      "pending (with_record (sp_SandboxId spec) ?sb m) \<subseteq> pending m \<union> {Making (sp_SandboxId spec) (length (m_objs m))}"
      using well_formed_with_record [OF 1 None, of ?sb] pending_with_record [OF 1 None, of ?sb] assms by auto
    then show ?thesis using None by (simp add: with_record_def Let_def)
  qed (use 1 in simp)
qed

lemma owes_dropFailed: "owes (dropFailed e sid) {Making sid a} (\<lambda>r c. c = {})"
proof -
  have "owes (locked (\<lambda>m w. (delete_sandbox sid m, ()))) {Making sid a} (\<lambda>r c. c = {})"
    by (rule owes_locked) (simp add: well_formed_delete pending_delete)
  then show ?thesis
    unfolding dropFailed_def by (rule keeps_andThen) (simp add: owes_quiet quiet_releaseNetwork)
qed

definition making :: "string \<Rightarrow> nat \<Rightarrow> ('w node, 'e + 'r) prog \<Rightarrow> bool" where
  "making sid a p \<longleftrightarrow> owes p {Making sid a} (\<lambda>r c. c = (case r of Inl x \<Rightarrow> {} | Inr v \<Rightarrow> {Making sid a}))"

lemma making_Ret: "making sid a (Ret (Inr v))"
  by (simp add: making_def)

lemma making_then: "quiet p \<Longrightarrow> (\<And>r. making sid a (f r)) \<Longrightarrow> making sid a (andThen p f)"
  unfolding making_def by (rule owes_then)

lemma making_drop: "making sid a (andThen (dropFailed e sid) (\<lambda>_. Ret (Inl x)))"
  unfolding making_def by (rule keeps_andThen [OF owes_dropFailed]) simp

lemma making_if: "(b \<Longrightarrow> making sid a p) \<Longrightarrow> (\<not> b \<Longrightarrow> making sid a q) \<Longrightarrow> making sid a (if b then p else q)"
  by simp

lemma making_sum: "(\<And>x. making sid a (f x)) \<Longrightarrow> (\<And>y. making sid a (g y)) \<Longrightarrow> making sid a (case v of Inl x \<Rightarrow> f x | Inr y \<Rightarrow> g y)"
  by (cases v) simp_all

lemma quiet_assigned: "quiet (locked (\<lambda>m w. (if_present sid (\<lambda>sb. sb\<lparr>sb_agentToken := token, sb_net := Some layout\<rparr>) m, ())))"
  by (rule quiet_if_present) simp_all

lemma making_assign_network: "making (sp_SandboxId spec) a (assign_network e spec rspec)"
  unfolding assign_network_def Let_def
  by (intro making_then making_sum making_if making_drop making_Ret quiet_assigned quiet_rules)

lemma making_or_drop: "quiet p \<Longrightarrow> making sid a (or_drop e sid p)"
  unfolding or_drop_def by (intro making_then making_sum making_drop making_Ret)

lemma making_dialAgent: "making sid a (dialAgent e sid handle)"
  unfolding dialAgent_def by (intro making_then making_sum making_drop making_Ret quiet_rules)

lemma making_failing: "making sid a p \<Longrightarrow> making sid a (failing p)"
  unfolding making_def failing_def by (rule keeps_andThen, assumption) (auto split: sum.split)

lemma making_try:
  assumes "making sid a p" "\<And>x. owes (f x) {Making sid a} Q" "\<And>e. Q (Inl e) {}"
  shows "owes (andTry p f) {Making sid a} Q"
  unfolding andTry_def
  by (rule keeps_andThen [OF assms(1) [unfolded making_def]]) (use assms(2,3) in \<open>auto split: sum.split\<close>)

lemma publish_then:
  assumes "quiet q"
  shows "owes (andThen (publish a handle conn) (\<lambda>_. q)) {Making sid a} (\<lambda>r c. c = {})"
proof (rule keeps_andThen [where R = "\<lambda>r c. c = {}"])
  let ?f = "\<lambda>sb. sb\<lparr>sb_Handle := Some handle, sb_conn := Some conn, sb_State := StateRunning\<rparr>"
  show "owes (publish a handle conn) {Making sid a} (\<lambda>r c. c = {})"
    unfolding publish_def
  proof (rule owes_locked)
    fix m and w :: 'a assume wf: "well_formed m"
    have "Making sid a \<notin> pending (set_obj a ?f m)"
      using sandbox_at_obj(1) [OF wf, of sid a] by (auto simp: pending_iff obj_set_obj)
    then show "well_formed (fst (set_obj a ?f m, ())) \<and> (\<exists>c'. pending (fst (set_obj a ?f m, ())) \<subseteq> pending m \<union> c'
        \<and> pending (fst (set_obj a ?f m, ())) \<inter> {Making sid a} \<subseteq> c' \<and> c' = {})"
      using well_formed_set_obj [OF wf, of ?f a] pending_set_obj [of ?f a m] by simp
  qed
qed (use assms in \<open>simp add: quiet_def\<close>)

lemma tidy_Create: "tidy (Manager_Create e spec)"
proof -
  let ?sid = "sp_SandboxId spec"
  have "tidy (andThen (reserve_record e spec StateStarting) (\<lambda>r.
      case r of
        None \<Rightarrow> Ret (Inl (Failed (Errorf ''sandbox %s already exists'' [AStr ?sid])))
      | Some a \<Rightarrow>
          andTry (failing (assign_network e spec (specToRuntime spec))) (\<lambda>rspec.
          andTry (failing (or_drop e ?sid (createOrRestoreWarm e rspec (sp_Image spec)))) (\<lambda>handle.
          andTry (failing (dialAgent e ?sid handle)) (\<lambda>conn.
          andThen (publish a handle conn) (\<lambda>_.
          andThen kick (\<lambda>_.
          andThen (if sp_AutoStartCmd spec then startUserProcess e conn spec else Ret ()) (\<lambda>_. Ret (Inr a)))))))))"
    unfolding tidy_def
  proof (rule keeps_andThen [OF owes_reserve], simp, goal_cases)
    case (1 r c)
    then show ?case
    proof (cases r)
      case (Some a)
      with 1 have c: "c = {Making ?sid a}" by simp
      show ?thesis unfolding Some c option.case
        by (intro making_try making_failing making_assign_network making_or_drop making_dialAgent publish_then quiet_rules refl)
    qed simp
  qed
  then show ?thesis unfolding Manager_Create_def Let_def
    by (simp only: split: if_split)
      (intro conjI impI tidy_andTry quiet_tidy [OF quiet_refusing] quiet_tidy [OF quiet_Ret] quiet_andThen quiet_guards quiet_call; assumption)
qed

lemma tidy_Fork: "tidy (ForkSandbox e spec layers)"
proof (cases "sp_SandboxId spec = ''''")
  case False
  let ?sid = "sp_SandboxId spec"
  show ?thesis unfolding tidy_def ForkSandbox_def Let_def if_not_P [OF False]
  proof (rule keeps_andThen [OF owes_reserve], simp, goal_cases)
    case (1 r c)
    then show ?case
    proof (cases r)
      case (Some a)
      with 1 have c: "c = {Making ?sid a}" by simp
      show ?thesis unfolding Some c option.case
        by (intro making_try making_assign_network making_or_drop making_dialAgent publish_then quiet_rules refl)
    qed simp
  qed
qed (simp add: tidy_def ForkSandbox_def)

subsection \<open>The other methods\<close>

lemma tidy_Ret [tidy_rules]: "tidy (Ret r)"
  by (simp add: tidy_def)

lemma tidy_option [tidy_rules]: "tidy p \<Longrightarrow> (\<And>x. tidy (f x)) \<Longrightarrow> tidy (case v of None \<Rightarrow> p | Some x \<Rightarrow> f x)"
  by (cases v) simp_all

lemma tidy_sum [tidy_rules]: "(\<And>x. tidy (f x)) \<Longrightarrow> (\<And>y. tidy (g y)) \<Longrightarrow> tidy (case v of Inl x \<Rightarrow> f x | Inr y \<Rightarrow> g y)"
  by (cases v) simp_all

lemma tidy_prod [tidy_rules]: "(\<And>x y. tidy (f x y)) \<Longrightarrow> tidy (case v of (x, y) \<Rightarrow> f x y)"
  by (cases v) simp

lemma tidy_if [tidy_rules]: "(b \<Longrightarrow> tidy p) \<Longrightarrow> (\<not> b \<Longrightarrow> tidy q) \<Longrightarrow> tidy (if b then p else q)"
  by simp

lemmas tidy_steps = tidy_Ret tidy_option tidy_sum tidy_prod tidy_if tidy_andThen tidy_andTry tidy_for_each
  tidy_Pause tidy_Resume tidy_Snapshot tidy_Create tidy_Fork
  quiet_tidy [OF quiet_call] quiet_tidy [OF quiet_release] quiet_tidy [OF quiet_seen] quiet_tidy [OF quiet_Destroy]
  quiet_tidy [OF quiet_look] quiet_tidy [OF quiet_sync(1)]

lemma tidy_AgentConn: "tidy (AgentConn e sid)"
  unfolding AgentConn_def by (intro tidy_steps)

lemma tidy_request: "tidy (agent_request e sid use)"
  unfolding agent_request_def by (intro tidy_steps tidy_AgentConn)

lemma tidy_syncGuest: "tidy (syncGuest e sid)"
  unfolding syncGuest_def by (intro tidy_steps tidy_AgentConn)

lemma tidy_Prewarm: "tidy (Manager_PrewarmImage e imageRef)"
  unfolding Manager_PrewarmImage_def warmSnapshotFor_def capture_warm_def by (intro tidy_steps)

lemma tidy_sweep: "tidy (sweepIdle e)"
  unfolding sweepIdle_def by (intro tidy_steps)

lemma tidy_Close: "tidy (Manager_Close e)"
  unfolding Manager_Close_def by (intro tidy_steps)

section \<open>All interleavings\<close>

definition thread :: "('s, 'r) prog \<Rightarrow> ('s, unit) prog" where
  "thread p = andThen p (\<lambda>_. Ret ())"

text \<open>What may be started: any method with any arguments, and any number of them.\<close>

inductive manager_method :: "'w node_env \<Rightarrow> ('w node, unit) prog \<Rightarrow> bool" for e where
  "manager_method e (thread (Manager_Create e spec))"
| "manager_method e (thread (ForkSandbox e spec layers))"
| "manager_method e (thread (Manager_Destroy e sid force))"
| "manager_method e (thread (Manager_Pause e sid))"
| "manager_method e (thread (Manager_Resume e sid))"
| "manager_method e (thread (Manager_Snapshot e sid opts))"
| "manager_method e (thread (agent_request e sid (use :: nat option \<Rightarrow> 'w \<Rightarrow> 'w \<times> unit)))"
| "manager_method e (thread (syncGuest e sid))"
| "manager_method e (thread (Manager_PrewarmImage e imageRef))"
| "manager_method e (sweepIdle e)"
| "manager_method e (Manager_Close e)"
| "manager_method e (thread (ConfigureAdmission persist cfg))"
| "manager_method e (SetAdmission disk mem)"

text \<open>The world outside may change in any way at any time; the manager's state is the manager's.\<close>

definition world_moves :: "'w node \<Rightarrow> 'w node \<Rightarrow> bool" where
  "world_moves s s' \<longleftrightarrow> fst s' = fst s"

lemma method_tidy: "manager_method e p \<Longrightarrow> tidy p"
proof (induction rule: manager_method.induct)
  case (12 persist cfg)
  then show ?case unfolding thread_def by (intro tidy_andThen quiet_tidy quiet_ConfigureAdmission quiet_Ret)
next
  case (13 disk mem)
  then show ?case by (rule quiet_tidy [OF quiet_guards(3)])
qed (unfold thread_def, (intro tidy_steps tidy_request tidy_syncGuest tidy_Prewarm tidy_sweep tidy_Close)+)

interpretation node_manager: discipline good_node pending_node "manager_method e" world_moves for e
proof unfold_locales
  show "owes p {} (\<lambda>r c. c = {})" if "manager_method e p" for p
    using method_tidy [OF that] by (simp add: tidy_def)
qed (auto simp: world_moves_def good_node_def pending_node_def)

lemma new_manager: "good_node (NewManager net, w)" "pending_node (NewManager net, w) = {}"
  by (auto simp: good_node_def pending_node_def NewManager_def well_formed_def pending_def sandbox_at_def)

section \<open>An example world\<close>

text \<open>Namespaces and virtual machines by name; every call succeeds.\<close>

type_synonym example_state = "string list \<times> string list"

definition example_handle :: "string \<Rightarrow> Handle" where
  "example_handle sid = \<lparr>hn_SandboxID = sid, hn_AgentAddr = '''', hn_StartedAt = 0\<rparr>"

definition example_env :: "example_state node_env" where
  "example_env =
     \<lparr>ne_now = (\<lambda>w. 0), ne_statfs = (\<lambda>w p. Inl EOF), ne_files = (\<lambda>w p. Inl EOF), ne_parse = example_parse,
      ne_host = \<lparr>h_List = (\<lambda>(ns, vms). Inr ns), h_Setup = (\<lambda>l (ns, vms). ((l_Netns l # ns, vms), None)),
                 h_Teardown = (\<lambda>l (ns, vms). ((removeAll (l_Netns l) ns, vms), None))\<rparr>,
      ne_rand = (\<lambda>n w. (w, Inr (zeros n))), ne_sha256 = (\<lambda>s. []),
      rt_Create = (\<lambda>s (ns, vms). ((ns, rs_SandboxID s # vms), Inr (example_handle (rs_SandboxID s)))),
      rt_Fork = (\<lambda>s layers (ns, vms). ((ns, rs_SandboxID s # vms), Inr (example_handle (rs_SandboxID s)))),
      rt_Destroy = (\<lambda>sid force (ns, vms). ((ns, removeAll sid vms), None)),
      rt_Pause = (\<lambda>sid w. (w, None)), rt_Resume = (\<lambda>sid w. (w, None)), rt_Checkpoint = (\<lambda>sid opts w. (w, Inl EOF)),
      rt_warmer = None, rt_PrewarmImage = None, rt_ImageConfig = None, rt_BootLogTail = None,
      ne_dial = (\<lambda>h w. (w, Inr 0)), ne_waitHealthy = (\<lambda>c w. (w, None)), ne_closeConn = (\<lambda>c w. w),
      ne_exec = (\<lambda>c cmd w. (w, Inr (0, ''''))), ne_startProcess = (\<lambda>c p w. (w, None))\<rparr>"

lemmas example_simps = example_env_def example_handle_def

abbreviation example_net :: Manager where
  "example_net \<equiv> NewManager (Some (NewAllocator ''g''))"

definition example_spec :: SandboxSpec where
  "example_spec = warm_spec ''sb1'' ''img''"

lemma example_guards: "DiskGuard_Admit f zeroDiskGuard = None" "MemGuard_Admit g zeroMemGuard = None"
  by (simp_all add: DiskGuard_Admit_def DiskGuard_Enabled_def zeroDiskGuard_def MemGuard_Admit_def MemGuard_Enabled_def zeroMemGuard_def)

lemma example_slot:
  "\<exists>l. Allocator_Reserve example_parse (Some (Inr [])) (NewAllocator ''g'') ''sb1'' = (NewAllocator ''g''\<lparr>al_taken := [(0, ''sb1'')]\<rparr>, Inr l)
     \<and> l_Netns l = ''bean-0'' \<and> Allocator_LayoutOf example_parse (NewAllocator ''g''\<lparr>al_taken := [(0, ''sb1'')]\<rparr>) ''sb1'' = Some l"
proof -
  have "dec 0 = ''0''" by code_simp
  then obtain l where l: "LayoutFor example_parse 0 ''g'' = Inr l" "l_Netns l = ''bean-0''"
    using example_layout [of 0 "''g''"] by (auto simp: MaxIndex_def)
  then show ?thesis
    by (auto simp: Allocator_Reserve_def hostIndices_def NewAllocator_def owner_index_def slots_head Allocator_LayoutOf_def List.map_filter_def)
qed

lemma example_create:
  "\<exists>m. run (Manager_Create example_env example_spec) (example_net, ([], [])) = ((m, ([''bean-0''], [''sb1''])), Inr 0)
     \<and> sandbox_at m ''sb1'' = Some 0 \<and> sb_State (obj m 0) = StateRunning \<and> al_taken (m_alloc m) = [(0, ''sb1'')] \<and> m_Net m
     \<and> al_GuestCIDR (m_alloc m) = ''g''"
proof -
  obtain l where l: "Allocator_Reserve example_parse (Some (Inr [])) (NewAllocator ''g'') ''sb1'' = (NewAllocator ''g''\<lparr>al_taken := [(0, ''sb1'')]\<rparr>, Inr l)"
    "l_Netns l = ''bean-0''" using example_slot by blast
  show ?thesis
    by (simp add: Manager_Create_def Let_def example_spec_def warm_spec_def refusing_def diskGuard_def memGuard_def NewManager_def example_guards
        reserve_record_def sandbox_at_def assign_network_def has_net_def node_Provision_def example_simps l [unfolded NewAllocator_def, simplified] failing_def sbxtoken_New_def
        if_present_def or_drop_def createOrRestoreWarm_def specToRuntime_def dialAgent_def connectAgent_def publish_def kick_def
        set_obj_def obj_def NewAllocator_def)
qed

section \<open>Properties of all interleavings\<close>

lemma example_reached:
  "\<exists>m ts. reaches (manager_method example_env) world_moves (example_net, ([], [])) (m, ([''bean-0''], [''sb1''])) ts \<and> finished ts
     \<and> sandbox_at m ''sb1'' = Some 0"
proof -
  obtain m where m: "run (Manager_Create example_env example_spec) (example_net, ([], [])) = ((m, ([''bean-0''], [''sb1''])), Inr 0)"
    "sandbox_at m ''sb1'' = Some 0" using example_create by blast
  have "\<exists>ts. reaches (manager_method example_env) world_moves (example_net, ([], []))
      (fst (run (thread (Manager_Create example_env example_spec)) (example_net, ([], [])))) ts \<and> finished ts"
    by (rule reaches_alone [where ts = "[]"]) (auto intro: reaches.none manager_method.intros simp: finished_def)
  then show ?thesis using m by (auto simp: thread_def)
qed

text \<open>
  C15. The manager's records are well formed at every moment. However the methods interrupt each other, and
  whatever the runtime, the agents and the host answer: a registered sandbox's pointer points to a record
  that carries that sandbox's id, no two ids share a record, the count of requests in flight is never
  negative, and the state is one that the manager owns.
\<close>

theorem manager_well_formed:
  assumes "reaches (manager_method e) world_moves (NewManager net, w0) (m, w) ts" "sandbox_at m sid = Some a"
  shows "a < length (m_objs m) \<and> sp_SandboxId (sb_Spec (obj m a)) = sid \<and> 0 \<le> sb_inFlight (obj m a)
    \<and> sb_State (obj m a) \<in> {StateStarting, StateRestoring, StateRunning, StatePausing, StatePaused, StateResuming, StateSnapshotting}
    \<and> (\<forall>t. sandbox_at m t = Some a \<longrightarrow> t = sid)"
proof -
  have wf: "well_formed m" using node_manager.invariant [OF assms(1) new_manager] by (simp add: good_node_def)
  have "sane (obj m a)" using wf sandbox_at_obj(1) [OF wf assms(2)] by (auto simp: well_formed_def obj_def simp del: sane_def)
  then show ?thesis using sandbox_at_obj [OF wf assms(2)] same_object [OF wf assms(2)] by (cases "sb_State (obj m a)") auto
qed

theorem manager_well_formed_witness:
  "\<exists>m ts. reaches (manager_method example_env) world_moves (example_net, ([], [])) (m, ([''bean-0''], [''sb1''])) ts
     \<and> sp_SandboxId (sb_Spec (obj m 0)) = ''sb1''"
proof -
  obtain m ts where r: "reaches (manager_method example_env) world_moves (example_net, ([], [])) (m, ([''bean-0''], [''sb1''])) ts"
    "sandbox_at m ''sb1'' = Some 0" using example_reached by blast
  show ?thesis using manager_well_formed [OF r] r(1) by blast
qed

text \<open>
  C3. No sandbox is left behind in the middle of a transition. Whenever no method is in progress, in any
  interleaving of any number of creates, forks, destroys, pauses, resumes, snapshots, requests, prewarms
  and idle sweeps, with any of the calls failing, every registered sandbox is running or paused: never
  still starting, restoring, pausing, resuming or snapshotting.
\<close>

theorem no_stuck_sandbox:
  assumes "reaches (manager_method e) world_moves (NewManager net, w0) (m, w) ts" "finished ts" "sandbox_at m sid = Some a"
  shows "sb_State (obj m a) \<in> {StateRunning, StatePaused}"
proof -
  have wf: "well_formed m" using node_manager.invariant [OF assms(1) new_manager] by (simp add: good_node_def)
  have "pending m = {}" using node_manager.nothing_left [OF assms(1) new_manager assms(2)] by (simp add: pending_node_def)
  then have "Making sid a \<notin> pending m" "Moving (sb_State (obj m a)) sid \<notin> pending m" by simp_all
  moreover have "sane (obj m a)" using wf sandbox_at_obj(1) [OF wf assms(3)] by (auto simp: well_formed_def obj_def simp del: sane_def)
  ultimately show ?thesis using assms(3) by (cases "sb_State (obj m a)") (auto simp: pending_iff)
qed

theorem no_stuck_sandbox_witness:
  "\<exists>m ts. reaches (manager_method example_env) world_moves (example_net, ([], [])) (m, ([''bean-0''], [''sb1''])) ts \<and> finished ts
     \<and> sandbox_at m ''sb1'' = Some 0 \<and> sb_State (obj m 0) \<in> {StateRunning, StatePaused}"
proof -
  obtain m ts where r: "reaches (manager_method example_env) world_moves (example_net, ([], [])) (m, ([''bean-0''], [''sb1''])) ts"
    "finished ts" "sandbox_at m ''sb1'' = Some 0" using example_reached by blast
  show ?thesis using no_stuck_sandbox [OF r] r by blast
qed

section \<open>A destroy in the middle of a create\<close>

text \<open>A program's first actions, and what is left of it then.\<close>

primrec after :: "nat \<Rightarrow> ('s, 'r) prog \<Rightarrow> 's \<Rightarrow> 's \<times> ('s, 'r) prog" where
  "after 0 p s = (s, p)"
| "after (Suc n) p s = (case p of Ret r \<Rightarrow> (s, p) | Act u k \<Rightarrow> after n (k s) (u s))"

lemma reaches_after:
  "reaches starts moves s0 s ts \<Longrightarrow> i < length ts \<Longrightarrow> ts ! i = p \<Longrightarrow> after n p s = (s', p') \<Longrightarrow> reaches starts moves s0 s' (ts[i := p'])"
proof (induction n arbitrary: p s ts)
  case 0
  then show ?case by (auto simp: list_update_id)
next
  case (Suc n)
  show ?case
  proof (cases p)
    case (Ret r)
    then show ?thesis using Suc.prems by (auto simp: list_update_id)
  next
    case (Act u k)
    have t: "ts ! i = Act u k" using Suc.prems(3) Act by simp
    have "after n (k s) (u s) = (s', p')" using Suc.prems(4) Act by simp
    from Suc.IH [OF reaches.turn [OF Suc.prems(1,2) t] _ _ this] Suc.prems(2) show ?thesis by simp
  qed
qed

text \<open>Two actions for each guard and one for the record; the destroy comes next, and then the rest of the create.\<close>

lemma example_interrupted:
  "\<exists>m1 p m2. after 5 (thread (Manager_Create example_env example_spec)) (example_net, ([], [])) = ((m1, ([], [])), p)
     \<and> fst (run (thread (Manager_Destroy example_env ''sb1'' True)) (m1, ([], []))) = (m2, ([], []))
     \<and> (\<exists>m. fst (run p (m2, ([], []))) = (m, ([''bean-0''], [''sb1''])) \<and> sandbox_at m ''sb1'' = None \<and> al_taken (m_alloc m) = [(0, ''sb1'')])"
proof -
  obtain l where l: "Allocator_Reserve example_parse (Some (Inr [])) (NewAllocator ''g'') ''sb1'' = (NewAllocator ''g''\<lparr>al_taken := [(0, ''sb1'')]\<rparr>, Inr l)"
    "l_Netns l = ''bean-0''" using example_slot by blast
  show ?thesis
    by (simp add: numeral_eq_Suc thread_def locked_def call_def atom_def andTry_def Manager_Create_def Let_def example_spec_def warm_spec_def
        refusing_def diskGuard_def memGuard_def NewManager_def example_guards reserve_record_def sandbox_at_def assign_network_def has_net_def
        node_Provision_def example_simps l [unfolded NewAllocator_def, simplified] failing_def sbxtoken_New_def if_present_def or_drop_def
        createOrRestoreWarm_def specToRuntime_def dialAgent_def connectAgent_def publish_def kick_def set_obj_def obj_def NewAllocator_def
        Manager_Destroy_def delete_sandbox_def releaseNetwork_def node_Deprovision_def Allocator_LayoutOf_def owner_index_def)
qed


end
