(* ===== verification/ManagerSerial.thy ===== *)
theory ManagerSerial
  imports ManagerRuns
begin

text \<open>
  The manager's methods one after another: each runs to its end before the next starts. Then the sandboxes
  that are registered and the sandboxes that own a network slot are the same, whatever fails on the way.
  \<open>ens A p B\<close> says what a program run alone makes of the manager's state.
\<close>

section \<open>Programs run alone\<close>

definition ens :: "(Manager \<Rightarrow> bool) \<Rightarrow> ('w node, 'r) prog \<Rightarrow> ('r \<Rightarrow> Manager \<Rightarrow> bool) \<Rightarrow> bool" where
  "ens A p B \<longleftrightarrow> (\<forall>m w. A m \<longrightarrow> (case run p (m, w) of ((m', w'), r) \<Rightarrow> B r m'))"

lemma ens_Ret: "(\<And>m. A m \<Longrightarrow> B r m) \<Longrightarrow> ens A (Ret r) B"
  by (simp add: ens_def)

lemma ens_call: "ens A (call f) (\<lambda>_. A)"
  by (simp add: ens_def split: prod.split)

lemma ens_locked: "(\<And>m w. A m \<Longrightarrow> B (snd (g m w)) (fst (g m w))) \<Longrightarrow> ens A (locked g) B"
  by (auto simp: ens_def split: prod.split) (metis fst_conv snd_conv)

lemma ens_andThen: "ens A p B \<Longrightarrow> (\<And>r. ens (B r) (f r) C) \<Longrightarrow> ens A (andThen p f) C"
  unfolding ens_def by (fastforce split: prod.splits)

lemma ens_andTry: "ens A p B \<Longrightarrow> (\<And>x m. B (Inl x) m \<Longrightarrow> C (Inl x) m) \<Longrightarrow> (\<And>v. ens (B (Inr v)) (f v) C) \<Longrightarrow> ens A (andTry p f) C"
  unfolding andTry_def by (rule ens_andThen, assumption) (simp add: ens_Ret split: sum.split)

lemma ens_weaken: "ens A p B \<Longrightarrow> (\<And>m. A' m \<Longrightarrow> A m) \<Longrightarrow> (\<And>r m. B r m \<Longrightarrow> B' r m) \<Longrightarrow> ens A' p B'"
  unfolding ens_def by (fastforce split: prod.splits)

lemma ens_for_each: "(\<And>x. ens A (f x) (\<lambda>_. A)) \<Longrightarrow> ens A (for_each f xs) (\<lambda>_. A)"
  by (induction xs) (auto intro: ens_Ret ens_andThen)

text \<open>Programs that leave the map and the slots alone keep everything that is said about these.\<close>

definition about_slots :: "(Manager \<Rightarrow> bool) \<Rightarrow> bool" where
  "about_slots A \<longleftrightarrow> (\<forall>m m'. m_sandboxes m' = m_sandboxes m \<and> m_alloc m' = m_alloc m \<and> m_Net m' = m_Net m \<longrightarrow> A m \<longrightarrow> A m')"

definition still :: "('w node, 'r) prog \<Rightarrow> bool" where
  "still p \<longleftrightarrow> (\<forall>A. about_slots A \<longrightarrow> ens A p (\<lambda>_. A))"

named_theorems still_rules \<open>programs that leave the map and the slots alone\<close>

lemma still_ens: "still p \<Longrightarrow> about_slots A \<Longrightarrow> ens A p (\<lambda>_. A)"
  by (simp add: still_def)

lemma still_Ret [still_rules]: "still (Ret r)"
  by (simp add: still_def ens_Ret)

lemma still_call [still_rules]: "still (call f)"
  by (simp add: still_def ens_call)

lemma still_locked:
  assumes "\<And>m w. m_sandboxes (fst (g m w)) = m_sandboxes m \<and> m_alloc (fst (g m w)) = m_alloc m \<and> m_Net (fst (g m w)) = m_Net m"
  shows "still (locked g)"
  unfolding still_def about_slots_def by (intro allI impI ens_locked) (use assms in blast)

lemma still_andThen [still_rules]: "still p \<Longrightarrow> (\<And>r. still (f r)) \<Longrightarrow> still (andThen p f)"
  unfolding still_def by (blast intro: ens_andThen)

lemma still_andTry [still_rules]: "still p \<Longrightarrow> (\<And>r. still (f r)) \<Longrightarrow> still (andTry p f)"
  unfolding andTry_def by (rule still_andThen) (simp_all add: still_Ret split: sum.split)

lemma still_if [still_rules]: "(b \<Longrightarrow> still p) \<Longrightarrow> (\<not> b \<Longrightarrow> still q) \<Longrightarrow> still (if b then p else q)"
  by simp

lemma still_option [still_rules]: "still p \<Longrightarrow> (\<And>x. still (f x)) \<Longrightarrow> still (case v of None \<Rightarrow> p | Some x \<Rightarrow> f x)"
  by (cases v) simp_all

lemma still_sum [still_rules]: "(\<And>x. still (f x)) \<Longrightarrow> (\<And>y. still (g y)) \<Longrightarrow> still (case v of Inl x \<Rightarrow> f x | Inr y \<Rightarrow> g y)"
  by (cases v) simp_all

lemma still_prod [still_rules]: "(\<And>x y. still (f x y)) \<Longrightarrow> still (case v of (x, y) \<Rightarrow> f x y)"
  by (cases v) simp

lemma still_look [still_rules]: "still (locked (\<lambda>m w. (m, f m w)))"
  by (rule still_locked) simp

lemma if_present_simps [simp]:
  "m_sandboxes (if_present sid f m) = m_sandboxes m" "m_alloc (if_present sid f m) = m_alloc m" "m_Net (if_present sid f m) = m_Net m"
  by (simp_all add: if_present_def split: option.split)

lemma still_if_present [still_rules]: "still (locked (\<lambda>m w. (if_present sid (f w) m, v m w)))"
  by (rule still_locked) simp

lemma still_claims [still_rules]:
  "still (settle sid st st')" "still (claim_pause sid)" "still (claim_resume sid)" "still (claim_snapshot sid)"
  "still (publish a handle conn)" "still kick" "still (AgentConn_release e sid)" "still diskGuard" "still memGuard" "still has_net"
  "still (SetAdmission disk mem)" "still Admission"
  unfolding settle_def claim_pause_def claim_resume_def claim_snapshot_def publish_def kick_def AgentConn_release_def
    diskGuard_def memGuard_def has_net_def SetAdmission_def Admission_def
  by (rule still_locked; simp split: option.split)+

lemma still_seen [still_rules]: "still (locked (\<lambda>m w. case sandbox_at m sid of None \<Rightarrow> (m, v) | Some a \<Rightarrow> (set_obj a (f w) m, h m a)))"
  by (rule still_locked) (simp split: option.split)

lemma still_agents [still_rules]:
  "still (connectAgent e handle)" "still (run_sync e conn cmd)" "still (syncViaAgent e sid)" "still (flushBeforeDestroy e sid)"
  "still (createOrRestoreWarm e rspec imageRef)" "still (startUserProcess e conn spec)"
  unfolding connectAgent_def run_sync_def syncViaAgent_def flushBeforeDestroy_def createOrRestoreWarm_def startUserProcess_def
  by (intro still_rules)+

lemma still_redial [still_rules]: "still (redialAgent e sid)"
  unfolding redialAgent_def by (intro still_rules)

lemma still_moves [still_rules]: "still (Manager_Pause e sid)" "still (Manager_Resume e sid)" "still (Manager_Snapshot e sid opts)"
  unfolding Manager_Pause_def Manager_Resume_def Manager_Snapshot_def by (intro still_rules)+

lemma still_AgentConn [still_rules]: "still (AgentConn e sid)"
  unfolding AgentConn_def by (intro still_rules)

lemma still_requests [still_rules]: "still (agent_request e sid use)" "still (syncGuest e sid)" "still (ConfigureAdmission persist cfg)"
  unfolding agent_request_def syncGuest_def ConfigureAdmission_def Let_def by (intro still_rules)+

section \<open>Slots and records\<close>

definition has_slot :: "Manager \<Rightarrow> string \<Rightarrow> bool" where
  "has_slot m s \<longleftrightarrow> (\<exists>i. (i, s) \<in> set (al_taken (m_alloc m)))"

text \<open>Outside \<open>X\<close>, a sandbox owns a slot exactly if it is registered.\<close>

definition matched :: "'w node_env \<Rightarrow> string set \<Rightarrow> Manager \<Rightarrow> bool" where
  "matched e X m \<longleftrightarrow> m_Net m \<and> alloc_ok (m_alloc m) \<and> (\<exists>l. LayoutFor (ne_parse e) 0 (al_GuestCIDR (m_alloc m)) = Inr l)
     \<and> (\<forall>s. s \<noteq> '''' \<and> s \<notin> X \<longrightarrow> has_slot m s = (sandbox_at m s \<noteq> None))"

abbreviation made :: "'w node_env \<Rightarrow> string \<Rightarrow> Manager \<Rightarrow> bool" where
  "made e sid m \<equiv> matched e {sid} m \<and> sandbox_at m sid \<noteq> None"

abbreviation gone :: "'w node_env \<Rightarrow> string \<Rightarrow> Manager \<Rightarrow> bool" where
  "gone e sid m \<equiv> matched e {sid} m \<and> sandbox_at m sid = None"

abbreviation kept :: "'w node_env \<Rightarrow> string \<Rightarrow> Manager \<Rightarrow> bool" where
  "kept e sid m \<equiv> matched e {} m \<and> sandbox_at m sid \<noteq> None"

lemma about_matched: "about_slots (matched e X)" "about_slots (made e sid)" "about_slots (gone e sid)" "about_slots (kept e sid)"
  by (simp_all add: about_slots_def matched_def has_slot_def sandbox_at_def)

lemma kept_made: "kept e sid m \<Longrightarrow> made e sid m"
  by (simp add: matched_def)

lemma LayoutOf_None:
  assumes "matched e X m" "sid \<noteq> ''''"
  shows "Allocator_LayoutOf (ne_parse e) (m_alloc m) sid = None \<longleftrightarrow> \<not> has_slot m sid"
proof
  assume none: "Allocator_LayoutOf (ne_parse e) (m_alloc m) sid = None"
  show "\<not> has_slot m sid"
  proof
    assume "has_slot m sid"
    then obtain i where i: "(i, sid) \<in> set (al_taken (m_alloc m))" by (auto simp: has_slot_def)
    have ok: "alloc_ok (m_alloc m)" using assms(1) by (simp add: matched_def)
    then have own: "owner_index (m_alloc m) sid = Some i" using owner_index_iff [OF ok assms(2)] i by blast
    have "0 \<le> i" "i \<le> MaxIndex" using ok i by (auto simp: alloc_ok_def)
    moreover obtain l0 where "LayoutFor (ne_parse e) 0 (al_GuestCIDR (m_alloc m)) = Inr l0" using assms(1) by (auto simp: matched_def)
    ultimately obtain l where "LayoutFor (ne_parse e) i (al_GuestCIDR (m_alloc m)) = Inr l" using LayoutFor_other by blast
    then show False using none own assms(2) by (simp add: Allocator_LayoutOf_def)
  qed
next
  assume "\<not> has_slot m sid"
  then show "Allocator_LayoutOf (ne_parse e) (m_alloc m) sid = None"
    using LayoutOf_owner(2) [of "ne_parse e" "m_alloc m" sid] by (cases "Allocator_LayoutOf (ne_parse e) (m_alloc m) sid") (auto simp: has_slot_def)
qed

text \<open>Releasing a slot takes it from this sandbox and from no other.\<close>

lemma matched_release:
  assumes "matched e {sid} m"
  shows "matched e {sid} (m\<lparr>m_alloc := Allocator_Release (m_alloc m) sid\<rparr>)"
    "sid \<noteq> '''' \<Longrightarrow> \<not> has_slot (m\<lparr>m_alloc := Allocator_Release (m_alloc m) sid\<rparr>) sid"
proof -
  have "alloc_ok (m_alloc m)" using assms by (simp add: matched_def)
  note k = Release_keeps [OF this, of sid]
  have "has_slot (m\<lparr>m_alloc := Allocator_Release (m_alloc m) sid\<rparr>) s = has_slot m s" if "s \<noteq> sid" for s
    using k(3) that by (simp add: has_slot_def)
  then show "matched e {sid} (m\<lparr>m_alloc := Allocator_Release (m_alloc m) sid\<rparr>)"
    using assms k(1,2) by (simp add: matched_def sandbox_at_def)
  show "\<not> has_slot (m\<lparr>m_alloc := Allocator_Release (m_alloc m) sid\<rparr>) sid" if "sid \<noteq> ''''"
    using k(3) that by (simp add: has_slot_def)
qed

lemma gone_matched: "gone e sid m \<Longrightarrow> sid = '''' \<or> \<not> has_slot m sid \<Longrightarrow> matched e {} m"
  by (auto simp: matched_def)

lemma ens_releaseNetwork: "ens (gone e sid) (releaseNetwork e sid) (\<lambda>_. matched e {})"
  unfolding ens_def
proof (intro allI impI)
  fix m w assume g: "gone e sid m"
  then have net: "m_Net m" by (simp add: matched_def)
  show "case run (releaseNetwork e sid) (m, w) of ((m', w'), r) \<Rightarrow> matched e {} m'"
  proof (cases "Allocator_LayoutOf (ne_parse e) (m_alloc m) sid")
    case None
    then have "sid = '''' \<or> \<not> has_slot m sid" using LayoutOf_None [of e "{sid}" m sid] g by blast
    then have "matched e {} m" using gone_matched g by blast
    then show ?thesis using net None by (simp add: releaseNetwork_def has_net_def node_Deprovision_def)
  next
    case (Some l)
    then have "sid \<noteq> ''''" by (rule LayoutOf_owner)
    then have "matched e {} (m\<lparr>m_alloc := Allocator_Release (m_alloc m) sid\<rparr>)"
      using matched_release [of e sid m] g by (intro gone_matched [where sid = sid]) (simp_all add: sandbox_at_def)
    then show ?thesis using net Some
      by (simp add: releaseNetwork_def has_net_def node_Deprovision_def alloc_release_def split: prod.split)
  qed
qed

lemma matched_delete: "matched e {} m \<Longrightarrow> gone e sid (delete_sandbox sid m)" "made e sid m \<Longrightarrow> gone e sid (delete_sandbox sid m)"
  by (auto simp: matched_def sandbox_at_delete has_slot_def)

lemma ens_dropFailed: "ens (made e sid) (dropFailed e sid) (\<lambda>_. matched e {})"
  unfolding dropFailed_def
  by (rule ens_andThen [OF ens_locked ens_releaseNetwork]) (simp add: matched_delete sandbox_at_delete)

lemma Reserve_slot:
  assumes "alloc_ok a" "Allocator_Reserve parse (Some host) a s = (a', Inr l)"
  shows "\<exists>i. (i, s) \<in> set (al_taken a')"
proof -
  have s: "s \<noteq> ''''" using assms(2) by (auto simp: Allocator_Reserve_def)
  show ?thesis
  proof (cases "owner_index a s")
    case (Some k)
    then have "a' = a" using assms(2) s by (auto simp: Allocator_Reserve_def)
    then show ?thesis using owner_index_Some [OF Some] by blast
  next
    case None
    obtain names where n: "host = Inr names"
      using assms(2) s None by (cases host) (auto simp: Allocator_Reserve_def hostIndices_def)
    show ?thesis using Reserve_new [OF assms(1) s None assms(2) [unfolded n]] by auto
  qed
qed

lemma ens_Provision:
  "ens (made e sid) (node_Provision e sid) (\<lambda>r m. case r of Inl x \<Rightarrow> made e sid m | Inr l \<Rightarrow> kept e sid m)"
  unfolding ens_def
proof (intro allI impI)
  fix m w assume g: "made e sid m"
  then have ok: "alloc_ok (m_alloc m)" by (simp add: matched_def)
  obtain a r where res: "Allocator_Reserve (ne_parse e) (Some (h_List (ne_host e) w)) (m_alloc m) sid = (a, r)" by (meson surj_pair)
  note k = Reserve_keeps [OF ok res]
  let ?m = "m\<lparr>m_alloc := a\<rparr>"
  have "has_slot ?m s = has_slot m s" if "s \<noteq> sid" "s \<noteq> ''''" for s
    using k that unfolding has_slot_def by auto
  then have made: "made e sid ?m" using g k by (simp add: matched_def sandbox_at_def)
  have kept: "kept e sid ?m" if "r = Inr l" for l
  proof -
    have "has_slot ?m sid" using Reserve_slot [OF ok res [unfolded that]] by (simp add: has_slot_def)
    then show ?thesis using made by (auto simp: matched_def)
  qed
  have "made e sid (?m\<lparr>m_alloc := Allocator_Release (m_alloc ?m) sid\<rparr>)"
    using matched_release(1) [of e sid ?m] made by (simp add: sandbox_at_def)
  then have rel: "made e sid (m\<lparr>m_alloc := Allocator_Release a sid\<rparr>)" by simp
  show "case run (node_Provision e sid) (m, w) of ((m', w'), r) \<Rightarrow> (case r of Inl x \<Rightarrow> made e sid m' | Inr l \<Rightarrow> kept e sid m')"
    using res made kept rel
    by (cases r) (simp_all add: node_Provision_def alloc_release_def split: prod.split option.split)
qed

section \<open>Each method keeps them matched\<close>

abbreviation outcome :: "'w node_env \<Rightarrow> string \<Rightarrow> 'e + 'r \<Rightarrow> Manager \<Rightarrow> bool" where
  "outcome e sid r m \<equiv> (case r of Inl x \<Rightarrow> matched e {} m | Inr v \<Rightarrow> kept e sid m)"

lemma ens_pre: "(b \<Longrightarrow> ens A p B) \<Longrightarrow> ens (\<lambda>m. b \<and> A m) p B"
  by (simp add: ens_def)

lemma ens_if: "(b \<Longrightarrow> ens A p B) \<Longrightarrow> (\<not> b \<Longrightarrow> ens A q B) \<Longrightarrow> ens A (if b then p else q) B"
  by simp

lemma ens_sum:
  "(\<And>x. ens (P x) (f x) B) \<Longrightarrow> (\<And>y. ens (Q y) (g y) B) \<Longrightarrow>
    ens (\<lambda>m. case v of Inl x \<Rightarrow> P x m | Inr y \<Rightarrow> Q y m) (case v of Inl x \<Rightarrow> f x | Inr y \<Rightarrow> g y) B"
  by (cases v) simp_all

lemma ens_sum_any: "(\<And>x. ens A (f x) B) \<Longrightarrow> (\<And>y. ens A (g y) B) \<Longrightarrow> ens A (case v of Inl x \<Rightarrow> f x | Inr y \<Rightarrow> g y) B"
  by (cases v) simp_all

lemma ens_option_any: "ens A p B \<Longrightarrow> (\<And>x. ens A (f x) B) \<Longrightarrow> ens A (case v of None \<Rightarrow> p | Some x \<Rightarrow> f x) B"
  by (cases v) simp_all

lemma ens_drop: "ens (made e sid) (andThen (dropFailed e sid) (\<lambda>_. Ret (Inl x))) (outcome e sid)"
  by (rule ens_andThen [OF ens_dropFailed]) (simp add: ens_Ret)

lemma ens_assign_network: "ens (made e (sp_SandboxId spec)) (assign_network e spec rspec) (outcome e (sp_SandboxId spec))"
proof -
  let ?sid = "sp_SandboxId spec"
  have net: "ens (made e ?sid) has_net (\<lambda>r m. r \<and> made e ?sid m)"
    unfolding has_net_def by (rule ens_locked) (simp add: matched_def)
  have token: "ens (kept e ?sid) (call (sbxtoken_New (ne_rand e))) (\<lambda>_. kept e ?sid)" by (rule ens_call)
  have store: "ens (kept e ?sid) (locked (\<lambda>m w. (if_present ?sid f m, ()))) (\<lambda>_. kept e ?sid)" for f
    by (rule still_ens [OF still_if_present about_matched(4)])
  have fin: "ens (kept e ?sid) (andThen (locked (\<lambda>m w. (if_present ?sid f m, ()))) (\<lambda>_. Ret (Inr v))) (outcome e ?sid)" for f and v :: RuntimeSpec
    by (rule ens_andThen [OF store]) (simp add: ens_Ret)
  have drop: "ens (kept e ?sid) (andThen (dropFailed e ?sid) (\<lambda>_. Ret (Inl x))) (outcome e ?sid)" for x :: go_error
    by (rule ens_weaken [OF ens_drop kept_made])
  show ?thesis unfolding assign_network_def Let_def
    by (rule ens_andThen [OF net], rule ens_pre, rule ens_if, simp)
      (rule ens_andThen [OF ens_Provision], rule ens_sum, rule ens_drop, rule ens_andThen [OF token], rule ens_sum_any, rule drop, rule fin)
qed

text \<open>What a method does to the map and the slots, given that they match when it starts.\<close>

abbreviation matching :: "'w node_env \<Rightarrow> ('w node, 'r) prog \<Rightarrow> bool" where
  "matching e p \<equiv> ens (matched e {}) p (\<lambda>_. matched e {})"

lemma matching_still: "still p \<Longrightarrow> matching e p"
  by (simp add: still_ens about_matched)

lemma matching_andThen: "matching e p \<Longrightarrow> (\<And>r. matching e (f r)) \<Longrightarrow> matching e (andThen p f)"
  by (rule ens_andThen)

lemma matching_andTry: "matching e p \<Longrightarrow> (\<And>r. matching e (f r)) \<Longrightarrow> matching e (andTry p f)"
  by (rule ens_andTry) simp_all

lemma outcome_andTry:
  "ens A p (outcome e sid) \<Longrightarrow> (\<And>v. ens (kept e sid) (f v) (\<lambda>_. matched e {})) \<Longrightarrow> ens A (andTry p f) (\<lambda>_. matched e {})"
  by (rule ens_andTry [where B = "outcome e sid"]) simp_all

lemma outcome_failing: "ens A p (outcome e sid) \<Longrightarrow> ens A (failing p) (outcome e sid)"
  unfolding failing_def by (rule ens_andThen, assumption) (auto intro!: ens_Ret split: sum.split)

lemma ens_or_drop: "still p \<Longrightarrow> ens (kept e sid) (or_drop e sid p) (outcome e sid)"
  unfolding or_drop_def
  by (rule ens_andThen [OF still_ens [OF _ about_matched(4)]], assumption, rule ens_sum_any)
    (rule ens_weaken [OF ens_drop kept_made], auto intro!: ens_Ret)

lemma ens_dialAgent: "ens (kept e sid) (dialAgent e sid handle) (outcome e sid)"
  unfolding dialAgent_def
  by (rule ens_andThen [OF still_ens [OF still_agents(1) about_matched(4)]], rule ens_sum_any)
    (rule ens_andThen [OF ens_call], rule ens_weaken [OF ens_drop kept_made], auto intro!: ens_Ret)

lemma kept_still: "still p \<Longrightarrow> ens (kept e sid) p (\<lambda>_. matched e {})"
  by (rule ens_weaken [OF still_ens [OF _ about_matched(4)]]) auto

lemma ens_reserve_record:
  "ens (matched e {}) (reserve_record e' spec st) (\<lambda>r m. case r of None \<Rightarrow> matched e {} m | Some a \<Rightarrow> made e (sp_SandboxId spec) m)"
  unfolding reserve_record_def
  by (rule ens_locked) (auto simp: Let_def matched_def sandbox_at_def has_slot_def split: option.split)

lemma ens_option:
  "ens A p C \<Longrightarrow> (\<And>x. ens (P x) (f x) C) \<Longrightarrow>
    ens (\<lambda>m. case v of None \<Rightarrow> A m | Some x \<Rightarrow> P x m) (case v of None \<Rightarrow> p | Some x \<Rightarrow> f x) C"
  by (cases v) simp_all

lemma still_refusing [still_rules]: "still p \<Longrightarrow> still (refusing p)"
  unfolding refusing_def by (intro still_rules)

lemma matching_Create: "matching e (Manager_Create e spec)"
proof (cases "sp_SandboxId spec = ''''")
  case True
  then show ?thesis by (simp add: Manager_Create_def ens_Ret)
next
  case False
  let ?sid = "sp_SandboxId spec"
  have fin: "still (andThen (publish a handle conn) (\<lambda>_. andThen kick (\<lambda>_.
      andThen (if sp_AutoStartCmd spec then startUserProcess e conn spec else Ret ()) (\<lambda>_. Ret (Inr a)))))" for a handle conn
    by (intro still_rules)
  have "ens (made e ?sid) (andTry (failing (assign_network e spec (specToRuntime spec))) (\<lambda>rspec.
      andTry (failing (or_drop e ?sid (createOrRestoreWarm e rspec (sp_Image spec)))) (\<lambda>handle.
      andTry (failing (dialAgent e ?sid handle)) (\<lambda>conn.
      andThen (publish a handle conn) (\<lambda>_.
      andThen kick (\<lambda>_.
      andThen (if sp_AutoStartCmd spec then startUserProcess e conn spec else Ret ()) (\<lambda>_.
        Ret (Inr a)))))))) (\<lambda>_. matched e {})" for a
    by (rule outcome_andTry [OF outcome_failing [OF ens_assign_network]],
        rule outcome_andTry [OF outcome_failing [OF ens_or_drop [OF still_agents(5)]]],
        rule outcome_andTry [OF outcome_failing [OF ens_dialAgent]], rule kept_still [OF fin])
  then show ?thesis unfolding Manager_Create_def Let_def using False
    by (simp only: if_False) (intro matching_andTry matching_still [OF still_refusing] still_rules ens_andThen [OF ens_reserve_record] ens_option, simp_all add: ens_Ret)
qed

lemma matching_Fork: "matching e (ForkSandbox e spec layers)"
proof (cases "sp_SandboxId spec = ''''")
  case True
  then show ?thesis by (simp add: ForkSandbox_def ens_Ret)
next
  case False
  let ?sid = "sp_SandboxId spec"
  have fin: "still (andThen (publish a handle conn) (\<lambda>_. Ret (Inr a)))" for a handle conn by (intro still_rules)
  show ?thesis unfolding ForkSandbox_def Let_def using False
    by (simp only: if_False) (rule ens_andThen [OF ens_reserve_record], rule ens_option, simp add: ens_Ret,
        rule outcome_andTry [OF ens_assign_network], rule outcome_andTry [OF ens_or_drop [OF still_call]],
        rule outcome_andTry [OF ens_dialAgent], rule kept_still [OF fin])
qed

lemma matching_Destroy: "matching e (Manager_Destroy e sid force)"
proof -
  have del: "ens (matched e {}) (locked (\<lambda>m w. (delete_sandbox sid m, sandbox_at m sid)))
      (\<lambda>r m. case r of None \<Rightarrow> matched e {} m | Some a \<Rightarrow> gone e sid m)"
    by (rule ens_locked) (auto simp: matched_delete matched_def sandbox_at_delete has_slot_def split: option.split)
  have "still (if \<not> force then flushBeforeDestroy e sid else Ret None)" by (intro still_rules)
  note flush = matching_still [OF this]
  have conn: "still (case c of None \<Rightarrow> Ret () | Some c \<Rightarrow> call (\<lambda>w. (ne_closeConn e c w, ())))" for c by (intro still_rules)
  have "ens (gone e sid) (andThen (locked (\<lambda>m w. (m, sb_conn (obj m a)))) (\<lambda>conn.
      andThen (case conn of None \<Rightarrow> Ret () | Some c \<Rightarrow> call (\<lambda>w. (ne_closeConn e c w, ()))) (\<lambda>_.
      andThen (call (rt_Destroy e sid force)) (\<lambda>err.
      andThen (releaseNetwork e sid) (\<lambda>_. andThen kick (\<lambda>_. Ret err)))))) (\<lambda>_. matched e {})" for a
    by (rule ens_andThen [OF still_ens [OF still_look about_matched(3)]], rule ens_andThen [OF still_ens [OF conn about_matched(3)]],
        rule ens_andThen [OF ens_call], rule ens_andThen [OF ens_releaseNetwork], rule matching_still) (intro still_rules)
  then show ?thesis unfolding Manager_Destroy_def
    by (intro matching_andThen [OF flush] ens_andThen [OF del] ens_option) (simp_all add: ens_Ret)
qed

lemma matching_capture: "matching e (capture_warm e warmer imageRef sid)"
  unfolding capture_warm_def
  by (rule matching_andThen [OF matching_Create], rule ens_sum_any)
    (auto intro!: ens_Ret matching_andThen matching_Destroy ens_call)

lemma matching_Prewarm: "matching e (Manager_PrewarmImage e imageRef)"
proof -
  have "matching e (warmSnapshotFor e imageRef)" unfolding warmSnapshotFor_def
    by (auto intro!: ens_Ret matching_andThen matching_capture ens_call split: option.split sum.split)
  then show ?thesis unfolding Manager_PrewarmImage_def
    by (auto intro!: ens_Ret matching_andThen ens_call split: option.split)
qed

lemma matching_sweep: "matching e (sweepIdle e)"
  unfolding sweepIdle_def
  by (rule matching_andThen [OF ens_call], rule matching_andThen [OF matching_still [OF still_look]], rule ens_for_each)
    (auto intro!: matching_andThen ens_Ret matching_Destroy matching_still [OF still_moves(1)] split: prod.split)

lemma matching_Close: "matching e (Manager_Close e)"
  unfolding Manager_Close_def
  by (rule matching_andThen [OF matching_still [OF still_look]], rule ens_for_each)
    (auto intro!: matching_andThen ens_Ret matching_Destroy)

lemma matching_method: "manager_method e p \<Longrightarrow> matching e p"
proof (induction rule: manager_method.induct)
  case (12 persist cfg)
  then show ?case unfolding thread_def by (intro matching_still still_rules)
next
  case (13 disk mem)
  then show ?case by (intro matching_still still_rules)
qed (unfold thread_def, (intro matching_sweep matching_Close matching_andThen matching_Create matching_Fork matching_Destroy
  matching_Prewarm ens_Ret matching_still [OF still_moves(1)] matching_still [OF still_moves(2)] matching_still [OF still_moves(3)]
  matching_still [OF still_requests(1)] matching_still [OF still_requests(2)]; assumption?)+)

section \<open>One method after another\<close>

text \<open>What a sequence of complete method runs reaches; between them the world does what it likes.\<close>

inductive serial :: "'w node_env \<Rightarrow> 'w node \<Rightarrow> 'w node \<Rightarrow> bool" for e s where
  start: "serial e s s"
| called: "serial e s s' \<Longrightarrow> manager_method e p \<Longrightarrow> serial e s (fst (run p s'))"
| moved: "serial e s (m, w) \<Longrightarrow> serial e s (m, w')"

lemma serial_matched:
  assumes "serial e s s'" "matched e {} (fst s)"
  shows "matched e {} (fst s')"
  using assms
proof (induction rule: serial.induct)
  case (called s' p)
  then have "case run p s' of ((m, w), r) \<Rightarrow> matched e {} m"
    using matching_method [OF called.hyps(2)] unfolding ens_def by (cases s') auto
  then show ?case by (simp add: case_prod_unfold)
qed simp_all

lemma new_matched:
  assumes "NewProvisioner (ne_parse e) cidr (Some (ne_host e)) = Inr a"
  shows "matched e {} (NewManager (Some a))"
proof -
  obtain l where "LayoutFor (ne_parse e) 0 cidr = Inr l" "a = NewAllocator cidr"
    using assms by (auto simp: NewProvisioner_def split: sum.splits)
  then show ?thesis
    by (simp add: matched_def NewManager_def NewAllocator_def alloc_ok_def has_slot_def sandbox_at_def)
qed

text \<open>
  C10. Slots and records match. On a node with networking, after any sequence of creates, forks, destroys,
  pauses, resumes, snapshots, requests, prewarms, idle sweeps and shutdowns, each run to its end, a sandbox
  owns a network slot exactly if it is registered. No failure on the way, of the host, the runtime, the
  agent, the random source or a destroy itself, leaks a slot or leaves a sandbox without its network.
\<close>

theorem slots_match_records:
  assumes "NewProvisioner (ne_parse e) cidr (Some (ne_host e)) = Inr a"
    and "serial e (NewManager (Some a), w0) (m, w)" and "sid \<noteq> ''''"
  shows "(\<exists>i. (i, sid) \<in> set (al_taken (m_alloc m))) \<longleftrightarrow> sandbox_at m sid \<noteq> None"
  using serial_matched [OF assms(2)] new_matched [OF assms(1)] assms(3) by (simp add: matched_def has_slot_def)

theorem slots_match_records_witness:
  "\<exists>m. serial example_env (example_net, ([], [])) (m, ([''bean-0''], [''sb1''])) \<and> sandbox_at m ''sb1'' = Some 0
     \<and> (\<exists>i. (i, ''sb1'') \<in> set (al_taken (m_alloc m))) \<and> sandbox_at m ''sb2'' = None \<and> (\<forall>i. (i, ''sb2'') \<notin> set (al_taken (m_alloc m)))"
proof -
  obtain m where m: "run (Manager_Create example_env example_spec) (example_net, ([], [])) = ((m, ([''bean-0''], [''sb1''])), Inr 0)"
    "sandbox_at m ''sb1'' = Some 0" "al_taken (m_alloc m) = [(0, ''sb1'')]" using example_create by blast
  have "serial example_env (example_net, ([], [])) (fst (run (thread (Manager_Create example_env example_spec)) (example_net, ([], []))))"
    by (intro serial.called serial.start manager_method.intros)
  then have s: "serial example_env (example_net, ([], [])) (m, ([''bean-0''], [''sb1'']))" using m(1) by (simp add: thread_def)
  have "NewProvisioner (ne_parse example_env) ''g'' (Some (ne_host example_env)) = Inr (NewAllocator ''g'')"
    using example_layout [of 0 "''g''"] by (auto simp: NewProvisioner_def example_simps MaxIndex_def)
  from slots_match_records [OF this s, of "''sb1''"] slots_match_records [OF this s, of "''sb2''"] s m(2,3)
  show ?thesis by auto
qed

end
