(* ===== verification/Spec2Isabelle.thy ===== *)
theory Spec2Isabelle
  imports SchedulerStore ImageChain BlobReader NetRules Buffers ManagerSerial
begin

text \<open>
  \<^bold>\<open>The program.\<close> A verification library for \<^emph>\<open>bean\<close>, a sandbox platform. A control plane
  (\<^verbatim>\<open>src/internal/control\<close>) keeps a ledger of what is placed where and picks a node for every new sandbox.
  A node daemon (\<^verbatim>\<open>src/internal/node\<close>) boots the sandbox: it admits or refuses it, gives it a network
  namespace, opens its layered disk image with a writable overlay on top, starts the virtual machine and
  talks to the agent inside (\<^verbatim>\<open>src/internal/beand\<close>). Several gateway replicas share the ledger, and a node
  serves many requests at once, so what happens between two steps of one operation matters in both places.

  \<^bold>\<open>The control plane.\<close>
  \<^item> \<open>Placement\<close>: \<^verbatim>\<open>control/store/placement.go\<close>. The tables \<^verbatim>\<open>nodes\<close> and \<^verbatim>\<open>reservations\<close> are a record
    \<open>db\<close>, one function per store method, a database fault rolls back. \<open>db_run\<close> is any interleaving of
    methods. Committed columns are exactly the sums of the reservations, no node is oversold, releasing
    undoes reserving; reserving twice for one sandbox leaks.
  \<^item> \<open>Scheduler\<close>: \<^verbatim>\<open>control/scheduler\<close>. Feasibility, CPU compatibility, score and rank, the optimistic
    reserve loop, waiting, the liveness sweep, reclaim, the explanation of a refusal; over a store that is only
    known through \<open>store_iface\<close>.
  \<^item> \<open>SchedulerStore\<close>: the contract between the two (locale \<open>placement_store\<close>), with the store of
    \<open>Placement\<close> under interference of other replicas as its instance. Placement is all or nothing under any
    interference, optimal on a quiet store, the wait ends, sweep and reclaim do exactly what they say.

  \<^bold>\<open>Disk images\<close> (\<^verbatim>\<open>node/image\<close>).
  \<^item> \<open>Lsmt\<close>, \<open>LsmtStack\<close>, \<open>StackRead\<close>: \<^verbatim>\<open>lsmt.go\<close>, \<^verbatim>\<open>lsmtstack.go\<close>. The layer format with its bit-packed
    index, the merge of a chain's indexes, reading through it. A read returns each byte from the newest layer
    that maps it.
  \<^item> \<open>LsmtWrite\<close>: \<^verbatim>\<open>lsmtwrite.go\<close>. Sealing extents into a layer; opening the result gives them back, and a
    failure leaves no file.
  \<^item> \<open>LsmtCow\<close>: \<^verbatim>\<open>lsmtcow.go\<close>. The writable overlay refines a flat disk (locale \<open>block_device\<close>); the
    extents it reports miss nothing that was written.
  \<^item> \<open>SnapshotChain\<close>: a sealed overlay on top of its chain restores the sandbox's disk.
  \<^item> \<open>Lz4\<close>, \<open>Zfile\<close>, \<open>ZfileFormat\<close>: \<^verbatim>\<open>lz4block.go\<close>, \<^verbatim>\<open>zfile.go\<close>. The decoder against the block format,
    the checksum, the block index, the round trip of the container.
  \<^item> \<open>ImageChain\<close>: \<^verbatim>\<open>obdtar.go\<close> and opening a whole chain; every failure closes what it opened.
  \<^item> \<open>BlobReader\<close>: \<^verbatim>\<open>blobreader.go\<close>. Remote layers through the shared chunk cache.
  All of them rest on the reader contract \<open>content_reader\<close> of theory \<open>Bytes\<close>.

  \<^bold>\<open>The node.\<close>
  \<^item> \<open>NetAlloc\<close>: \<^verbatim>\<open>node/network/pool.go\<close>, \<^verbatim>\<open>alloc.go\<close>, \<^verbatim>\<open>provision.go\<close>, \<^verbatim>\<open>collision.go\<close>. Layouts, slots,
    provisioning, the start-up check. No two sandboxes share an address or a namespace.
  \<^item> \<open>NetRules\<close>: \<^verbatim>\<open>rules.go\<close>, \<^verbatim>\<open>restore.go\<close>, \<^verbatim>\<open>setup_linux.go\<close>. The packet filter, its restore scripts, set-up
    and tear-down, against the documented behaviour of \<^verbatim>\<open>iptables\<close>.
  \<^item> \<open>Guards\<close>: \<^verbatim>\<open>diskguard.go\<close>, \<^verbatim>\<open>memguard.go\<close>, \<^verbatim>\<open>admissionstore.go\<close>, \<^verbatim>\<open>overcommit.go\<close>, \<^verbatim>\<open>loadstat.go\<close>.
  \<^item> \<open>Manager\<close>: \<^verbatim>\<open>manager.go\<close>, with \<^verbatim>\<open>image/config.go\<close>, \<^verbatim>\<open>sbxtoken.go\<close> and \<^verbatim>\<open>ConfigureAdmission\<close> of
    \<^verbatim>\<open>grpc.go\<close>. Every method is a program of atomic actions, one per locked region and one per call of the
    runtime, the host or the agent (\<open>prog\<close> of theory \<open>Interleave\<close>). Sandbox records live in a store and the
    map holds their addresses, because methods keep pointers across unlocked stretches.
  \<^item> \<open>ManagerRuns\<close>: all interleavings, by the locale \<open>discipline\<close>. The records are well formed at every
    moment, and no sandbox is left in the middle of a transition once the methods have ended. A destroy that
    interrupts a create leaks the machine and its network.
  \<^item> \<open>ManagerSerial\<close>: methods one after another. Registered sandboxes and owned slots are the same set.
  \<^item> \<open>Buffers\<close>: \<^verbatim>\<open>beand/buffer.go\<close>, the agent's output buffers (locale \<open>byte_log\<close>, two instances).

  \<open>Prelude\<close>, \<open>Bytes\<close>, \<open>Format\<close> and \<open>Interleave\<close> are shared: Go maps as association lists, \<^verbatim>\<open>sort\<close>, SQL updates
  by key, byte buffers and readers, numbers in text, programs that take turns.

  \<^bold>\<open>Conventions.\<close> A method \<^verbatim>\<open>T.M\<close> is \<open>M\<close>, or \<open>T_M\<close> where the name is taken. State is passed and returned.
  Machine integers are words where the code's arithmetic can wrap or is bitwise (the image formats, the
  CPU counters), and \<open>int\<close> where it only compares and adds bounded figures. \<^verbatim>\<open>float64\<close> is \<open>rat\<close>: rounding
  is not modelled. Errors are values with the message's arguments; message texts are shortened to the part
  that tells errors apart. What is outside the sources (the SQL engine's atomicity, the kernel, registries,
  the hypervisor, random numbers, SHA-256, \<^verbatim>\<open>net.ParseCIDR\<close>) is an argument, or a hypothesis that names
  its documented behaviour.

  \<^bold>\<open>Bounds.\<close> Disks are below \<open>2 ^ 60\<close> bytes and sealed files below \<open>2 ^ 61\<close>, so that byte positions do not
  wrap in \<^verbatim>\<open>int64\<close>; the format's sector fields end at \<open>2 ^ 50\<close>. An index has at most \<open>2 ^ 26\<close> entries, the
  code's own limit. A run of written blocks stays below 2 TiB, where its 32-bit sector count ends. No
  definition takes fuel. The one loop whose end depends on the kernel, the walk over a file's data and holes,
  is a partial function and is shown to return. A waiting placement consumes a finite list of clock ticks and
  events and is shown to return once these pass its deadline.

  \<^bold>\<open>Not modelled.\<close> HTTP and gRPC plumbing, the API server and the proxy; the object store and registry
  clients; block device drivers and the hypervisor (system calls); the polling of an agent's health, whose
  outcome is an argument; snapshot caches on the host's file system; metrics, traces and logs; the command
  line tools and the SDK.
\<close>

end
